(* ===== verification/Prelude.thy ===== *)
theory Prelude
  imports Complex_Main "HOL-Library.Word" "HOL-Library.Monad_Syntax"
begin

text \<open>
  Shared vocabulary of the AttentionDB development: the machine integers of the C++ code
  (\<open>size_t\<close> and \<open>uint64_t\<close> quantities that are only added and compared are naturals with
  the wrap-around written out by \<open>wrap64\<close> and \<open>sub64\<close>; packed struct fields are words),
  little-endian byte images of words, the byte-addressed memory behind \<open>memcpy\<close> and
  \<open>memset\<close>, and the list lemmas that several components use.
\<close>

unbundle bit_operations_syntax

named_theorems wrap_simps \<open>removal of wrap-around under a size bound\<close>
named_theorems byte_simps \<open>byte images of words: lengths and round trips\<close>
named_theorems mem_simps \<open>reading memory after a write\<close>

type_synonym byte = "8 word"
type_synonym bytes = "byte list"
type_synonym ptr = nat
type_synonym memory = "ptr \<Rightarrow> byte"

abbreviation (input) nullptr :: ptr where
  "nullptr \<equiv> 0"

section \<open>Machine integers as naturals\<close>

abbreviation (input) SIZE_MAX :: nat where
  "SIZE_MAX \<equiv> 2 ^ 64 - 1"

abbreviation (input) UINT32_MAX :: nat where
  "UINT32_MAX \<equiv> 2 ^ 32 - 1"

definition wrap64 :: "nat \<Rightarrow> nat" where
  "wrap64 n = n mod 2 ^ 64"

definition wrap32 :: "nat \<Rightarrow> nat" where
  "wrap32 n = n mod 2 ^ 32"

text \<open>Unsigned subtraction on 64 bits, for operands below \<open>2 ^ 64\<close>.\<close>

definition sub64 :: "nat \<Rightarrow> nat \<Rightarrow> nat" where
  "sub64 a b = (a + 2 ^ 64 - b) mod 2 ^ 64"

lemma wrap64_id [wrap_simps]: "n < 2 ^ 64 \<Longrightarrow> wrap64 n = n"
  by (simp add: wrap64_def)

lemma wrap32_id [wrap_simps]: "n < 2 ^ 32 \<Longrightarrow> wrap32 n = n"
  by (simp add: wrap32_def)

lemma wrap64_less: "wrap64 n < 2 ^ 64"
  by (simp add: wrap64_def)

lemma wrap32_less: "wrap32 n < 2 ^ 32"
  by (simp add: wrap32_def)

lemma sub64_id [wrap_simps]:
  assumes "b \<le> a" and "a < 2 ^ 64"
  shows "sub64 a b = a - b"
proof -
  have "a + 2 ^ 64 - b = (a - b) + 2 ^ 64"
    using assms(1) by (rule Nat.diff_add_assoc2)
  moreover have "a - b < 2 ^ 64"
    using assms(2) by (rule le_less_trans [OF diff_le_self])
  ultimately show ?thesis
    by (simp only: sub64_def mod_add_self2 mod_less)
qed

lemma unat_less_32: "unat (w :: 32 word) < 2 ^ 32"
  using unsigned_less [of w, where 'a = nat] by simp

lemma unat_less_64: "unat (w :: 64 word) < 2 ^ 64"
  using unsigned_less [of w, where 'a = nat] by simp

lemma unat_word_32 [wrap_simps]: "n < 2 ^ 32 \<Longrightarrow> unat (of_nat n :: 32 word) = n"
  by (simp add: unsigned_of_nat take_bit_nat_eq_self)

lemma unat_word_64 [wrap_simps]: "n < 2 ^ 64 \<Longrightarrow> unat (of_nat n :: 64 word) = n"
  by (simp add: unsigned_of_nat take_bit_nat_eq_self)

section \<open>Little-endian byte images\<close>

definition le_bytes :: "nat \<Rightarrow> 'a::len word \<Rightarrow> bytes" where
  "le_bytes n w = map (\<lambda>i. ucast (drop_bit (8 * i) w)) [0..<n]"

fun of_le :: "bytes \<Rightarrow> 'a::len word" where
  "of_le [] = 0"
| "of_le (b # bs) = ucast b OR push_bit 8 (of_le bs)"

lemma length_le_bytes [byte_simps, simp]: "length (le_bytes n w) = n"
  by (simp add: le_bytes_def)

lemma nth_le_bytes: "i < n \<Longrightarrow> le_bytes n w ! i = ucast (drop_bit (8 * i) w)"
  by (simp add: le_bytes_def)

lemma bit_of_le:
  "bit (of_le bs :: 'a::len word) i \<longleftrightarrow>
     i < LENGTH('a) \<and> i div 8 < length bs \<and> bit (bs ! (i div 8)) (i mod 8)"
proof (induction bs arbitrary: i)
  case Nil
  then show ?case by simp
next
  case (Cons b bs)
  show ?case
  proof (cases "i < 8")
    case True
    then show ?thesis by (auto simp: bit_simps)
  next
    case False
    then have d: "i div 8 = Suc ((i - 8) div 8)" and m: "i mod 8 = (i - 8) mod 8"
      by (simp_all add: le_div_geq le_mod_geq)
    from False have nb: "\<not> bit b i"
      by (simp add: impossible_bit)
    show ?thesis
      using False nb by (auto simp: bit_simps Cons.IH d m)
  qed
qed

lemma nth_byte_bit_bound: "\<not> i < 8 \<Longrightarrow> \<not> bit (b :: byte) i"
  by (simp add: impossible_bit)

text \<open>Writing \<open>n\<close> bytes of a word and reading them back keeps the low \<open>8 n\<close> bits.\<close>

lemma of_le_le_bytes [byte_simps]:
  "of_le (le_bytes n w) = take_bit (8 * n) (w :: 'a::len word)"
proof (rule bit_word_eqI)
  fix i
  assume i: "i < LENGTH('a)"
  have "i div 8 < n \<longleftrightarrow> i < 8 * n"
    by (simp add: div_less_iff_less_mult mult.commute)
  moreover have "8 * (i div 8) + i mod 8 = i"
    by simp
  ultimately show "bit (of_le (le_bytes n w) :: 'a word) i \<longleftrightarrow> bit (take_bit (8 * n) w) i"
    using i by (auto simp: bit_of_le nth_le_bytes bit_simps)
qed

lemma le_bytes_of_le [byte_simps]:
  assumes "length bs = n" and "8 * n \<le> LENGTH('a::len)"
  shows "le_bytes n (of_le bs :: 'a word) = bs"
proof (rule nth_equalityI)
  show "length (le_bytes n (of_le bs :: 'a word)) = length bs"
    using assms(1) by simp
next
  fix i
  assume "i < length (le_bytes n (of_le bs :: 'a word))"
  then have i: "i < n" by simp
  show "le_bytes n (of_le bs :: 'a word) ! i = bs ! i"
  proof (rule bit_word_eqI)
    fix j
    assume j: "j < LENGTH(8)"
    from i assms(2) j have "8 * i + j < LENGTH('a)" by simp
    moreover from j have "(8 * i + j) div 8 = i" and "(8 * i + j) mod 8 = j" by simp_all
    ultimately show "bit (le_bytes n (of_le bs :: 'a word) ! i) j \<longleftrightarrow> bit (bs ! i) j"
      using i j assms(1) by (simp add: nth_le_bytes bit_simps bit_of_le)
  qed
qed

lemma take_le_bytes [byte_simps]: "m \<le> n \<Longrightarrow> take m (le_bytes n w) = le_bytes m w"
  by (simp add: le_bytes_def take_map take_upt)

lemma of_le_append_zeros [byte_simps]: "of_le (bs @ replicate k 0) = of_le bs"
  by (rule bit_word_eqI) (auto simp: bit_of_le nth_append)

lemma of_le_le_bytes_full:
  "8 * n = LENGTH('a) \<Longrightarrow> of_le (le_bytes n w) = (w :: 'a::len word)"
  by (simp add: of_le_le_bytes take_bit_word_eq_self)

lemma of_le_le_bytes_widths [byte_simps, simp]:
  "of_le (le_bytes 1 (a :: 8 word)) = a"
  "of_le (le_bytes (Suc 0) (a :: 8 word)) = a"
  "of_le (le_bytes 2 (b :: 16 word)) = b"
  "of_le (le_bytes 4 (c :: 32 word)) = c"
  "of_le (le_bytes 8 (d :: 64 word)) = d"
  by (simp_all add: of_le_le_bytes_full)

section \<open>Byte-addressed memory\<close>

text \<open>
  Pointers are natural numbers; \<open>memcpy\<close> of a buffer to \<open>p\<close> stores its bytes at
  \<open>p, p + 1, \<dots>\<close>, and reading \<open>n\<close> bytes at \<open>p\<close> is \<open>mem_read\<close>.
\<close>

definition mem_write :: "memory \<Rightarrow> ptr \<Rightarrow> bytes \<Rightarrow> memory" where
  "mem_write m p bs = (\<lambda>a. if p \<le> a \<and> a < p + length bs then bs ! (a - p) else m a)"

definition mem_read :: "memory \<Rightarrow> ptr \<Rightarrow> nat \<Rightarrow> bytes" where
  "mem_read m p n = map (\<lambda>i. m (p + i)) [0..<n]"

lemma length_mem_read [mem_simps, simp]: "length (mem_read m p n) = n"
  by (simp add: mem_read_def)

lemma mem_read_write_same [mem_simps]:
  "n = length bs \<Longrightarrow> mem_read (mem_write m p bs) p n = bs"
  by (rule nth_equalityI) (auto simp: mem_read_def mem_write_def)

lemma mem_read_write_disjoint [mem_simps]:
  assumes "q + n \<le> p \<or> p + length bs \<le> q"
  shows "mem_read (mem_write m p bs) q n = mem_read m q n"
  using assms by (auto simp: mem_read_def mem_write_def)

section \<open>Decimal numerals\<close>

definition digit_char :: "nat \<Rightarrow> char" where
  "digit_char d = char_of (48 + d)"

text \<open>The conversions \<open>%u\<close> and \<open>%zu\<close> of \<open>printf\<close>.\<close>

fun dec :: "nat \<Rightarrow> string" where
  "dec n = (if n < 10 then [digit_char n] else dec (n div 10) @ [digit_char (n mod 10)])"

declare dec.simps [simp del]

lemma of_char_digit_char: "d < 10 \<Longrightarrow> (of_char (digit_char d) :: nat) = 48 + d"
  by (simp add: digit_char_def)

section \<open>Lists and maps\<close>

lemma take_drop_chunk: "take m (drop n xs) @ drop (n + m) xs = drop n xs"
  by (metis add.commute append_take_drop_id drop_drop)

lemma map_of_filter_ne: "map_of (filter (\<lambda>(k, _). k \<noteq> x) ps) y = (if y = x then None else map_of ps y)"
  by (induction ps) auto

lemma last_butlast_split: "xs \<noteq> [] \<Longrightarrow> set xs = insert (last xs) (set (butlast xs))"
  by (cases xs rule: rev_cases) auto

lemma distinct_last_butlast: "distinct xs \<Longrightarrow> xs \<noteq> [] \<Longrightarrow> last xs \<notin> set (butlast xs)"
  by (cases xs rule: rev_cases) auto

lemma distinct_filter_key:
  "distinct (map f xs) \<Longrightarrow> distinct (map f (filter P xs))"
  by (rule distinct_map_filter)

end
