(* ===== verification/Core_Types.thy ===== *)
theory Core_Types
  imports Prelude
begin

text \<open>
  The data of \<open>src/core\<close>: status codes, the packed 30-byte \<open>StorageKey\<close> with its byte
  image (the operand of \<open>memcmp\<close>, of the hash and of the checkpoint file), and the packed
  64-byte \<open>IndexEntry\<close> with its 48-bit timestamps and saturating access counter.
\<close>

section \<open>Status codes\<close>

datatype Status =
    kOk | kNotFound | kRejectedAdmission | kRejectedBackpressure | kFull | kBufferTooSmall
  | kCorruption | kIOError | kInvalidArgument | kAlreadyExists | kShutdown

fun status_code :: "Status \<Rightarrow> 8 word" where
  "status_code kOk = 0"
| "status_code kNotFound = 1"
| "status_code kRejectedAdmission = 2"
| "status_code kRejectedBackpressure = 3"
| "status_code kFull = 4"
| "status_code kBufferTooSmall = 5"
| "status_code kCorruption = 6"
| "status_code kIOError = 7"
| "status_code kInvalidArgument = 8"
| "status_code kAlreadyExists = 9"
| "status_code kShutdown = 10"

fun StatusToString :: "Status \<Rightarrow> string" where
  "StatusToString kOk = ''OK''"
| "StatusToString kNotFound = ''NOT_FOUND''"
| "StatusToString kRejectedAdmission = ''REJECTED_ADMISSION''"
| "StatusToString kRejectedBackpressure = ''REJECTED_BACKPRESSURE''"
| "StatusToString kFull = ''FULL''"
| "StatusToString kBufferTooSmall = ''BUFFER_TOO_SMALL''"
| "StatusToString kCorruption = ''CORRUPTION''"
| "StatusToString kIOError = ''IO_ERROR''"
| "StatusToString kInvalidArgument = ''INVALID_ARGUMENT''"
| "StatusToString kAlreadyExists = ''ALREADY_EXISTS''"
| "StatusToString kShutdown = ''SHUTDOWN''"

section \<open>Enumerations stored in index entries\<close>

datatype Tier = kT1Dram | kT2Nvme

fun tier_code :: "Tier \<Rightarrow> 8 word" where
  "tier_code kT1Dram = 1"
| "tier_code kT2Nvme = 2"

datatype EntryType = kConversation | kSystemPrompt | kRagContext

fun entry_type_code :: "EntryType \<Rightarrow> 8 word" where
  "entry_type_code kConversation = 0"
| "entry_type_code kSystemPrompt = 1"
| "entry_type_code kRagContext = 2"

datatype SlruSegment = kProbationary | kProtected

fun slru_segment_code :: "SlruSegment \<Rightarrow> 8 word" where
  "slru_segment_code kProbationary = 0"
| "slru_segment_code kProtected = 1"

section \<open>Storage keys\<close>

record StorageKey =
  model_id :: "64 word"
  tenant_id :: "64 word"
  chunk_hash :: "64 word"
  layer_group_id :: "16 word"
  chunk_index :: "32 word"

abbreviation (input) sizeof_StorageKey :: nat where
  "sizeof_StorageKey \<equiv> 30"

text \<open>The packed little-endian object representation, 8+8+8+2+4 bytes.\<close>

definition key_bytes :: "StorageKey \<Rightarrow> bytes" where
  "key_bytes k = le_bytes 8 (model_id k) @ le_bytes 8 (tenant_id k) @ le_bytes 8 (chunk_hash k) @
     le_bytes 2 (layer_group_id k) @ le_bytes 4 (chunk_index k)"

text \<open>\<open>memcpy\<close> of 30 bytes into a key object.\<close>

definition key_of_bytes :: "bytes \<Rightarrow> StorageKey" where
  "key_of_bytes bs = \<lparr>model_id = of_le (take 8 bs), tenant_id = of_le (take 8 (drop 8 bs)),
     chunk_hash = of_le (take 8 (drop 16 bs)), layer_group_id = of_le (take 2 (drop 24 bs)),
     chunk_index = of_le (take 4 (drop 26 bs))\<rparr>"

fun memcmp :: "bytes \<Rightarrow> bytes \<Rightarrow> int" where
  "memcmp (a # as) (b # bs) = (if a = b then memcmp as bs else if a < b then -1 else 1)"
| "memcmp _ _ = 0"

definition StorageKeyEqual :: "StorageKey \<Rightarrow> StorageKey \<Rightarrow> bool" where
  "StorageKeyEqual a b \<longleftrightarrow> memcmp (key_bytes a) (key_bytes b) = 0"

lemma length_key_bytes [byte_simps, simp]: "length (key_bytes k) = 30"
  by (simp add: key_bytes_def)

lemma key_of_bytes_key_bytes [byte_simps, simp]: "key_of_bytes (key_bytes k) = k"
  by (simp add: key_of_bytes_def key_bytes_def)

lemma key_bytes_inject [simp]: "key_bytes a = key_bytes b \<longleftrightarrow> a = b"
  using key_of_bytes_key_bytes by metis

lemma memcmp_0_iff: "length as = length bs \<Longrightarrow> memcmp as bs = 0 \<longleftrightarrow> as = bs"
  by (induction as bs rule: memcmp.induct) auto

lemma key_bytes_key_of_bytes [byte_simps]:
  assumes "length bs = 30"
  shows "key_bytes (key_of_bytes bs) = bs"
proof -
  have "take 8 bs @ take 8 (drop 8 bs) @ take 8 (drop 16 bs) @ take 2 (drop 24 bs) @
      take 4 (drop 26 bs) = bs"
    using assms take_drop_chunk [of 2 24 bs] take_drop_chunk [of 8 16 bs] take_drop_chunk [of 8 8 bs]
    by simp
  moreover have "key_bytes (key_of_bytes bs) = take 8 bs @ take 8 (drop 8 bs) @
      take 8 (drop 16 bs) @ take 2 (drop 24 bs) @ take 4 (drop 26 bs)"
    using assms by (simp add: key_of_bytes_def key_bytes_def le_bytes_of_le)
  ultimately show ?thesis by simp
qed

section \<open>Index entries\<close>

record IndexEntry =
  ie_tier :: "8 word"
  ie_address :: "64 word"
  ie_length :: "32 word"
  ie_segment_id :: "32 word"
  ie_flags :: "16 word"
  ie_recompute_cost :: "32 word"
  ie_last_access :: bytes
  ie_access_count :: "16 word"
  ie_slru_segment :: "8 word"
  ie_num_tokens :: "32 word"
  ie_created_at :: bytes
  ie_checksum :: "32 word"
  ie_reserved :: bytes

abbreviation (input) sizeof_IndexEntry :: nat where
  "sizeof_IndexEntry \<equiv> 64"

text \<open>The array members have their declared sizes.\<close>

definition entry_wf :: "IndexEntry \<Rightarrow> bool" where
  "entry_wf e \<longleftrightarrow> length (ie_last_access e) = 6 \<and> length (ie_created_at e) = 6 \<and>
     length (ie_reserved e) = 18"

text \<open>An entry after \<open>memset(&entry, 0, sizeof(entry))\<close>.\<close>

definition zero_entry :: IndexEntry where
  "zero_entry = \<lparr>ie_tier = 0, ie_address = 0, ie_length = 0, ie_segment_id = 0, ie_flags = 0,
     ie_recompute_cost = 0, ie_last_access = replicate 6 0, ie_access_count = 0,
     ie_slru_segment = 0, ie_num_tokens = 0, ie_created_at = replicate 6 0, ie_checksum = 0,
     ie_reserved = replicate 18 0\<rparr>"

definition set_last_access_us :: "64 word \<Rightarrow> IndexEntry \<Rightarrow> IndexEntry" where
  "set_last_access_us us e = e\<lparr>ie_last_access := take 6 (le_bytes 8 us)\<rparr>"

definition get_last_access_us :: "IndexEntry \<Rightarrow> 64 word" where
  "get_last_access_us e = of_le (ie_last_access e @ replicate 2 0)"

definition set_created_at_us :: "64 word \<Rightarrow> IndexEntry \<Rightarrow> IndexEntry" where
  "set_created_at_us us e = e\<lparr>ie_created_at := take 6 (le_bytes 8 us)\<rparr>"

definition get_created_at_us :: "IndexEntry \<Rightarrow> 64 word" where
  "get_created_at_us e = of_le (ie_created_at e @ replicate 2 0)"

text \<open>\<open>touch\<close> with the reading \<open>now\<close> of the steady clock; the counter saturates at 65535.\<close>

definition touch :: "64 word \<Rightarrow> IndexEntry \<Rightarrow> IndexEntry" where
  "touch now e =
     (let e = set_last_access_us now e
      in if ie_access_count e < 65535 then e\<lparr>ie_access_count := ie_access_count e + 1\<rparr> else e)"

text \<open>The packed object representation written to and read from the checkpoint file.\<close>

definition entry_bytes :: "IndexEntry \<Rightarrow> bytes" where
  "entry_bytes e = le_bytes 1 (ie_tier e) @ le_bytes 8 (ie_address e) @ le_bytes 4 (ie_length e) @
     le_bytes 4 (ie_segment_id e) @ le_bytes 2 (ie_flags e) @ le_bytes 4 (ie_recompute_cost e) @
     ie_last_access e @ le_bytes 2 (ie_access_count e) @ le_bytes 1 (ie_slru_segment e) @
     le_bytes 4 (ie_num_tokens e) @ ie_created_at e @ le_bytes 4 (ie_checksum e) @ ie_reserved e"

definition entry_of_bytes :: "bytes \<Rightarrow> IndexEntry" where
  "entry_of_bytes bs = \<lparr>ie_tier = of_le (take 1 bs), ie_address = of_le (take 8 (drop 1 bs)),
     ie_length = of_le (take 4 (drop 9 bs)), ie_segment_id = of_le (take 4 (drop 13 bs)),
     ie_flags = of_le (take 2 (drop 17 bs)), ie_recompute_cost = of_le (take 4 (drop 19 bs)),
     ie_last_access = take 6 (drop 23 bs), ie_access_count = of_le (take 2 (drop 29 bs)),
     ie_slru_segment = of_le (take 1 (drop 31 bs)), ie_num_tokens = of_le (take 4 (drop 32 bs)),
     ie_created_at = take 6 (drop 36 bs), ie_checksum = of_le (take 4 (drop 42 bs)),
     ie_reserved = take 18 (drop 46 bs)\<rparr>"

lemma entry_wf_updates [simp]:
  "entry_wf zero_entry"
  "entry_wf e \<Longrightarrow> entry_wf (set_last_access_us us e)"
  "entry_wf e \<Longrightarrow> entry_wf (set_created_at_us us e)"
  "entry_wf e \<Longrightarrow> entry_wf (touch us e)"
  by (simp_all add: entry_wf_def zero_entry_def set_last_access_us_def set_created_at_us_def
      touch_def Let_def)

lemma length_entry_bytes [byte_simps]: "entry_wf e \<Longrightarrow> length (entry_bytes e) = 64"
  by (simp add: entry_wf_def entry_bytes_def)

lemma entry_of_bytes_entry_bytes [byte_simps]: "entry_wf e \<Longrightarrow> entry_of_bytes (entry_bytes e) = e"
  by (simp add: entry_wf_def entry_of_bytes_def entry_bytes_def)

lemma entry_wf_entry_of_bytes: "length bs = 64 \<Longrightarrow> entry_wf (entry_of_bytes bs)"
  by (simp add: entry_wf_def entry_of_bytes_def)

text \<open>The fields \<open>touch\<close> leaves alone.\<close>

lemma touch_frame [simp]:
  "ie_tier (touch now e) = ie_tier e" "ie_address (touch now e) = ie_address e"
  "ie_length (touch now e) = ie_length e" "ie_segment_id (touch now e) = ie_segment_id e"
  "ie_checksum (touch now e) = ie_checksum e"
  "ie_recompute_cost (touch now e) = ie_recompute_cost e"
  "ie_created_at (touch now e) = ie_created_at e"
  by (simp_all add: touch_def set_last_access_us_def Let_def)

lemma timestamp_round_trip:
  "get_last_access_us (set_last_access_us us e) = take_bit 48 us"
  "get_created_at_us (set_created_at_us us e) = take_bit 48 us"
  by (simp_all add: get_last_access_us_def set_last_access_us_def get_created_at_us_def
      set_created_at_us_def byte_simps)

end
