(* ===== verification/Float64.thy ===== *)
theory Float64
  imports Prelude
begin

text \<open>
  The \<open>double\<close> arithmetic of the code. A finite double is a rational; every operation
  rounds its exact result to the nearest value with a 53-bit significand, ties to even
  (IEEE 754 binary64, default rounding mode). The exponent range is not bounded: the
  quantities of the program are ratios and products of 64-bit counters, far from the
  overflow and underflow thresholds. NaN and infinities have no counterpart here.
\<close>

type_synonym double = rat

section \<open>Binary exponent\<close>

function bit_length :: "int \<Rightarrow> nat" where
  "bit_length n = (if n \<le> 0 then 0 else Suc (bit_length (n div 2)))"
  by pat_completeness auto
termination
  by (relation "measure nat") auto

declare bit_length.simps [simp del]

lemma bit_length_upper: "0 < n \<Longrightarrow> n < 2 ^ bit_length n"
proof (induction n rule: bit_length.induct)
  case (1 n)
  show ?case
  proof (cases "n div 2 \<le> 0")
    case True
    with 1 have "n = 1" by auto
    then show ?thesis by (simp add: bit_length.simps)
  next
    case False
    with 1 have "n div 2 < 2 ^ bit_length (n div 2)" by simp
    then show ?thesis using 1 by (simp add: bit_length.simps [of n])
  qed
qed

lemma bit_length_lower: "0 < n \<Longrightarrow> 2 ^ bit_length n \<le> 2 * n"
proof (induction n rule: bit_length.induct)
  case (1 n)
  show ?case
  proof (cases "n div 2 \<le> 0")
    case True
    with 1 have "n = 1" by auto
    then show ?thesis by (simp add: bit_length.simps)
  next
    case False
    with 1 have "2 ^ bit_length (n div 2) \<le> 2 * (n div 2)" by simp
    then show ?thesis using 1 by (simp add: bit_length.simps [of n])
  qed
qed

text \<open>\<open>exponent x\<close> is the \<open>e\<close> with \<open>2 powi e \<le> x < 2 powi (e + 1)\<close>, for positive \<open>x\<close>.\<close>

definition exponent :: "rat \<Rightarrow> int" where
  "exponent x =
     (case quotient_of x of (p, q) \<Rightarrow>
        let k = int (bit_length p) - int (bit_length q)
        in if 2 powi k \<le> x then k else k - 1)"

lemma powi_mono: "a \<le> b \<Longrightarrow> (2 :: rat) powi a \<le> 2 powi b"
  by (simp add: power_int_increasing)

lemma powi_less_D: "(2 :: rat) powi a < 2 powi b \<Longrightarrow> a < b"
  by (meson leD leI powi_mono)

lemma powi_pos: "0 < (2 :: rat) powi a"
  by simp

lemma powi_Suc: "(2 :: rat) powi (a + 1) = 2 * 2 powi a"
  by (simp add: power_int_add)

lemma bit_length_rat_bounds:
  assumes "0 < p"
  shows "of_int p < (2 :: rat) ^ bit_length p"
    and "(2 :: rat) ^ bit_length p \<le> 2 * of_int p"
proof -
  have "of_int p < (of_int (2 ^ bit_length p) :: rat)"
    using bit_length_upper [OF assms] by (simp only: of_int_less_iff)
  then show "of_int p < (2 :: rat) ^ bit_length p" by simp
  have "(of_int (2 ^ bit_length p) :: rat) \<le> of_int (2 * p)"
    using bit_length_lower [OF assms] by (simp only: of_int_le_iff)
  then show "(2 :: rat) ^ bit_length p \<le> 2 * of_int p" by simp
qed

lemma exponent_bounds:
  assumes "0 < x"
  shows "2 powi exponent x \<le> x" and "x < 2 powi (exponent x + 1)"
proof -
  obtain p q where pq: "quotient_of x = (p, q)" by (cases "quotient_of x")
  then have q: "0 < q" and x: "x = of_int p / of_int q"
    by (auto intro: quotient_of_denom_pos quotient_of_div)
  with assms have p: "0 < p" by (simp add: zero_less_divide_iff)
  let ?a = "bit_length p" and ?b = "bit_length q"
  let ?k = "int ?a - int ?b"
  note pb = bit_length_rat_bounds [OF p] and qb = bit_length_rat_bounds [OF q]
  have kk: "(2 :: rat) powi ?k = 2 ^ ?a / 2 ^ ?b"
    by (simp add: power_int_diff)
  have "of_int p * 2 ^ ?b \<le> of_int p * (2 * of_int q :: rat)"
    using qb(2) p by (intro mult_left_mono) simp_all
  also have "\<dots> < 2 ^ ?a * (2 * of_int q)"
    using pb(1) q by (intro mult_strict_right_mono) simp_all
  finally have up: "x < 2 powi (?k + 1)"
    using q unfolding powi_Suc kk x by (simp add: field_simps)
  have "2 ^ ?a * of_int q \<le> 2 * of_int p * (of_int q :: rat)"
    using pb(2) q by (intro mult_right_mono) simp_all
  also have "\<dots> \<le> 2 * of_int p * 2 ^ ?b"
    using qb(1) p by (intro mult_left_mono) simp_all
  finally have "2 powi ?k \<le> 2 * x"
    using q unfolding kk x by (simp add: field_simps)
  then have lo: "2 powi (?k - 1) \<le> x"
    using powi_Suc [of "?k - 1"] by simp
  show "2 powi exponent x \<le> x" and "x < 2 powi (exponent x + 1)"
    using up lo by (simp_all add: exponent_def pq Let_def)
qed

lemma exponent_mono: "0 < x \<Longrightarrow> x \<le> y \<Longrightarrow> exponent x \<le> exponent y"
proof -
  assume "0 < x" and "x \<le> y"
  then have "2 powi exponent x < (2 :: rat) powi (exponent y + 1)"
    using exponent_bounds [of x] exponent_bounds [of y] by linarith
  then show ?thesis by (auto dest: powi_less_D)
qed

section \<open>Rounding\<close>

definition round_even :: "rat \<Rightarrow> int" where
  "round_even x =
     (let f = \<lfloor>x\<rfloor>; d = x - of_int f in
      if d < 1 / 2 then f else if d > 1 / 2 then f + 1
      else if even f then f else f + 1)"

definition fl_pos :: "rat \<Rightarrow> rat" where
  "fl_pos x = (let u = 2 powi (exponent x - 52) in of_int (round_even (x / u)) * u)"

definition fl :: "rat \<Rightarrow> double" where
  "fl x = (if x = 0 then 0 else if x < 0 then - fl_pos (- x) else fl_pos x)"

lemma round_even_of_int [simp]: "round_even (of_int n) = n"
  by (simp add: round_even_def)

lemma round_even_near: "of_int (round_even x) - 1 / 2 \<le> x" "x \<le> of_int (round_even x) + 1 / 2"
  unfolding round_even_def Let_def by (auto split: if_splits) linarith+

lemma round_even_floor: "round_even x = \<lfloor>x\<rfloor> \<or> round_even x = \<lfloor>x\<rfloor> + 1"
  by (simp add: round_even_def Let_def)

lemma round_even_mono:
  assumes "x \<le> y"
  shows "round_even x \<le> round_even y"
proof (cases "\<lfloor>x\<rfloor> = \<lfloor>y\<rfloor>")
  case True
  with assms show ?thesis
    by (auto simp: round_even_def Let_def)
next
  case False
  with floor_mono [OF assms] have "\<lfloor>x\<rfloor> + 1 \<le> \<lfloor>y\<rfloor>" by simp
  then show ?thesis
    using round_even_floor [of x] round_even_floor [of y] by auto
qed

lemma round_even_ge: "of_int a \<le> x \<Longrightarrow> a \<le> round_even x"
  using round_even_mono [of "of_int a" x] by simp

lemma round_even_le: "x \<le> of_int b \<Longrightarrow> round_even x \<le> b"
  using round_even_mono [of x "of_int b"] by simp

lemma fl_pos_bounds:
  assumes "0 < x"
  shows "2 powi exponent x \<le> fl_pos x" and "fl_pos x \<le> 2 powi (exponent x + 1)"
proof -
  let ?u = "(2 :: rat) powi (exponent x - 52)"
  have u: "0 < ?u" by simp
  have e0: "2 powi exponent x = of_int (2 ^ 52) * ?u"
    by (simp add: power_int_diff)
  have e1: "2 powi (exponent x + 1) = of_int (2 ^ 53) * ?u"
    by (simp add: power_int_diff power_int_add)
  have "of_int (2 ^ 52) \<le> x / ?u" and "x / ?u \<le> of_int (2 ^ 53)"
    using exponent_bounds [OF assms] unfolding e0 e1 using u
    by (simp_all only: pos_le_divide_eq pos_divide_le_eq less_imp_le)
  then have "2 ^ 52 \<le> round_even (x / ?u)" and "round_even (x / ?u) \<le> 2 ^ 53"
    by (simp_all only: round_even_ge round_even_le)
  then have "(of_int (2 ^ 52) :: rat) \<le> of_int (round_even (x / ?u))"
    and "(of_int (round_even (x / ?u)) :: rat) \<le> of_int (2 ^ 53)"
    by (simp_all only: of_int_le_iff)
  then show "2 powi exponent x \<le> fl_pos x" and "fl_pos x \<le> 2 powi (exponent x + 1)"
    unfolding fl_pos_def Let_def e0 e1
    by (auto intro!: mult_right_mono simp del: of_int_power)
qed

lemma fl_pos_mono:
  assumes "0 < x" and "x \<le> y"
  shows "fl_pos x \<le> fl_pos y"
proof (cases "exponent x = exponent y")
  case True
  have "x / 2 powi (exponent y - 52) \<le> y / 2 powi (exponent y - 52)"
    using assms(2) by (simp add: divide_right_mono)
  then have "of_int (round_even (x / 2 powi (exponent y - 52)))
      \<le> (of_int (round_even (y / 2 powi (exponent y - 52))) :: rat)"
    by (simp add: round_even_mono)
  then show ?thesis
    by (simp add: fl_pos_def True Let_def)
next
  case False
  with exponent_mono [OF assms] have "exponent x + 1 \<le> exponent y" by simp
  then have "(2 :: rat) powi (exponent x + 1) \<le> 2 powi exponent y" by (rule powi_mono)
  then show ?thesis
    using fl_pos_bounds [of x] fl_pos_bounds [of y] assms by linarith
qed

lemma fl_pos_positive: "0 < x \<Longrightarrow> 0 < fl_pos x"
  using fl_pos_bounds(1) [of x] powi_pos [of "exponent x"] by linarith

lemma fl_0 [simp]: "fl 0 = 0"
  by (simp add: fl_def)

lemma fl_nonneg: "0 \<le> x \<Longrightarrow> 0 \<le> fl x"
  by (auto simp: fl_def fl_pos_positive less_imp_le)

theorem fl_mono:
  assumes "x \<le> y"
  shows "fl x \<le> fl y"
  using assms fl_pos_positive [of y] fl_pos_positive [of "- x"]
    fl_pos_mono [of x y] fl_pos_mono [of "- y" "- x"]
  by (auto simp: fl_def)

text \<open>Values with at most 53 significant bits are not changed by rounding.\<close>

lemma fl_pos_exact:
  assumes "x / 2 powi (exponent x - 52) = of_int n"
  shows "fl_pos x = x"
proof -
  have "fl_pos x = (x / 2 powi (exponent x - 52)) * 2 powi (exponent x - 52)"
    unfolding fl_pos_def Let_def assms by simp
  then show ?thesis by simp
qed

lemma fl_pos_scaled:
  assumes "0 < m" and "m \<le> 2 ^ 53"
  shows "fl_pos (of_int m * 2 powi e) = of_int m * 2 powi e"
proof -
  let ?x = "of_int m * (2 :: rat) powi e"
  let ?E = "exponent ?x"
  have x: "0 < ?x" using assms(1) by simp
  have "(of_int m :: rat) \<le> 2 ^ 53"
    using assms(2) of_int_le_iff [of m "2 ^ 53", where 'a = rat] by simp
  then have "?x \<le> 2 ^ 53 * 2 powi e" by simp
  also have "\<dots> = 2 powi (53 + e)" by (simp add: power_int_add)
  also have "\<dots> < 2 powi (54 + e)" by (simp add: power_int_add)
  finally have E: "?E \<le> 53 + e"
    using exponent_bounds(1) [OF x] powi_less_D [of ?E "54 + e"] by force
  show ?thesis
  proof (cases "?E \<le> 52 + e")
    case True
    then have "?x / 2 powi (?E - 52) = of_int m * 2 ^ nat (e + 52 - ?E)"
      by (simp add: power_int_diff power_int_add flip: power_int_nonneg_exp)
    also have "\<dots> = of_int (m * 2 ^ nat (e + 52 - ?E))" by simp
    finally show ?thesis by (rule fl_pos_exact)
  next
    case False
    with E have E: "?E = 53 + e" by simp
    have "2 powi (53 + e) \<le> ?x" using exponent_bounds(1) [OF x] unfolding E .
    then have "(2 :: rat) ^ 53 \<le> of_int m" by (simp add: power_int_add)
    with \<open>of_int m \<le> 2 ^ 53\<close> have "(of_int m :: rat) = 2 ^ 53" by simp
    then have "?x / 2 powi (?E - 52) = of_int (2 ^ 52)"
      unfolding E by (simp add: power_int_diff power_int_add)
    then show ?thesis by (rule fl_pos_exact)
  qed
qed

lemma fl_scaled:
  assumes "0 \<le> m" and "m \<le> 2 ^ 53"
  shows "fl (of_int m * 2 powi e) = of_int m * 2 powi e"
proof (cases "m = 0")
  case False
  with assms have "0 < of_int m * (2 :: rat) powi e" by simp
  moreover from False assms have "fl_pos (of_int m * 2 powi e) = of_int m * 2 powi e"
    by (intro fl_pos_scaled) simp_all
  ultimately show ?thesis by (simp only: fl_def) simp
qed simp

lemma fl_of_nat: "n \<le> 2 ^ 53 \<Longrightarrow> fl (of_nat n) = of_nat n"
  using fl_scaled [of "int n" 0] of_nat_le_iff [of n "2 ^ 53", where 'a = int] by simp

lemma fl_1 [simp]: "fl 1 = 1"
  using fl_of_nat [of 1] by simp

lemma fl_le_1: "x \<le> 1 \<Longrightarrow> fl x \<le> 1"
  using fl_mono [of x 1] by simp

section \<open>The operations of the code\<close>

definition d_of_nat :: "nat \<Rightarrow> double" where
  "d_of_nat n = fl (of_nat n)"

definition d_sub :: "double \<Rightarrow> double \<Rightarrow> double" where
  "d_sub a b = fl (a - b)"

definition d_mult :: "double \<Rightarrow> double \<Rightarrow> double" where
  "d_mult a b = fl (a * b)"

definition d_div :: "double \<Rightarrow> double \<Rightarrow> double" where
  "d_div a b = fl (a / b)"

text \<open>
  Conversion to an unsigned integer drops the fraction. Outside the range of the target
  type the conversion has no defined value in C++; the statements that depend on it bound
  its argument.
\<close>

definition d_trunc :: "double \<Rightarrow> nat" where
  "d_trunc x = nat \<lfloor>x\<rfloor>"

lemma d_trunc_mono: "x \<le> y \<Longrightarrow> d_trunc x \<le> d_trunc y"
  by (simp add: d_trunc_def floor_mono nat_mono)

lemma d_trunc_le: "x < of_nat n + 1 \<Longrightarrow> d_trunc x \<le> n"
  unfolding d_trunc_def by linarith

lemma d_of_nat_mono: "m \<le> n \<Longrightarrow> d_of_nat m \<le> d_of_nat n"
  by (simp add: d_of_nat_def fl_mono)

lemma d_of_nat_nonneg: "0 \<le> d_of_nat n"
  by (simp add: d_of_nat_def fl_nonneg)

lemma d_of_nat_pos: "0 < n \<Longrightarrow> 0 < d_of_nat n"
  by (simp add: d_of_nat_def fl_def fl_pos_positive)

lemma d_mult_mono: "a \<le> a' \<Longrightarrow> 0 \<le> b \<Longrightarrow> d_mult a b \<le> d_mult a' b"
  by (simp add: d_mult_def fl_mono mult_right_mono)

lemma d_div_le_1: "0 \<le> a \<Longrightarrow> a \<le> b \<Longrightarrow> d_div a b \<le> 1"
  by (auto simp: d_div_def intro!: fl_le_1 simp: divide_le_eq_1)

end
