(* ===== verification/Config.thy ===== *)
theory Config
  imports Core_Types Float64
begin

text \<open>
  \<open>src/core/config.{h,cpp}\<close>: the configuration records with their defaults, the size parser
  and the YAML loader. The YAML library is a parameter: a record of the node operations the
  loader calls, each of which may throw (\<open>None\<close>).
\<close>

section \<open>Configuration records\<close>

record DramCacheConfig =
  dc_enabled :: bool
  dc_size_bytes :: nat
  dc_size_classes :: "nat list"
  dc_hugepages :: bool
  dc_pinned_memory :: bool

record NvmeStoreConfig =
  nv_enabled :: bool
  nv_paths :: "string list"
  nv_max_size_per_drive :: nat
  nv_segment_size :: nat
  nv_fd_pool_size :: nat
  nv_alignment :: nat
  nv_io_engine :: string
  nv_uring_queue_depth :: nat
  nv_uring_registered_buffers :: bool
  nv_gds_thread_pool_size :: nat
  nv_write_block_size_mb :: nat
  nv_write_block_pool_size :: nat
  nv_gc_enabled :: bool
  nv_gc_trigger_fragmentation :: double
  nv_gc_max_bandwidth_fraction :: double

record AdmissionConfig =
  ac_min_recompute_cost :: "32 word"
  ac_base_threshold :: "32 word"

record EvictionConfig =
  ec_policy :: string
  ec_protected_ratio :: double

record CheckpointConfig =
  cc_interval_s :: nat

record LoggingConfig =
  lc_level :: string
  lc_format :: string
  lc_periodic_summary_interval_s :: nat

record Config =
  cfg_mode :: string
  cfg_dram_cache :: DramCacheConfig
  cfg_nvme_store :: NvmeStoreConfig
  cfg_admission :: AdmissionConfig
  cfg_eviction :: EvictionConfig
  cfg_checkpoint :: CheckpointConfig
  cfg_logging :: LoggingConfig
  cfg_get_timeout_ms :: nat

definition default_dram_cache :: DramCacheConfig where
  "default_dram_cache = \<lparr>dc_enabled = True, dc_size_bytes = 16 * 1024 * 1024 * 1024,
     dc_size_classes = [65536, 131072, 262144, 524288, 1048576, 2097152, 4194304],
     dc_hugepages = True, dc_pinned_memory = False\<rparr>"

definition default_nvme_store :: NvmeStoreConfig where
  "default_nvme_store = \<lparr>nv_enabled = True, nv_paths = [''/mnt/nvme0/attentiondb''],
     nv_max_size_per_drive = 1 * 1024 * 1024 * 1024 * 1024, nv_segment_size = 1 * 1024 * 1024 * 1024,
     nv_fd_pool_size = 256, nv_alignment = 4096, nv_io_engine = ''io_uring'',
     nv_uring_queue_depth = 128, nv_uring_registered_buffers = True, nv_gds_thread_pool_size = 4,
     nv_write_block_size_mb = 8, nv_write_block_pool_size = 8, nv_gc_enabled = True,
     nv_gc_trigger_fragmentation = fl (5 / 10), nv_gc_max_bandwidth_fraction = fl (2 / 10)\<rparr>"

definition Default :: Config where
  "Default = \<lparr>cfg_mode = ''local_only'', cfg_dram_cache = default_dram_cache,
     cfg_nvme_store = default_nvme_store,
     cfg_admission = \<lparr>ac_min_recompute_cost = 64, ac_base_threshold = 100\<rparr>,
     cfg_eviction = \<lparr>ec_policy = ''cw_slru'', ec_protected_ratio = fl (25 / 100)\<rparr>,
     cfg_checkpoint = \<lparr>cc_interval_s = 30\<rparr>,
     cfg_logging = \<lparr>lc_level = ''info'', lc_format = ''json'', lc_periodic_summary_interval_s = 60\<rparr>,
     cfg_get_timeout_ms = 5\<rparr>"

section \<open>Sizes\<close>

definition digit_val :: "char \<Rightarrow> nat" where
  "digit_val c = of_char c - 48"

definition is_digit :: "char \<Rightarrow> bool" where
  "is_digit c \<longleftrightarrow> 48 \<le> (of_char c :: nat) \<and> (of_char c :: nat) \<le> 57"

text \<open>The digit loop: the value so far and the rest of the string, \<open>None\<close> on the overflow exit.\<close>

fun parse_digits :: "nat \<Rightarrow> string \<Rightarrow> (nat \<times> string) option" where
  "parse_digits val [] = Some (val, [])"
| "parse_digits val (c # s) =
     (if is_digit c then
        let next = wrap64 (wrap64 (val * 10) + digit_val c)
        in if next < val then None else parse_digits next s
      else Some (val, c # s))"

definition size_multiplier :: "string \<Rightarrow> nat" where
  "size_multiplier suffix =
     (if suffix = ''KB'' \<or> suffix = ''kb'' then 1024
      else if suffix = ''MB'' \<or> suffix = ''mb'' then 1024 * 1024
      else if suffix = ''GB'' \<or> suffix = ''gb'' then 1024 * 1024 * 1024
      else if suffix = ''TB'' \<or> suffix = ''tb'' then 1024 * 1024 * 1024 * 1024
      else 1)"

definition ParseSize :: "string \<Rightarrow> nat" where
  "ParseSize s =
     (case parse_digits 0 s of
        None \<Rightarrow> SIZE_MAX
      | Some (val, suffix) \<Rightarrow>
          if val > SIZE_MAX div size_multiplier suffix then SIZE_MAX
          else wrap64 (val * size_multiplier suffix))"

section \<open>The YAML loader\<close>

record 'n yaml =
  y_load :: "string \<Rightarrow> 'n option"
  y_get :: "'n \<Rightarrow> string \<Rightarrow> 'n option option"
  y_string :: "'n \<Rightarrow> string option"
  y_bool :: "'n \<Rightarrow> bool option"
  y_size :: "'n \<Rightarrow> nat option"
  y_u32 :: "'n \<Rightarrow> nat option"
  y_double :: "'n \<Rightarrow> double option"
  y_items :: "'n \<Rightarrow> 'n list"

text \<open>\<open>if (n[key]) f(cfg) = n[key].as<T>();\<close>\<close>

definition opt_field :: "'n yaml \<Rightarrow> 'n \<Rightarrow> string \<Rightarrow> ('n \<Rightarrow> 'v option) \<Rightarrow> ('v \<Rightarrow> 'c \<Rightarrow> 'c) \<Rightarrow>
    'c \<Rightarrow> 'c option" where
  "opt_field Y n key conv upd cfg =
     (case y_get Y n key of
        None \<Rightarrow> None
      | Some None \<Rightarrow> Some cfg
      | Some (Some v) \<Rightarrow> (case conv v of None \<Rightarrow> None | Some x \<Rightarrow> Some (upd x cfg)))"

text \<open>\<open>if (auto sec = n[key]) { body }\<close>\<close>

definition opt_section :: "'n yaml \<Rightarrow> 'n \<Rightarrow> string \<Rightarrow> ('n \<Rightarrow> 'c \<Rightarrow> 'c option) \<Rightarrow> 'c \<Rightarrow> 'c option" where
  "opt_section Y n key body cfg =
     (case y_get Y n key of
        None \<Rightarrow> None
      | Some None \<Rightarrow> Some cfg
      | Some (Some sec) \<Rightarrow> body sec cfg)"

fun seq_items :: "('n \<Rightarrow> 'v option) \<Rightarrow> 'n list \<Rightarrow> 'v list option" where
  "seq_items conv [] = Some []"
| "seq_items conv (n # ns) =
     (case conv n of None \<Rightarrow> None
      | Some x \<Rightarrow> (case seq_items conv ns of None \<Rightarrow> None | Some xs \<Rightarrow> Some (x # xs)))"

abbreviation (input) upd_dram :: "(DramCacheConfig \<Rightarrow> DramCacheConfig) \<Rightarrow> Config \<Rightarrow> Config" where
  "upd_dram f cfg \<equiv> cfg\<lparr>cfg_dram_cache := f (cfg_dram_cache cfg)\<rparr>"

abbreviation (input) upd_nvme :: "(NvmeStoreConfig \<Rightarrow> NvmeStoreConfig) \<Rightarrow> Config \<Rightarrow> Config" where
  "upd_nvme f cfg \<equiv> cfg\<lparr>cfg_nvme_store := f (cfg_nvme_store cfg)\<rparr>"

definition load_local :: "'n yaml \<Rightarrow> 'n \<Rightarrow> Config \<Rightarrow> Config option" where
  "load_local Y l cfg = do {
     cfg \<leftarrow> opt_field Y l ''t1_dram_size'' (y_string Y)
       (\<lambda>s. upd_dram (\<lambda>d. d\<lparr>dc_size_bytes := ParseSize s\<rparr>)) cfg;
     cfg \<leftarrow> opt_field Y l ''t2_nvme_path'' (y_string Y)
       (\<lambda>s. upd_nvme (\<lambda>d. d\<lparr>nv_paths := [s]\<rparr>)) cfg;
     cfg \<leftarrow> opt_field Y l ''t2_nvme_size'' (y_string Y)
       (\<lambda>s. upd_nvme (\<lambda>d. d\<lparr>nv_max_size_per_drive := ParseSize s\<rparr>)) cfg;
     cfg \<leftarrow> opt_field Y l ''t2_use_gds'' (y_bool Y)
       (\<lambda>b. upd_nvme (\<lambda>d. d\<lparr>nv_io_engine := if b then ''gds'' else nv_io_engine d\<rparr>)) cfg;
     cfg \<leftarrow> opt_field Y l ''write_block_size_mb'' (y_u32 Y)
       (\<lambda>v. upd_nvme (\<lambda>d. d\<lparr>nv_write_block_size_mb := v\<rparr>)) cfg;
     opt_field Y l ''write_block_pool_size'' (y_u32 Y)
       (\<lambda>v. upd_nvme (\<lambda>d. d\<lparr>nv_write_block_pool_size := v\<rparr>)) cfg }"

definition load_dram_cache :: "'n yaml \<Rightarrow> 'n \<Rightarrow> Config \<Rightarrow> Config option" where
  "load_dram_cache Y n cfg = do {
     cfg \<leftarrow> opt_field Y n ''enabled'' (y_bool Y) (\<lambda>b. upd_dram (\<lambda>d. d\<lparr>dc_enabled := b\<rparr>)) cfg;
     cfg \<leftarrow> opt_field Y n ''size_bytes'' (y_size Y) (\<lambda>v. upd_dram (\<lambda>d. d\<lparr>dc_size_bytes := v\<rparr>)) cfg;
     cfg \<leftarrow> opt_field Y n ''hugepages'' (y_bool Y) (\<lambda>b. upd_dram (\<lambda>d. d\<lparr>dc_hugepages := b\<rparr>)) cfg;
     cfg \<leftarrow> opt_field Y n ''pinned_memory'' (y_bool Y)
       (\<lambda>b. upd_dram (\<lambda>d. d\<lparr>dc_pinned_memory := b\<rparr>)) cfg;
     opt_field Y n ''size_classes'' (\<lambda>m. seq_items (y_size Y) (y_items Y m))
       (\<lambda>vs. upd_dram (\<lambda>d. d\<lparr>dc_size_classes := vs\<rparr>)) cfg }"

definition load_nvme_store :: "'n yaml \<Rightarrow> 'n \<Rightarrow> Config \<Rightarrow> Config option" where
  "load_nvme_store Y n cfg = do {
     cfg \<leftarrow> opt_field Y n ''enabled'' (y_bool Y) (\<lambda>b. upd_nvme (\<lambda>d. d\<lparr>nv_enabled := b\<rparr>)) cfg;
     cfg \<leftarrow> opt_field Y n ''paths'' (\<lambda>m. seq_items (y_string Y) (y_items Y m))
       (\<lambda>vs. upd_nvme (\<lambda>d. d\<lparr>nv_paths := vs\<rparr>)) cfg;
     cfg \<leftarrow> opt_field Y n ''segment_size'' (y_size Y)
       (\<lambda>v. upd_nvme (\<lambda>d. d\<lparr>nv_segment_size := v\<rparr>)) cfg;
     cfg \<leftarrow> opt_field Y n ''io_engine'' (y_string Y) (\<lambda>s. upd_nvme (\<lambda>d. d\<lparr>nv_io_engine := s\<rparr>)) cfg;
     cfg \<leftarrow> opt_field Y n ''gc_enabled'' (y_bool Y) (\<lambda>b. upd_nvme (\<lambda>d. d\<lparr>nv_gc_enabled := b\<rparr>)) cfg;
     cfg \<leftarrow> opt_field Y n ''write_block_size_mb'' (y_u32 Y)
       (\<lambda>v. upd_nvme (\<lambda>d. d\<lparr>nv_write_block_size_mb := v\<rparr>)) cfg;
     opt_field Y n ''write_block_pool_size'' (y_u32 Y)
       (\<lambda>v. upd_nvme (\<lambda>d. d\<lparr>nv_write_block_pool_size := v\<rparr>)) cfg }"

definition load_admission :: "'n yaml \<Rightarrow> 'n \<Rightarrow> Config \<Rightarrow> Config option" where
  "load_admission Y n cfg = do {
     cfg \<leftarrow> opt_field Y n ''min_recompute_cost'' (y_u32 Y)
       (\<lambda>v c. c\<lparr>cfg_admission := (cfg_admission c)\<lparr>ac_min_recompute_cost := of_nat v\<rparr>\<rparr>) cfg;
     opt_field Y n ''base_threshold'' (y_u32 Y)
       (\<lambda>v c. c\<lparr>cfg_admission := (cfg_admission c)\<lparr>ac_base_threshold := of_nat v\<rparr>\<rparr>) cfg }"

definition load_eviction :: "'n yaml \<Rightarrow> 'n \<Rightarrow> Config \<Rightarrow> Config option" where
  "load_eviction Y n cfg = do {
     cfg \<leftarrow> opt_field Y n ''policy'' (y_string Y)
       (\<lambda>s c. c\<lparr>cfg_eviction := (cfg_eviction c)\<lparr>ec_policy := s\<rparr>\<rparr>) cfg;
     opt_field Y n ''protected_ratio'' (y_double Y)
       (\<lambda>v c. c\<lparr>cfg_eviction := (cfg_eviction c)\<lparr>ec_protected_ratio := v\<rparr>\<rparr>) cfg }"

abbreviation (input) set_interval :: "nat \<Rightarrow> Config \<Rightarrow> Config" where
  "set_interval v c \<equiv> c\<lparr>cfg_checkpoint := (cfg_checkpoint c)\<lparr>cc_interval_s := v\<rparr>\<rparr>"

definition load_logging :: "'n yaml \<Rightarrow> 'n \<Rightarrow> Config \<Rightarrow> Config option" where
  "load_logging Y n cfg = do {
     cfg \<leftarrow> opt_field Y n ''level'' (y_string Y)
       (\<lambda>s c. c\<lparr>cfg_logging := (cfg_logging c)\<lparr>lc_level := s\<rparr>\<rparr>) cfg;
     cfg \<leftarrow> opt_field Y n ''format'' (y_string Y)
       (\<lambda>s c. c\<lparr>cfg_logging := (cfg_logging c)\<lparr>lc_format := s\<rparr>\<rparr>) cfg;
     opt_field Y n ''periodic_summary_interval_s'' (y_u32 Y)
       (\<lambda>v c. c\<lparr>cfg_logging := (cfg_logging c)\<lparr>lc_periodic_summary_interval_s := v\<rparr>\<rparr>) cfg }"

definition load_sections :: "'n yaml \<Rightarrow> 'n \<Rightarrow> Config \<Rightarrow> Config option" where
  "load_sections Y adb cfg = do {
     cfg \<leftarrow> opt_field Y adb ''mode'' (y_string Y) (\<lambda>s c. c\<lparr>cfg_mode := s\<rparr>) cfg;
     cfg \<leftarrow> opt_section Y adb ''local'' (load_local Y) cfg;
     cfg \<leftarrow> opt_section Y adb ''dram_cache'' (load_dram_cache Y) cfg;
     cfg \<leftarrow> opt_section Y adb ''nvme_store'' (load_nvme_store Y) cfg;
     cfg \<leftarrow> opt_section Y adb ''admission'' (load_admission Y) cfg;
     cfg \<leftarrow> opt_section Y adb ''eviction'' (load_eviction Y) cfg;
     cfg \<leftarrow> opt_section Y adb ''timeouts''
       (\<lambda>n. opt_field Y n ''get_ms'' (y_u32 Y) (\<lambda>v c. c\<lparr>cfg_get_timeout_ms := v\<rparr>)) cfg;
     cfg \<leftarrow> opt_section Y adb ''checkpoint'' (\<lambda>n. opt_field Y n ''interval_s'' (y_u32 Y) set_interval) cfg;
     cfg \<leftarrow> opt_section Y adb ''index''
       (\<lambda>n. opt_field Y n ''checkpoint_interval_s'' (y_u32 Y) set_interval) cfg;
     opt_section Y adb ''logging'' (load_logging Y) cfg }"

definition LoadFromString :: "'n yaml \<Rightarrow> string \<Rightarrow> Config option" where
  "LoadFromString Y yaml_content = do {
     root \<leftarrow> y_load Y yaml_content;
     nested \<leftarrow> y_get Y root ''attentiondb'';
     load_sections Y (case nested of None \<Rightarrow> root | Some adb \<Rightarrow> adb) Default }"

text \<open>\<open>file\<close> is the content of the file at the path, \<open>None\<close> when it cannot be opened.\<close>

definition LoadFromFile :: "'n yaml \<Rightarrow> string option \<Rightarrow> Config option" where
  "LoadFromFile Y file = (case file of None \<Rightarrow> Some Default | Some content \<Rightarrow> LoadFromString Y content)"

section \<open>What the size parser computes\<close>

definition digits_value :: "nat \<Rightarrow> string \<Rightarrow> nat" where
  "digits_value = foldl (\<lambda>a c. a * 10 + digit_val c)"

lemma digits_value_simps [simp]:
  "digits_value v [] = v" "digits_value v (c # s) = digits_value (v * 10 + digit_val c) s"
  "digits_value v (s @ t) = digits_value (digits_value v s) t"
  by (simp_all add: digits_value_def)

lemma digits_value_ge: "v \<le> digits_value v s"
proof (induction s arbitrary: v)
  case (Cons c s)
  have "v \<le> v * 10 + digit_val c" by simp
  also have "\<dots> \<le> digits_value (v * 10 + digit_val c) s" by (rule Cons.IH)
  finally show ?case by simp
qed simp

lemma is_digit_digit_char [simp]: "d < 10 \<Longrightarrow> is_digit (digit_char d)"
  by (simp add: is_digit_def of_char_digit_char)

lemma digit_val_digit_char [simp]: "d < 10 \<Longrightarrow> digit_val (digit_char d) = d"
  by (simp add: digit_val_def of_char_digit_char)

lemma dec_digits: "c \<in> set (dec n) \<Longrightarrow> is_digit c"
proof (induction n rule: dec.induct)
  case (1 n)
  then show ?case by (cases "n < 10") (auto simp: dec.simps [of n])
qed

lemma digits_value_dec: "digits_value 0 (dec n) = n"
proof (induction n rule: dec.induct)
  case (1 n)
  then show ?case by (cases "n < 10") (auto simp: dec.simps [of n])
qed

text \<open>As long as the value fits in 64 bits the digit loop computes it.\<close>

lemma parse_digits_append:
  assumes "\<forall>c \<in> set ds. is_digit c" and "digits_value v ds < 2 ^ 64"
  shows "parse_digits v (ds @ rest) = parse_digits (digits_value v ds) rest"
  using assms
proof (induction ds arbitrary: v)
  case (Cons c ds)
  have le: "v * 10 + digit_val c \<le> digits_value v (c # ds)"
    using digits_value_ge [of "v * 10 + digit_val c" ds] by simp
  then have lt: "v * 10 + digit_val c < 2 ^ 64" using Cons.prems(2) by (rule le_less_trans)
  then have "v * 10 < 2 ^ 64" by linarith
  with lt have nx: "wrap64 (wrap64 (v * 10) + digit_val c) = v * 10 + digit_val c"
    by (simp only: wrap64_id)
  have "\<not> v * 10 + digit_val c < v" by simp
  then show ?case
    using Cons.prems Cons.IH [of "v * 10 + digit_val c"] by (simp add: nx Let_def)
qed simp

lemma parse_digits_stop: "rest = [] \<or> \<not> is_digit (hd rest) \<Longrightarrow> parse_digits v rest = Some (v, rest)"
  by (cases rest) auto

lemma size_multiplier_pos: "0 < size_multiplier s" and size_multiplier_less: "size_multiplier s < 2 ^ 64"
  by (simp_all add: size_multiplier_def)

lemma le_SIZE_MAX_div_iff:
  assumes "0 < m"
  shows "n \<le> SIZE_MAX div m \<longleftrightarrow> n * m < 2 ^ 64"
proof -
  have "n \<le> SIZE_MAX div m \<longleftrightarrow> n * m \<le> SIZE_MAX"
    using assms by (rule less_eq_div_iff_mult_less_eq)
  also have "\<dots> \<longleftrightarrow> n * m < 2 ^ 64"
    by simp linarith
  finally show ?thesis .
qed

text \<open>A value that was read is multiplied exactly, or the result saturates.\<close>

lemma ParseSize_scales:
  assumes "parse_digits 0 s = Some (n, suffix)"
  shows "ParseSize s = (if n * size_multiplier suffix < 2 ^ 64 then n * size_multiplier suffix else SIZE_MAX)"
proof -
  note iff = le_SIZE_MAX_div_iff [OF size_multiplier_pos, of n suffix]
  have "ParseSize s = (if n > SIZE_MAX div size_multiplier suffix then SIZE_MAX else wrap64 (n * size_multiplier suffix))"
    using assms by (simp add: ParseSize_def)
  then show ?thesis unfolding iff [symmetric] not_le [symmetric] using iff by (simp only: wrap64_id if_False if_True) (simp add: wrap64_id)
qed

text \<open>
  C39. A size written as a decimal number below \<open>2 ^ 64\<close> followed by a unit (or by nothing) is
  parsed exactly when the product fits in 64 bits, and saturates to \<open>SIZE_MAX\<close> when it does not.
\<close>

theorem ParseSize_exact_or_saturates:
  assumes "n < 2 ^ 64" and "suffix = [] \<or> \<not> is_digit (hd suffix)"
  shows "ParseSize (dec n @ suffix) =
    (if n * size_multiplier suffix < 2 ^ 64 then n * size_multiplier suffix else SIZE_MAX)"
proof (rule ParseSize_scales)
  show "parse_digits 0 (dec n @ suffix) = Some (n, suffix)"
    using parse_digits_append [of "dec n" 0 suffix] parse_digits_stop [OF assms(2)] assms(1) dec_digits
    by (simp add: digits_value_dec)
qed

theorem ParseSize_exact_or_saturates_witness:
  "ParseSize (dec 16 @ ''GB'') = 16 * 1024 * 1024 * 1024"
  using ParseSize_exact_or_saturates [of 16 "''GB''"]
  by (simp add: is_digit_def size_multiplier_def)




end
