(* ===== verification/Io_Engine.thy ===== *)
theory Io_Engine
  imports Prelude
begin

text \<open>
  \<open>src/storage/io_engine.h\<close>, \<open>posix_engine.cpp\<close> and the synchronous half of
  \<open>uring_engine.cpp\<close>: blocking reads and writes that loop over short transfers and interrupted
  calls. \<open>pread\<close> and \<open>pwrite\<close> are parameters; a loop that never ends is \<open>None\<close>.
\<close>

section \<open>System calls\<close>

abbreviation (input) EINTR :: nat where
  "EINTR \<equiv> 4"

text \<open>A call answers with an error number or with what was transferred.\<close>

record 'w os =
  os_pread :: "'w \<Rightarrow> int \<Rightarrow> nat \<Rightarrow> nat \<Rightarrow> (nat + bytes) \<times> 'w"
  os_pwrite :: "'w \<Rightarrow> int \<Rightarrow> bytes \<Rightarrow> nat \<Rightarrow> (nat + nat) \<times> 'w"

text \<open>\<open>static_cast<int>\<close> of a byte count.\<close>

definition to_int :: "nat \<Rightarrow> int" where
  "to_int n = sint (of_nat n :: 32 word)"

section \<open>The synchronous loops\<close>

text \<open>\<open>got\<close> is the prefix of the buffer filled so far (\<open>total\<close> bytes).\<close>

partial_function (option) sync_read_loop ::
    "'w os \<Rightarrow> int \<Rightarrow> nat \<Rightarrow> nat \<Rightarrow> bytes \<Rightarrow> 'w \<Rightarrow> ((int \<times> bytes) \<times> 'w) option" where
  "sync_read_loop os fd len off got w =
     (if length got < len then
        (case os_pread os w fd (len - length got) (off + length got) of
           (Inl errno, w) \<Rightarrow>
             if errno = EINTR then sync_read_loop os fd len off got w
             else Some ((- int errno, got), w)
         | (Inr bs, w) \<Rightarrow>
             if bs = [] then Some ((to_int (length got), got), w)
             else sync_read_loop os fd len off (got @ bs) w)
      else Some ((to_int (length got), got), w))"

definition posix_sync_read :: "'w os \<Rightarrow> int \<Rightarrow> nat \<Rightarrow> nat \<Rightarrow> 'w \<Rightarrow> ((int \<times> bytes) \<times> 'w) option" where
  "posix_sync_read os fd len off w = sync_read_loop os fd len off [] w"

partial_function (option) sync_write_loop ::
    "'w os \<Rightarrow> int \<Rightarrow> bytes \<Rightarrow> nat \<Rightarrow> nat \<Rightarrow> 'w \<Rightarrow> (int \<times> 'w) option" where
  "sync_write_loop os fd buf off total_written w =
     (if total_written < length buf then
        (case os_pwrite os w fd (drop total_written buf) (off + total_written) of
           (Inl errno, w) \<Rightarrow>
             if errno = EINTR then sync_write_loop os fd buf off total_written w
             else Some (- int errno, w)
         | (Inr n, w) \<Rightarrow> sync_write_loop os fd buf off (total_written + n) w)
      else Some (to_int total_written, w))"

definition posix_sync_write :: "'w os \<Rightarrow> int \<Rightarrow> bytes \<Rightarrow> nat \<Rightarrow> 'w \<Rightarrow> (int \<times> 'w) option" where
  "posix_sync_write os fd buf off w = sync_write_loop os fd buf off 0 w"

text \<open>\<open>submit_read\<close> and \<open>submit_write\<close> block as well; there is never a completion to poll.\<close>

definition posix_submit_read :: "'w os \<Rightarrow> int \<Rightarrow> nat \<Rightarrow> nat \<Rightarrow> 64 word \<Rightarrow> 'w \<Rightarrow> ((int \<times> bytes) \<times> 'w) option" where
  "posix_submit_read os fd len off user_data w = posix_sync_read os fd len off w"

definition posix_submit_write :: "'w os \<Rightarrow> int \<Rightarrow> bytes \<Rightarrow> nat \<Rightarrow> 64 word \<Rightarrow> 'w \<Rightarrow> (int \<times> 'w) option" where
  "posix_submit_write os fd buf off user_data w = posix_sync_write os fd buf off w"

definition posix_poll_completions :: "nat \<Rightarrow> (64 word \<times> int) list" where
  "posix_poll_completions max_completions = []"

section \<open>The abstract engine\<close>

text \<open>The virtual interface the blob store calls, and the engine that implements it with the loops.\<close>

record 'w IoEngine =
  sync_read :: "'w \<Rightarrow> int \<Rightarrow> nat \<Rightarrow> nat \<Rightarrow> (int \<times> bytes) \<times> 'w"
  sync_write :: "'w \<Rightarrow> int \<Rightarrow> bytes \<Rightarrow> nat \<Rightarrow> int \<times> 'w"

definition PosixEngine :: "'w os \<Rightarrow> 'w IoEngine" where
  "PosixEngine os =
     \<lparr>sync_read = (\<lambda>w fd len off. the (posix_sync_read os fd len off w)),
      sync_write = (\<lambda>w fd buf off. the (posix_sync_write os fd buf off w))\<rparr>"

section \<open>What the system calls promise\<close>

text \<open>A file after \<open>pwrite\<close> of a non-empty buffer: a gap before the offset is filled with zeros.\<close>

definition overwrite :: "bytes \<Rightarrow> nat \<Rightarrow> bytes \<Rightarrow> bytes" where
  "overwrite f off bs =
     (if bs = [] then f
      else take off f @ replicate (off - length f) 0 @ bs @ drop (off + length bs) f)"

text \<open>
  POSIX: a read returns the bytes at the offset, none only at the end of the file; a write
  of a non-empty buffer transfers at least one byte; a failed call changes nothing. A call is
  interrupted by a signal finitely often in a row: \<open>signals\<close> bounds how often.
\<close>

definition os_laws :: "'w os \<Rightarrow> ('w \<Rightarrow> int \<Rightarrow> bytes) \<Rightarrow> ('w \<Rightarrow> nat) \<Rightarrow> bool" where
  "os_laws os contents signals \<longleftrightarrow>
     (\<forall>w fd n off bs w'. os_pread os w fd n off = (Inr bs, w') \<longrightarrow>
        contents w' = contents w \<and> length bs \<le> n \<and> bs = take (length bs) (drop off (contents w fd)) \<and>
        (0 < n \<and> bs = [] \<longrightarrow> length (contents w fd) \<le> off)) \<and>
     (\<forall>w fd n off e w'. os_pread os w fd n off = (Inl e, w') \<longrightarrow>
        contents w' = contents w \<and> 0 < e \<and> (e = EINTR \<longrightarrow> signals w' < signals w)) \<and>
     (\<forall>w fd bs off k w'. bs \<noteq> [] \<longrightarrow> os_pwrite os w fd bs off = (Inr k, w') \<longrightarrow>
        0 < k \<and> k \<le> length bs \<and>
        contents w' = (contents w)(fd := overwrite (contents w fd) off (take k bs))) \<and>
     (\<forall>w fd bs off e w'. os_pwrite os w fd bs off = (Inl e, w') \<longrightarrow>
        contents w' = contents w \<and> 0 < e \<and> (e = EINTR \<longrightarrow> signals w' < signals w))"

lemma os_lawsD:
  assumes "os_laws os contents signals"
  shows "os_pread os w fd n off = (Inr bs, w') \<Longrightarrow>
      contents w' = contents w \<and> length bs \<le> n \<and> bs = take (length bs) (drop off (contents w fd)) \<and>
      (0 < n \<and> bs = [] \<longrightarrow> length (contents w fd) \<le> off)"
    and "os_pread os w fd n off = (Inl e, w') \<Longrightarrow>
      contents w' = contents w \<and> 0 < e \<and> (e = EINTR \<longrightarrow> signals w' < signals w)"
    and "bs \<noteq> [] \<Longrightarrow> os_pwrite os w fd bs off = (Inr k, w') \<Longrightarrow>
      0 < k \<and> k \<le> length bs \<and>
      contents w' = (contents w)(fd := overwrite (contents w fd) off (take k bs))"
    and "os_pwrite os w fd bs off = (Inl e, w') \<Longrightarrow>
      contents w' = contents w \<and> 0 < e \<and> (e = EINTR \<longrightarrow> signals w' < signals w)"
proof -
  note law = assms [unfolded os_laws_def]
  note l1 = law [THEN conjunct1] and l2 = law [THEN conjunct2, THEN conjunct1]
    and l3 = law [THEN conjunct2, THEN conjunct2, THEN conjunct1]
    and l4 = law [THEN conjunct2, THEN conjunct2, THEN conjunct2]
  show "os_pread os w fd n off = (Inr bs, w') \<Longrightarrow>
      contents w' = contents w \<and> length bs \<le> n \<and> bs = take (length bs) (drop off (contents w fd)) \<and>
      (0 < n \<and> bs = [] \<longrightarrow> length (contents w fd) \<le> off)"
    by (rule l1 [THEN spec, THEN spec, THEN spec, THEN spec, THEN spec, THEN spec, THEN mp])
  show "os_pread os w fd n off = (Inl e, w') \<Longrightarrow>
      contents w' = contents w \<and> 0 < e \<and> (e = EINTR \<longrightarrow> signals w' < signals w)"
    by (rule l2 [THEN spec, THEN spec, THEN spec, THEN spec, THEN spec, THEN spec, THEN mp])
  show "bs \<noteq> [] \<Longrightarrow> os_pwrite os w fd bs off = (Inr k, w') \<Longrightarrow>
      0 < k \<and> k \<le> length bs \<and>
      contents w' = (contents w)(fd := overwrite (contents w fd) off (take k bs))"
    by (rule l3 [THEN spec, THEN spec, THEN spec, THEN spec, THEN spec, THEN spec, THEN mp, THEN mp])
  show "os_pwrite os w fd bs off = (Inl e, w') \<Longrightarrow>
      contents w' = contents w \<and> 0 < e \<and> (e = EINTR \<longrightarrow> signals w' < signals w)"
    by (rule l4 [THEN spec, THEN spec, THEN spec, THEN spec, THEN spec, THEN spec, THEN mp])
qed

text \<open>Writing a block in two adjacent parts is writing it at once.\<close>

lemma overwrite_append:
  assumes "bs \<noteq> []"
  shows "overwrite (overwrite f off bs) (off + length bs) cs = overwrite f off (bs @ cs)"
proof (cases "cs = []")
  case False
  let ?h = "take off f @ replicate (off - length f) 0"
  have len: "length ?h = off" by simp
  have "overwrite f off bs = ?h @ bs @ drop (off + length bs) f" using assms by (simp add: overwrite_def)
  then show ?thesis
    using assms False len by (simp add: overwrite_def drop_drop ac_simps)
qed (simp add: overwrite_def)

lemma length_overwrite: "bs \<noteq> [] \<Longrightarrow> length (overwrite f off bs) = max (length f) (off + length bs)"
  by (simp add: overwrite_def)

lemma read_overwrite_same:
  assumes "bs \<noteq> []"
  shows "take (length bs) (drop off (overwrite f off bs)) = bs"
  using assms by (simp add: overwrite_def)

lemma nth_overwrite:
  assumes "i < max (length f) (off + length bs)" and "bs \<noteq> []"
  shows "overwrite f off bs ! i =
    (if i < off then (if i < length f then f ! i else 0) else if i < off + length bs then bs ! (i - off) else f ! i)"
proof -
  have "min (length f) off + (off - length f) = off" by simp
  with assms show ?thesis by (auto simp: overwrite_def nth_append)
qed

section \<open>The loops return, and transfer everything\<close>

definition may_fail :: "'w os \<Rightarrow> nat \<Rightarrow> bool" where
  "may_fail os e \<longleftrightarrow> (\<exists>w fd bs off w'. os_pwrite os w fd bs off = (Inl e, w'))"

lemma sync_write_loop_result:
  assumes laws: "os_laws os contents signals" and "t \<le> length buf"
    and "t = 0 \<longrightarrow> contents w fd = f" and "0 < t \<longrightarrow> contents w fd = overwrite f off (take t buf)"
  shows "\<exists>r w' k. sync_write_loop os fd buf off t w = Some (r, w') \<and> k \<le> length buf \<and>
    contents w' = (contents w)(fd := overwrite f off (take k buf)) \<and>
    (r = to_int (length buf) \<and> k = length buf \<or> (\<exists>e. 0 < e \<and> e \<noteq> EINTR \<and> r = - int e \<and> may_fail os e))"
  using assms(2-)
proof (induction "(length buf - t, signals w)" arbitrary: t w rule: wf_induct_rule [OF wf_lex_prod [OF wf_less_than wf_less_than]])
  case (1 t w)
  have cur: "contents w fd = overwrite f off (take t buf)"
    using "1.prems" by (cases "t = 0") (simp_all add: overwrite_def)
  then have self: "contents w = (contents w)(fd := overwrite f off (take t buf))" by auto
  show ?case
  proof (cases "t < length buf")
    case False
    then have "t = length buf" using "1.prems"(1) by simp
    then show ?thesis using self by (subst sync_write_loop.simps) auto
  next
    case True
    obtain x w' where x: "os_pwrite os w fd (drop t buf) (off + t) = (x, w')" by fastforce
    show ?thesis
    proof (cases x)
      case (Inl e)
      note l = os_lawsD(4) [OF laws x [unfolded Inl]]
      show ?thesis
      proof (cases "e = EINTR")
        case True
        have "\<exists>r w'' k. sync_write_loop os fd buf off t w' = Some (r, w'') \<and> k \<le> length buf \<and>
            contents w'' = (contents w')(fd := overwrite f off (take k buf)) \<and>
            (r = to_int (length buf) \<and> k = length buf \<or> (\<exists>e. 0 < e \<and> e \<noteq> EINTR \<and> r = - int e \<and> may_fail os e))"
          using l True "1.prems" by (intro "1.hyps") auto
        then show ?thesis using l x Inl True \<open>t < length buf\<close> by (subst sync_write_loop.simps) simp
      next
        case False
        then have "sync_write_loop os fd buf off t w = Some (- int e, w')"
          using x Inl \<open>t < length buf\<close> by (subst sync_write_loop.simps) simp
        then show ?thesis
          using l self "1.prems"(1) False x Inl
          by (intro exI [of _ "- int e"] exI [of _ w'] exI [of _ t]) (auto simp: may_fail_def)
      qed
    next
      case (Inr n)
      have ne: "drop t buf \<noteq> []" using True by simp
      note l = os_lawsD(3) [OF laws ne x [unfolded Inr]]
      have tk: "take t buf @ take n (drop t buf) = take (t + n) buf" by (simp add: take_add)
      have new: "contents w' fd = overwrite f off (take (t + n) buf)"
      proof (cases "t = 0")
        case True
        then show ?thesis using l "1.prems"(2) by simp
      next
        case False
        then have "take t buf \<noteq> []" using True by auto
        from overwrite_append [OF this, of f off "take n (drop t buf)"] show ?thesis
          using l cur True tk by simp
      qed
      have "\<exists>r w'' k. sync_write_loop os fd buf off (t + n) w' = Some (r, w'') \<and> k \<le> length buf \<and>
          contents w'' = (contents w')(fd := overwrite f off (take k buf)) \<and>
          (r = to_int (length buf) \<and> k = length buf \<or> (\<exists>e. 0 < e \<and> e \<noteq> EINTR \<and> r = - int e \<and> may_fail os e))"
        using l True new by (intro "1.hyps") auto
      then show ?thesis using l x Inr True by (subst sync_write_loop.simps) simp
    qed
  qed
qed

lemma sync_read_loop_result:
  assumes laws: "os_laws os contents signals" and "got = take (length got) (drop off (contents w fd))"
    and "length got \<le> len"
  shows "\<exists>r bs w'. sync_read_loop os fd len off got w = Some ((r, bs), w') \<and> contents w' = contents w \<and>
    (r = to_int (length bs) \<and> bs = take len (drop off (contents w fd)) \<or> (\<exists>e. 0 < e \<and> e \<noteq> EINTR \<and> r = - int e))"
  using assms(2-)
proof (induction "(len - length got, signals w)" arbitrary: got w rule: wf_induct_rule [OF wf_lex_prod [OF wf_less_than wf_less_than]])
  case (1 got w)
  show ?case
  proof (cases "length got < len")
    case False
    then have "length got = len" using "1.prems"(2) by simp
    then have "sync_read_loop os fd len off got w = Some ((to_int (length got), got), w)"
      by (subst sync_read_loop.simps) simp
    then show ?thesis using "1.prems"(1) \<open>length got = len\<close> by auto
  next
    case True
    obtain x w' where x: "os_pread os w fd (len - length got) (off + length got) = (x, w')" by fastforce
    show ?thesis
    proof (cases x)
      case (Inl e)
      note l = os_lawsD(2) [OF laws x [unfolded Inl]]
      show ?thesis
      proof (cases "e = EINTR")
        case True
        have "\<exists>r bs w''. sync_read_loop os fd len off got w' = Some ((r, bs), w'') \<and> contents w'' = contents w' \<and>
            (r = to_int (length bs) \<and> bs = take len (drop off (contents w' fd)) \<or> (\<exists>e. 0 < e \<and> e \<noteq> EINTR \<and> r = - int e))"
          using l True "1.prems" by (intro "1.hyps") auto
        then show ?thesis using l x Inl True \<open>length got < len\<close> by (subst sync_read_loop.simps) simp
      next
        case False
        then show ?thesis using l x Inl \<open>length got < len\<close> by (subst sync_read_loop.simps) auto
      qed
    next
      case (Inr bs)
      note l = os_lawsD(1) [OF laws x [unfolded Inr]]
      show ?thesis
      proof (cases "bs = []")
        case eof: True
        then have "length (contents w fd) \<le> off + length got" using l True by simp
        then have d: "length (drop off (contents w fd)) \<le> length got" by simp
        have "got = drop off (contents w fd)" using trans [OF "1.prems"(1) take_all [OF d]] .
        moreover have "take len (drop off (contents w fd)) = drop off (contents w fd)"
          using d True by (intro take_all) linarith
        ultimately have "take len (drop off (contents w fd)) = got" by (simp only:)
        moreover have "sync_read_loop os fd len off got w = Some ((to_int (length got), got), w')"
          using x Inr eof True by (subst sync_read_loop.simps) simp
        ultimately show ?thesis using l by auto
      next
        case False
        from l False have lens: "length bs \<le> len - length got" "0 < length bs" "contents w' = contents w"
          by simp_all
        have "bs = take (length bs) (drop (length got) (drop off (contents w fd)))"
          using l by (simp add: drop_drop add.commute)
        then have ext: "got @ bs = take (length (got @ bs)) (drop off (contents w' fd))"
          using "1.prems"(1) l by (metis length_append take_add)
        have "\<exists>r cs w''. sync_read_loop os fd len off (got @ bs) w' = Some ((r, cs), w'') \<and> contents w'' = contents w' \<and>
            (r = to_int (length cs) \<and> cs = take len (drop off (contents w' fd)) \<or> (\<exists>e. 0 < e \<and> e \<noteq> EINTR \<and> r = - int e))"
        proof (rule "1.hyps" [OF _ ext])
          show "((len - length (got @ bs), signals w'), len - length got, signals w) \<in> less_than <*lex*> less_than"
          proof -
            have "len - length (got @ bs) < len - length got"
              unfolding length_append using lens(2) True by linarith
            then show ?thesis by simp
          qed
        qed (use lens True in simp)
        then show ?thesis using lens(3) x Inr True False by (subst sync_read_loop.simps) simp
      qed
    qed
  qed
qed

lemma to_int_small: "n < 2 ^ 31 \<Longrightarrow> to_int n = int n"
  by (simp add: to_int_def sint_uint signed_take_bit_int_eq_self unsigned_of_nat take_bit_nat_eq_self
      uint_nat signed_of_nat)

section \<open>Properties\<close>

text \<open>
  C27. With POSIX system calls that are interrupted finitely often, the synchronous write
  returns. Either the whole buffer is in the file at the offset and the result is its length
  as an \<open>int\<close>, or the result is a negated error number other than \<open>EINTR\<close> and the file holds
  some prefix of the buffer; no other file changes. The read returns as well, with the bytes
  of the file from the offset up to the requested length or the end of the file.
\<close>

theorem sync_transfers_complete:
  assumes "os_laws os contents signals"
  shows "(\<exists>r w' k. posix_sync_write os fd buf off w = Some (r, w') \<and> k \<le> length buf \<and>
      contents w' = (contents w)(fd := overwrite (contents w fd) off (take k buf)) \<and>
      (r = to_int (length buf) \<and> k = length buf \<or> (\<exists>e. 0 < e \<and> e \<noteq> EINTR \<and> r = - int e))) \<and>
    (\<exists>r bs w'. posix_sync_read os fd len off w = Some ((r, bs), w') \<and> contents w' = contents w \<and>
      (r = to_int (length bs) \<and> bs = take len (drop off (contents w fd)) \<or> (\<exists>e. 0 < e \<and> e \<noteq> EINTR \<and> r = - int e)))"
  unfolding posix_sync_write_def posix_sync_read_def
  using sync_write_loop_result [OF assms, of 0 buf w fd "contents w fd" off]
    sync_read_loop_result [OF assms, of "[]" off w fd len] by auto

text \<open>A system that transfers at most three bytes at a time and interrupts every other call.\<close>

definition slow_os :: "((int \<Rightarrow> bytes) \<times> bool) os" where
  "slow_os =
     \<lparr>os_pread = (\<lambda>(c, sig) fd n off.
        if sig then (Inl EINTR, c, False) else (Inr (take (min n 3) (drop off (c fd))), c, True)),
      os_pwrite = (\<lambda>(c, sig) fd bs off.
        if sig then (Inl EINTR, c, False)
        else (Inr (min (length bs) 3), c(fd := overwrite (c fd) off (take 3 bs)), True))\<rparr>"

lemma slow_os_laws: "os_laws slow_os fst (\<lambda>(c, sig). if sig then 1 else 0)"
  by (auto simp: os_laws_def slow_os_def min_def overwrite_def split: if_splits)

theorem sync_transfers_complete_witness:
  "\<exists>r w' k. posix_sync_write slow_os 3 [1, 2, 3, 4, 5] 2 (\<lambda>_. [], True) = Some (r, w') \<and> k \<le> length [1, 2, 3, 4, 5 :: byte] \<and>
     fst w' = (\<lambda>_. [])(3 := overwrite [] 2 (take k [1, 2, 3, 4, 5]))"
  using sync_transfers_complete [OF slow_os_laws, of 3 "[1, 2, 3, 4, 5]" 2 "(\<lambda>_. [], True)" 0] by auto

text \<open>The cut keeps the low 32 bits, and bit 31 is the sign.\<close>

lemma to_int_negative: "to_int n < 0 \<longleftrightarrow> 2 ^ 31 \<le> n mod 2 ^ 32"
proof -
  have "to_int n < 0 \<longleftrightarrow> bit (of_nat n :: 32 word) 31"
    using bit_last_iff [of "of_nat n :: 32 word"] by (simp add: to_int_def)
  also have "\<dots> \<longleftrightarrow> bit n 31" by (simp add: bit_of_nat_iff)
  also have "\<dots> \<longleftrightarrow> odd (n div 2 ^ 31)" by (simp only: bit_iff_odd)
  also have "\<dots> \<longleftrightarrow> n div 2 ^ 31 mod 2 = 1" by (simp only: odd_iff_mod_2_eq_one)
  also have "\<dots> \<longleftrightarrow> 2 ^ 31 \<le> n mod 2 ^ 32"
  proof -
    have "n mod 2 ^ 32 = 2 ^ 31 * (n div 2 ^ 31 mod 2) + n mod 2 ^ 31"
      using mod_mult2_eq [of n "2 ^ 31" 2] by simp
    moreover have "n mod 2 ^ 31 < 2 ^ 31" by (rule mod_less_divisor) simp
    moreover have "n div 2 ^ 31 mod 2 < 2" by (rule mod_less_divisor) simp
    ultimately show ?thesis by (cases "n div 2 ^ 31 mod 2 = 1") (simp_all only: less_2_cases_iff, simp_all)
  qed
  finally show ?thesis .
qed

text \<open>
  C28. The result of a write is its length cut to a signed 32-bit integer. On a system whose
  \<open>pwrite\<close> fails only by being interrupted, the synchronous write stores the whole buffer and
  touches no other file, and what it returns is all the same negative, which the callers take
  for an error, exactly when the length modulo four gibibytes is two gibibytes or more.
\<close>

theorem sync_write_result_overflows:
  assumes "os_laws os contents signals" and "\<forall>e. may_fail os e \<longrightarrow> e = EINTR"
  shows "\<exists>r w'. posix_sync_write os fd buf off w = Some (r, w') \<and>
    contents w' = (contents w)(fd := overwrite (contents w fd) off buf) \<and>
    (r < 0 \<longleftrightarrow> 2 ^ 31 \<le> length buf mod 2 ^ 32)"
proof -
  obtain r w' k where "posix_sync_write os fd buf off w = Some (r, w')"
    and k: "contents w' = (contents w)(fd := overwrite (contents w fd) off (take k buf))"
      "r = to_int (length buf) \<and> k = length buf \<or> (\<exists>e. 0 < e \<and> e \<noteq> EINTR \<and> r = - int e \<and> may_fail os e)"
    using sync_write_loop_result [OF assms(1), of 0 buf w fd "contents w fd" off]
    by (auto simp: posix_sync_write_def)
  moreover have "r = to_int (length buf)" "k = length buf" using k(2) assms(2) by auto
  ultimately show ?thesis by (simp add: to_int_negative)
qed

theorem sync_write_result_overflows_witness:
  "\<exists>r w'. posix_sync_write slow_os 3 (replicate (2 ^ 31) 7) 0 (\<lambda>_. [], True) = Some (r, w') \<and>
     fst w' 3 = overwrite [] 0 (replicate (2 ^ 31) 7) \<and> r < 0"
proof -
  have "may_fail slow_os e \<Longrightarrow> e = EINTR" for e by (auto simp: may_fail_def slow_os_def split: if_splits)
  then have "\<forall>e. may_fail slow_os e \<longrightarrow> e = EINTR" by blast
  from sync_write_result_overflows [OF slow_os_laws this, of 3 "replicate (2 ^ 31) 7" 0 "(\<lambda>_. [], True)"]
  obtain r w' where "posix_sync_write slow_os 3 (replicate (2 ^ 31) 7) 0 (\<lambda>_. [], True) = Some (r, w')"
    "fst w' = (\<lambda>_. [])(3 := overwrite [] 0 (replicate (2 ^ 31) 7))"
    "r < 0 \<longleftrightarrow> (2 ^ 31 :: nat) \<le> 2 ^ 31 mod 2 ^ 32"
    unfolding length_replicate fst_conv by blast
  moreover have "(2 ^ 31 :: nat) \<le> 2 ^ 31 mod 2 ^ 32" by simp
  ultimately show ?thesis by (metis fun_upd_same)
qed

end
