(* ===== verification/Segment.thy ===== *)
theory Segment
  imports Core_Types
begin

text \<open>
  \<open>src/storage/segment.h\<close>: the on-disk layout of the T2 segment files, the alignment
  arithmetic and the packed headers.
\<close>

abbreviation (input) kSegmentMagic :: "32 word" where
  "kSegmentMagic \<equiv> 0x41444253"

abbreviation (input) kSegmentVersion :: "32 word" where
  "kSegmentVersion \<equiv> 1"

abbreviation (input) kSegmentHeaderSize :: nat where
  "kSegmentHeaderSize \<equiv> 4096"

abbreviation (input) kEntryHeaderSize :: nat where
  "kEntryHeaderSize \<equiv> 64"

abbreviation (input) kAlignment :: nat where
  "kAlignment \<equiv> 4096"

section \<open>Alignment\<close>

definition align_up :: "nat \<Rightarrow> nat \<Rightarrow> nat" where
  "align_up val alignment =
     unat ((of_nat val + of_nat alignment - 1) AND NOT (of_nat alignment - 1) :: 64 word)"

definition entry_disk_size :: "nat \<Rightarrow> nat" where
  "entry_disk_size blob_size =
     (let raw = wrap64 (kEntryHeaderSize + blob_size)
      in if raw < blob_size then SIZE_MAX else align_up raw kAlignment)"

section \<open>Headers\<close>

record SegmentHeader =
  sh_magic :: "32 word"
  sh_version :: "32 word"
  sh_segment_id :: "32 word"
  sh_created_at :: "64 word"
  sh_entry_count :: "32 word"
  sh_live_count :: "32 word"
  sh_checksum :: "32 word"
  sh_reserved :: bytes

definition segment_header_bytes :: "SegmentHeader \<Rightarrow> bytes" where
  "segment_header_bytes h = le_bytes 4 (sh_magic h) @ le_bytes 4 (sh_version h) @ le_bytes 4 (sh_segment_id h) @
     le_bytes 8 (sh_created_at h) @ le_bytes 4 (sh_entry_count h) @ le_bytes 4 (sh_live_count h) @
     le_bytes 4 (sh_checksum h) @ sh_reserved h"

definition segment_header_of_bytes :: "bytes \<Rightarrow> SegmentHeader" where
  "segment_header_of_bytes bs =
     \<lparr>sh_magic = of_le (take 4 bs), sh_version = of_le (take 4 (drop 4 bs)),
      sh_segment_id = of_le (take 4 (drop 8 bs)), sh_created_at = of_le (take 8 (drop 12 bs)),
      sh_entry_count = of_le (take 4 (drop 20 bs)), sh_live_count = of_le (take 4 (drop 24 bs)),
      sh_checksum = of_le (take 4 (drop 28 bs)), sh_reserved = drop 32 bs\<rparr>"

record BlobEntryHeader =
  eh_key_size :: "32 word"
  eh_blob_size :: "32 word"
  eh_padded_size :: "32 word"
  eh_checksum :: "32 word"
  eh_sequence :: "64 word"
  eh_key_data :: bytes
  eh_reserved :: bytes

definition entry_header_bytes :: "BlobEntryHeader \<Rightarrow> bytes" where
  "entry_header_bytes h = le_bytes 4 (eh_key_size h) @ le_bytes 4 (eh_blob_size h) @
     le_bytes 4 (eh_padded_size h) @ le_bytes 4 (eh_checksum h) @ le_bytes 8 (eh_sequence h) @
     eh_key_data h @ eh_reserved h"

definition entry_header_of_bytes :: "bytes \<Rightarrow> BlobEntryHeader" where
  "entry_header_of_bytes bs =
     \<lparr>eh_key_size = of_le (take 4 bs), eh_blob_size = of_le (take 4 (drop 4 bs)),
      eh_padded_size = of_le (take 4 (drop 8 bs)), eh_checksum = of_le (take 4 (drop 12 bs)),
      eh_sequence = of_le (take 8 (drop 16 bs)), eh_key_data = take 30 (drop 24 bs),
      eh_reserved = take 10 (drop 54 bs)\<rparr>"

lemma length_segment_header_bytes [byte_simps]:
  "length (sh_reserved h) = 4064 \<Longrightarrow> length (segment_header_bytes h) = 4096"
  by (simp add: segment_header_bytes_def)

lemma segment_header_round_trip [byte_simps]: "segment_header_of_bytes (segment_header_bytes h) = h"
  by (simp add: segment_header_of_bytes_def segment_header_bytes_def)

lemma length_entry_header_bytes [byte_simps]:
  "length (eh_key_data h) = 30 \<Longrightarrow> length (eh_reserved h) = 10 \<Longrightarrow> length (entry_header_bytes h) = 64"
  by (simp add: entry_header_bytes_def)

lemma entry_header_round_trip [byte_simps]:
  "length (eh_key_data h) = 30 \<Longrightarrow> length (eh_reserved h) = 10 \<Longrightarrow>
     entry_header_of_bytes (entry_header_bytes h @ rest) = h"
  by (simp add: entry_header_of_bytes_def entry_header_bytes_def)

section \<open>Alignment arithmetic\<close>

lemma and_not_mask: "w AND NOT (mask k) = push_bit k (drop_bit k (w :: 'a::len word))"
  by (rule bit_word_eqI) (auto simp: bit_simps)

lemma unat_push_drop: "unat (push_bit k (drop_bit k (w :: 'a::len word))) = unat w div 2 ^ k * 2 ^ k"
proof -
  have "unat (push_bit k (drop_bit k w)) = push_bit k (drop_bit k (unat w))"
    by (rule bit_eqI) (auto simp: bit_simps dest: bit_imp_le_length)
  then show ?thesis by (simp only: push_bit_eq_mult drop_bit_eq_div)
qed

lemma align_up_4096:
  assumes "val + 4095 < 2 ^ 64"
  shows "align_up val 4096 = (val + 4095) div 4096 * 4096"
proof -
  have "(of_nat val + of_nat 4096 - 1 :: 64 word) = of_nat (val + 4095)" by simp
  moreover have "(of_nat 4096 - 1 :: 64 word) = mask 12" by (simp add: mask_eq_exp_minus_1)
  ultimately have "align_up val 4096 = unat (push_bit 12 (drop_bit 12 (of_nat (val + 4095) :: 64 word)))"
    unfolding align_up_def by (simp only: and_not_mask)
  also have "\<dots> = unat (of_nat (val + 4095) :: 64 word) div 2 ^ 12 * 2 ^ 12"
    by (rule unat_push_drop)
  also have "unat (of_nat (val + 4095) :: 64 word) = val + 4095" using assms by (rule unat_word_64)
  finally show ?thesis by simp
qed

lemma entry_disk_size_eq:
  assumes "n + 4160 \<le> 2 ^ 64"
  shows "entry_disk_size n = (n + 4159) div 4096 * 4096"
proof -
  have "64 + n < 2 ^ 64" "64 + n + 4095 < 2 ^ 64" using assms by linarith+
  then show ?thesis
    by (simp only: entry_disk_size_def Let_def wrap64_id align_up_4096) (simp add: add.commute)
qed

lemma entry_disk_size_bounds:
  assumes "n + 4160 \<le> 2 ^ 64"
  shows "64 + n \<le> entry_disk_size n" and "entry_disk_size n < n + 4160" and "4096 dvd entry_disk_size n"
proof -
  note eq = entry_disk_size_eq [OF assms]
  show "4096 dvd entry_disk_size n" unfolding eq by simp
  show "64 + n \<le> entry_disk_size n" "entry_disk_size n < n + 4160"
    unfolding eq by linarith+
qed

section \<open>Properties\<close>

text \<open>
  The space a blob takes on disk: for every size the index can hold it is a multiple of
  the 4096-byte alignment, has room for the 64-byte header and the blob, and wastes less than
  one page.
\<close>

lemma entry_disk_size_tight:
  assumes "n \<le> UINT32_MAX"
  shows "4096 dvd entry_disk_size n \<and> 64 + n \<le> entry_disk_size n \<and> entry_disk_size n < 64 + n + 4096"
proof -
  have "n + 4160 \<le> 2 ^ 64" using assms by simp
  from entry_disk_size_bounds [OF this] show ?thesis by simp
qed

lemma entry_disk_size_tight_witness: "4096 dvd entry_disk_size 5000"
  using entry_disk_size_tight [of 5000] by simp

text \<open>
  Over all of \<open>size_t\<close>: the guard catches the wrap of the addition and yields \<open>SIZE_MAX\<close>, but
  just below it the rounding itself wraps and the size of a huge blob is zero.
\<close>

lemma entry_disk_size_exact:
  assumes "n < 2 ^ 64"
  shows "entry_disk_size n =
    (if 2 ^ 64 \<le> n + 64 then SIZE_MAX else if 2 ^ 64 < n + 4160 then 0 else (n + 4159) div 4096 * 4096)"
proof -
  consider "2 ^ 64 \<le> n + 64" | "n + 64 < 2 ^ 64" "2 ^ 64 < n + 4160" | "n + 4160 \<le> 2 ^ 64" by linarith
  then show ?thesis
  proof cases
    case 1
    have "wrap64 (64 + n) = 64 + n - 2 ^ 64"
      unfolding wrap64_def using 1 assms by (simp add: le_mod_geq)
    then show ?thesis using 1 assms by (simp add: entry_disk_size_def Let_def)
  next
    case 2
    have "wrap64 (64 + n) = 64 + n" using 2 by (intro wrap64_id) simp
    moreover have "align_up (64 + n) 4096 = 0"
    proof -
      let ?v = "64 + n + 4095 - 2 ^ 64"
      have zero: "(of_nat (2 ^ 64) :: 64 word) = 0" by simp
      have "(of_nat (64 + n) + of_nat 4096 - 1 :: 64 word) = of_nat (64 + n + 4095)" by simp
      also have "64 + n + 4095 = ?v + 2 ^ 64" using 2 by simp
      also have "(of_nat (?v + 2 ^ 64) :: 64 word) = of_nat ?v"
        using zero by (simp only: of_nat_add add_0_right)
      finally have sum: "(of_nat (64 + n) + of_nat 4096 - 1 :: 64 word) = of_nat ?v" .
      have "(of_nat 4096 - 1 :: 64 word) = mask 12" by (simp add: mask_eq_exp_minus_1)
      with sum have "align_up (64 + n) 4096 = unat (push_bit 12 (drop_bit 12 (of_nat ?v :: 64 word)))"
        unfolding align_up_def by (simp only: and_not_mask)
      also have "\<dots> = unat (of_nat ?v :: 64 word) div 2 ^ 12 * 2 ^ 12" by (rule unat_push_drop)
      also have "unat (of_nat ?v :: 64 word) = ?v" using 2 by (intro unat_word_64) simp
      also have "?v div 2 ^ 12 = 0" using 2 by simp
      finally show ?thesis by simp
    qed
    ultimately show ?thesis using 2 by (simp add: entry_disk_size_def)
  next
    case 3
    then show ?thesis using entry_disk_size_eq by simp
  qed
qed

end
