(* ===== verification/Blob_Store.thy ===== *)
theory Blob_Store
  imports Config Float64 Io_Engine Segment
begin

text \<open>
  \<open>src/storage/blob_store.{h,cpp}\<close>: the T2 log-structured store. Blobs are appended to an
  in-memory write block; full blocks go through a queue to a flush thread that writes them to
  the active segment file. Blocks and segments are objects named by pointers: the numbers in
  \<open>active_block\<close>, \<open>flush_queue\<close>, \<open>free_pool\<close> and \<open>flushing_block\<close> are places in \<open>all_blocks\<close>,
  those in \<open>active_segment\<close> name segments. Every operation is split where it releases the
  block mutex, so that interleavings are sequences of the pieces.
\<close>

section \<open>State\<close>

record BlobLocation =
  bl_segment_id :: nat
  bl_offset :: nat
  bl_length :: nat
  bl_disk_size :: nat

record WriteBlock =
  wb_buf :: bytes
  wb_pos :: nat
  wb_capacity :: nat
  wb_segment_id :: nat
  wb_segment_offset :: nat
  wb_entry_count :: nat
  wb_segment_fd :: int

definition reset :: "nat \<Rightarrow> nat \<Rightarrow> int \<Rightarrow> WriteBlock \<Rightarrow> WriteBlock" where
  "reset seg_id seg_off fd b =
     b\<lparr>wb_pos := 0, wb_segment_id := seg_id, wb_segment_offset := seg_off, wb_entry_count := 0,
       wb_segment_fd := fd\<rparr>"

record SegmentInfo =
  si_id :: nat
  si_fd :: int
  si_write_offset :: nat
  si_entry_count :: "32 word"
  si_live_count :: "32 word"
  si_file_size :: nat
  si_path :: string

text \<open>\<open>seg_ptrs\<close> counts the segment objects allocated so far, so that pointers are fresh.\<close>

record BlobStore =
  bs_config :: NvmeStoreConfig
  segments :: "(nat \<times> SegmentInfo) list"
  seg_ptrs :: nat
  active_segment :: "nat option"
  next_segment_id :: nat
  write_sequence :: "64 word"
  active_block :: "nat option"
  flush_queue :: "nat list"
  free_pool :: "nat list"
  all_blocks :: "WriteBlock list"
  flushing_block :: "nat option"
  flush_running :: bool
  gc_running :: bool
  total_bytes_on_disk :: "64 word"
  gc_reclaimed_bytes :: "64 word"
  gc_cycles :: "32 word"
  flush_errors :: "64 word"

definition blob_store_create :: "NvmeStoreConfig \<Rightarrow> BlobStore" where
  "blob_store_create cfg =
     \<lparr>bs_config = cfg, segments = [], seg_ptrs = 0, active_segment = None, next_segment_id = 0,
      write_sequence = 0, active_block = None, flush_queue = [], free_pool = [], all_blocks = [],
      flushing_block = None, flush_running = False, gc_running = False, total_bytes_on_disk = 0,
      gc_reclaimed_bytes = 0, gc_cycles = 0, flush_errors = 0\<rparr>"

text \<open>
  The system underneath: the engine that the constructor picked, and the calls on files that
  do not go through it. \<open>'w\<close> is the state of the system.
\<close>

record 'w store_env =
  se_io :: "'w IoEngine"
  se_open :: "'w \<Rightarrow> string \<Rightarrow> bool \<Rightarrow> bool \<Rightarrow> int \<times> 'w"
  se_close :: "'w \<Rightarrow> int \<Rightarrow> 'w"
  se_remove :: "'w \<Rightarrow> string \<Rightarrow> 'w"
  se_fstat :: "'w \<Rightarrow> int \<Rightarrow> nat option"
  se_create_directories :: "'w \<Rightarrow> string \<Rightarrow> 'w"
  se_list :: "'w \<Rightarrow> string \<Rightarrow> string list option"
  se_aligned_alloc :: "'w \<Rightarrow> nat \<Rightarrow> bool"
  se_clock :: "'w \<Rightarrow> 64 word"

text \<open>What a call does: it returns, waits for a free block, or dereferences a null pointer.\<close>

datatype write_outcome = Returned Status "BlobLocation option" | Waiting | Crashed

section \<open>Segments\<close>

definition seg_of :: "BlobStore \<Rightarrow> nat \<Rightarrow> SegmentInfo" where
  "seg_of s p = the (map_of (segments s) p)"

definition update_segment :: "nat \<Rightarrow> (SegmentInfo \<Rightarrow> SegmentInfo) \<Rightarrow> BlobStore \<Rightarrow> BlobStore" where
  "update_segment p f s = s\<lparr>segments := map (\<lambda>(q, g). if q = p then (q, f g) else (q, g)) (segments s)\<rparr>"

text \<open>The first segment with an id; the vector is searched in order.\<close>

fun find_segment :: "nat \<Rightarrow> (nat \<times> SegmentInfo) list \<Rightarrow> nat option" where
  "find_segment sid [] = None"
| "find_segment sid ((p, g) # gs) = (if si_id g = sid then Some p else find_segment sid gs)"

definition pad4 :: "string \<Rightarrow> string" where
  "pad4 ds = replicate (4 - length ds) (CHR ''0'') @ ds"

definition segment_path :: "BlobStore \<Rightarrow> nat \<Rightarrow> string" where
  "segment_path s sid = hd (nv_paths (bs_config s)) @ ''/'' @ ''segment_'' @ pad4 (dec sid) @ ''.seg''"

text \<open>On Linux: first with \<open>O_DIRECT\<close>, then without.\<close>

definition open_segment_fd :: "'w store_env \<Rightarrow> string \<Rightarrow> bool \<Rightarrow> 'w \<Rightarrow> int \<times> 'w" where
  "open_segment_fd env path create w =
     (case se_open env w path create True of (fd, w) \<Rightarrow>
        if fd < 0 then se_open env w path create False else (fd, w))"

definition write_segment_header :: "'w store_env \<Rightarrow> int \<Rightarrow> SegmentInfo \<Rightarrow> 'w \<Rightarrow> 'w" where
  "write_segment_header env fd seg w =
     (let hdr = \<lparr>sh_magic = kSegmentMagic, sh_version = kSegmentVersion, sh_segment_id = of_nat (si_id seg),
                 sh_created_at = se_clock env w, sh_entry_count = si_entry_count seg,
                 sh_live_count = si_live_count seg, sh_checksum = 0, sh_reserved = replicate 4064 0\<rparr>
      in snd (sync_write (se_io env) w fd (segment_header_bytes hdr) 0))"

definition create_new_segment :: "'w store_env \<Rightarrow> BlobStore \<times> 'w \<Rightarrow> BlobStore \<times> 'w" where
  "create_new_segment env st =
     (case st of (s, w) \<Rightarrow>
        let sid = next_segment_id s;
            s = s\<lparr>next_segment_id := wrap32 (sid + 1)\<rparr>;
            path = segment_path s sid
        in case open_segment_fd env path True w of (fd, w) \<Rightarrow>
             if fd < 0 then (s\<lparr>active_segment := None\<rparr>, w)
             else
               let seg = \<lparr>si_id = sid, si_fd = fd, si_write_offset = kSegmentHeaderSize, si_entry_count = 0,
                          si_live_count = 0, si_file_size = 0, si_path = path\<rparr>;
                   w = write_segment_header env fd seg w
               in (s\<lparr>active_segment := Some (seg_ptrs s), segments := segments s @ [(seg_ptrs s, seg)],
                     seg_ptrs := Suc (seg_ptrs s)\<rparr>, w))"

text \<open>Bookkeeping of one more entry in a segment.\<close>

definition count_entry :: "nat \<Rightarrow> nat \<Rightarrow> BlobStore \<Rightarrow> BlobStore" where
  "count_entry p disk_size s =
     (update_segment p (\<lambda>g. g\<lparr>si_write_offset := wrap64 (si_write_offset g + disk_size),
          si_entry_count := si_entry_count g + 1, si_live_count := si_live_count g + 1\<rparr>) s)
       \<lparr>total_bytes_on_disk := total_bytes_on_disk s + of_nat disk_size\<rparr>"

section \<open>Writing\<close>

text \<open>
  The bytes of an entry: header, blob and zero padding up to the disk size; \<open>reserved\<close> is
  what the buffer held in the ten reserved bytes of the header, which are not assigned.
\<close>

definition entry_image :: "StorageKey \<Rightarrow> bytes \<Rightarrow> 32 word \<Rightarrow> 64 word \<Rightarrow> nat \<Rightarrow> bytes \<Rightarrow> bytes" where
  "entry_image key data checksum sequence disk_size reserved =
     entry_header_bytes \<lparr>eh_key_size = of_nat sizeof_StorageKey, eh_blob_size = of_nat (length data),
       eh_padded_size = of_nat disk_size, eh_checksum = checksum, eh_sequence = sequence,
       eh_key_data = key_bytes key, eh_reserved = reserved\<rparr> @
     data @ replicate (disk_size - (kEntryHeaderSize + length data)) 0"

definition make_location :: "nat \<Rightarrow> nat \<Rightarrow> nat \<Rightarrow> nat \<Rightarrow> BlobLocation" where
  "make_location sid off len disk_size =
     \<lparr>bl_segment_id = sid, bl_offset = off, bl_length = wrap32 len, bl_disk_size = wrap32 disk_size\<rparr>"

text \<open>An entry that does not fit a whole block goes straight to the active segment.\<close>

definition write_direct :: "'w store_env \<Rightarrow> StorageKey \<Rightarrow> bytes \<Rightarrow> 32 word \<Rightarrow> nat \<Rightarrow> BlobStore \<times> 'w \<Rightarrow>
    write_outcome \<times> BlobStore \<times> 'w" where
  "write_direct env key data checksum disk_size st =
     (case st of (s, w) \<Rightarrow>
        let full = (case active_segment s of None \<Rightarrow> True
                    | Some p \<Rightarrow> wrap64 (si_write_offset (seg_of s p) + disk_size) > nv_segment_size (bs_config s))
        in case (if full then create_new_segment env (s, w) else (s, w)) of (s, w) \<Rightarrow>
             case active_segment s of
               None \<Rightarrow> (Crashed, s, w)
             | Some p \<Rightarrow>
                 let seg = seg_of s p;
                     off = si_write_offset seg
                 in if \<not> se_aligned_alloc env w disk_size then (Crashed, s, w)
                    else
                      let buf = entry_image key data checksum (write_sequence s) disk_size (replicate 10 0);
                          s = s\<lparr>write_sequence := write_sequence s + 1\<rparr>
                      in case sync_write (se_io env) w (si_fd seg) buf off of (ret, w) \<Rightarrow>
                           if ret < 0 then (Returned kIOError None, s, w)
                           else (Returned kOk (Some (make_location (si_id seg) off (length data) disk_size)),
                                 count_entry p disk_size s, w))"

text \<open>The append into the active block, after rotation if that was needed.\<close>

definition append_entry :: "StorageKey \<Rightarrow> bytes \<Rightarrow> 32 word \<Rightarrow> 64 word \<Rightarrow> nat \<Rightarrow> WriteBlock \<Rightarrow> WriteBlock" where
  "append_entry key data checksum sequence disk_size b =
     (let reserved = take 10 (drop (wb_pos b + 54) (wb_buf b))
      in b\<lparr>wb_buf := take (wb_pos b) (wb_buf b) @ entry_image key data checksum sequence disk_size reserved @
                      drop (wb_pos b + disk_size) (wb_buf b),
           wb_pos := wb_pos b + disk_size,
           wb_entry_count := wrap32 (wb_entry_count b + 1)\<rparr>)"

definition write_append :: "StorageKey \<Rightarrow> bytes \<Rightarrow> 32 word \<Rightarrow> nat \<Rightarrow> nat \<Rightarrow> BlobStore \<Rightarrow> write_outcome \<times> BlobStore" where
  "write_append key data checksum disk_size p s =
     (let b = all_blocks s ! p;
          loc = make_location (wb_segment_id b) (wrap64 (wb_segment_offset b + wb_pos b)) (length data) disk_size;
          s = s\<lparr>all_blocks := (all_blocks s)[p := append_entry key data checksum (write_sequence s) disk_size b],
                write_sequence := write_sequence s + 1\<rparr>
      in case active_segment s of
           None \<Rightarrow> (Crashed, s)
         | Some g \<Rightarrow> (Returned kOk (Some loc), count_entry g disk_size s))"

text \<open>
  \<open>acquire_block\<close> and what follows it in \<open>write\<close>. While it waits, the mutex is released and
  \<open>active_block\<close> still names the block that was rotated out.
\<close>

definition write_acquire :: "'w store_env \<Rightarrow> StorageKey \<Rightarrow> bytes \<Rightarrow> 32 word \<Rightarrow> nat \<Rightarrow> BlobStore \<times> 'w \<Rightarrow>
    write_outcome \<times> BlobStore \<times> 'w" where
  "write_acquire env key data checksum disk_size st =
     (case st of (s, w) \<Rightarrow>
        if free_pool s = [] then
          (if \<not> flush_running s then (Returned kIOError None, s\<lparr>active_block := None\<rparr>, w)
           else (Waiting, s, w))
        else
          let p = last (free_pool s);
              s = s\<lparr>free_pool := butlast (free_pool s), active_block := Some p\<rparr>;
              full = (case active_segment s of None \<Rightarrow> True
                      | Some g \<Rightarrow> wrap64 (si_write_offset (seg_of s g) + wb_capacity (all_blocks s ! p))
                                   > nv_segment_size (bs_config s))
          in case (if full then create_new_segment env (s, w) else (s, w)) of (s, w) \<Rightarrow>
               case active_segment s of
                 None \<Rightarrow> (Returned kIOError None, s, w)
               | Some g \<Rightarrow>
                   let seg = seg_of s g
                   in if si_fd seg < 0 then (Returned kIOError None, s, w)
                      else
                        let s = s\<lparr>all_blocks := (all_blocks s)[p := reset (si_id seg) (si_write_offset seg)
                                    (si_fd seg) (all_blocks s ! p)]\<rparr>
                        in case write_append key data checksum disk_size p s of (r, s) \<Rightarrow> (r, s, w))"

definition blob_write :: "'w store_env \<Rightarrow> StorageKey \<Rightarrow> bytes \<Rightarrow> 32 word \<Rightarrow> BlobStore \<times> 'w \<Rightarrow>
    write_outcome \<times> BlobStore \<times> 'w" where
  "blob_write env key data checksum st =
     (case st of (s, w) \<Rightarrow>
        if length data > UINT32_MAX - kEntryHeaderSize then (Returned kInvalidArgument None, s, w)
        else
          let disk_size = entry_disk_size (length data)
          in case active_block s of
               None \<Rightarrow> (Returned kIOError None, s, w)
             | Some p \<Rightarrow>
                 let b = all_blocks s ! p
                 in if disk_size > wb_capacity b then write_direct env key data checksum disk_size (s, w)
                    else if wb_pos b + disk_size > wb_capacity b then
                      write_acquire env key data checksum disk_size
                        (if wb_pos b > 0 then s\<lparr>flush_queue := flush_queue s @ [p]\<rparr>
                         else s\<lparr>free_pool := free_pool s @ [p]\<rparr>, w)
                    else (case write_append key data checksum disk_size p s of (r, s) \<Rightarrow> (r, s, w)))"

section \<open>The flush thread\<close>

text \<open>One turn is two steps: taking a block under the mutex, and writing it and giving it back.\<close>

definition flush_take :: "BlobStore \<Rightarrow> BlobStore" where
  "flush_take s =
     (case flush_queue s of
        [] \<Rightarrow> s
      | p # q \<Rightarrow>
          let s = s\<lparr>flush_queue := q\<rparr>
          in if wb_pos (all_blocks s ! p) = 0 then s\<lparr>free_pool := free_pool s @ [p]\<rparr>
             else s\<lparr>flushing_block := Some p\<rparr>)"

definition flush_write :: "'w store_env \<Rightarrow> BlobStore \<times> 'w \<Rightarrow> BlobStore \<times> 'w" where
  "flush_write env st =
     (case st of (s, w) \<Rightarrow>
        case flushing_block s of
          None \<Rightarrow> (s, w)
        | Some p \<Rightarrow>
            let b = all_blocks s ! p;
                write_size = align_up (wb_pos b) kAlignment
            in case sync_write (se_io env) w (wb_segment_fd b) (take write_size (wb_buf b)) (wb_segment_offset b) of
                 (ret, w) \<Rightarrow>
                   let s = (if ret < 0 \<or> nat ret \<noteq> write_size
                            then s\<lparr>flush_errors := flush_errors s + 1\<rparr> else s)
                   in (s\<lparr>flushing_block := None, free_pool := free_pool s @ [p]\<rparr>, w))"

text \<open>The last part of the thread: what is still queued is written at shutdown.\<close>

fun drain_blocks :: "'w store_env \<Rightarrow> WriteBlock list \<Rightarrow> nat list \<Rightarrow> 'w \<Rightarrow> 'w" where
  "drain_blocks env blocks [] w = w"
| "drain_blocks env blocks (p # q) w =
     (let b = blocks ! p
      in drain_blocks env blocks q
           (if wb_pos b > 0 then
              snd (sync_write (se_io env) w (wb_segment_fd b)
                     (take (align_up (wb_pos b) kAlignment) (wb_buf b)) (wb_segment_offset b))
            else w))"

section \<open>Reading\<close>

definition in_block :: "BlobLocation \<Rightarrow> WriteBlock \<Rightarrow> bool" where
  "in_block loc b \<longleftrightarrow> wb_segment_id b = bl_segment_id loc \<and> wb_segment_offset b \<le> bl_offset loc \<and>
     bl_offset loc < wrap64 (wb_segment_offset b + wb_pos b)"

text \<open>The active block is looked at first, then the one being flushed, then the queue.\<close>

definition pending_blocks :: "BlobStore \<Rightarrow> nat list" where
  "pending_blocks s =
     (case active_block s of None \<Rightarrow> [] | Some p \<Rightarrow> [p]) @
     (case flushing_block s of None \<Rightarrow> [] | Some p \<Rightarrow> [p]) @ flush_queue s"

fun find_block :: "BlobLocation \<Rightarrow> WriteBlock list \<Rightarrow> nat list \<Rightarrow> bytes option" where
  "find_block loc blocks [] = None"
| "find_block loc blocks (p # ps) =
     (if in_block loc (blocks ! p)
      then Some (drop (bl_offset loc - wb_segment_offset (blocks ! p)) (wb_buf (blocks ! p)))
      else find_block loc blocks ps)"

definition find_in_pending_blocks :: "BlobStore \<Rightarrow> BlobLocation \<Rightarrow> bytes option" where
  "find_in_pending_blocks s loc = find_block loc (all_blocks s) (pending_blocks s)"

text \<open>
  One attempt of \<open>read\<close>: \<open>Inl\<close> asks for a retry. The state seen under the block mutex is \<open>s\<close>,
  the one seen afterwards, with the disk, is \<open>(s', w)\<close>.
\<close>

definition read_attempt :: "'w store_env \<Rightarrow> BlobLocation \<Rightarrow> nat \<Rightarrow> bool \<Rightarrow> BlobStore \<Rightarrow> BlobStore \<times> 'w \<Rightarrow>
    (unit + Status \<times> bytes) \<times> 'w" where
  "read_attempt env loc buf_len first s st =
     (case st of (s', w) \<Rightarrow>
        case find_in_pending_blocks s loc of
          Some pending \<Rightarrow>
            let n = unat (eh_blob_size (entry_header_of_bytes pending))
            in if n > buf_len then (Inr (kBufferTooSmall, []), w)
               else (Inr (kOk, take n (drop kEntryHeaderSize pending)), w)
        | None \<Rightarrow>
            let fd = (case find_segment (bl_segment_id loc) (segments s') of None \<Rightarrow> -1 | Some p \<Rightarrow> si_fd (seg_of s' p))
            in if fd < 0 then (Inr (kNotFound, []), w)
               else if \<not> se_aligned_alloc env w (bl_disk_size loc) then (Inr (kIOError, []), w)
               else
                 case sync_read (se_io env) w fd (bl_disk_size loc) (bl_offset loc) of ((ret, got), w) \<Rightarrow>
                   if ret < to_int (bl_disk_size loc)
                   then (if first then Inl () else Inr (kNotFound, []), w)
                   else
                     let buf = got @ replicate (bl_disk_size loc - length got) 0;
                         n = unat (eh_blob_size (entry_header_of_bytes buf))
                     in if n = 0 \<and> first then (Inl (), w)
                        else if n > buf_len then (Inr (kBufferTooSmall, []), w)
                        else if n = 0 then (Inr (kNotFound, []), w)
                        else (Inr (kOk, take n (drop kEntryHeaderSize buf)), w))"

text \<open>The two attempts, against one state of the store.\<close>

definition blob_read :: "'w store_env \<Rightarrow> BlobLocation \<Rightarrow> nat \<Rightarrow> BlobStore \<times> 'w \<Rightarrow> (Status \<times> bytes) \<times> 'w" where
  "blob_read env loc buf_len st =
     (case read_attempt env loc buf_len True (fst st) st of
        (Inr r, w) \<Rightarrow> (r, w)
      | (Inl u, w) \<Rightarrow>
          (case read_attempt env loc buf_len False (fst st) (fst st, w) of
             (Inr r, w) \<Rightarrow> (r, w)
           | (Inl u, w) \<Rightarrow> ((kNotFound, []), w)))"

section \<open>Opening and closing\<close>

text \<open>\<open>std::stoul\<close>: white space, a sign, decimal digits; \<open>None\<close> when it throws.\<close>

definition is_space :: "char \<Rightarrow> bool" where
  "is_space c \<longleftrightarrow> c \<in> set [CHR '' '', CHR 0x09, CHR 0x0A, CHR 0x0B, CHR 0x0C, CHR 0x0D]"

definition stoul_digits :: "string \<Rightarrow> nat option" where
  "stoul_digits cs =
     (let ds = takeWhile is_digit cs
      in if ds = [] then None
         else let v = foldl (\<lambda>v c. v * 10 + digit_val c) 0 ds in if v > SIZE_MAX then None else Some v)"

definition stoul :: "string \<Rightarrow> nat option" where
  "stoul cs =
     (case dropWhile is_space cs of
        [] \<Rightarrow> None
      | c # rest \<Rightarrow>
          if c = CHR ''-'' then map_option (\<lambda>v. sub64 0 v) (stoul_digits rest)
          else if c = CHR ''+'' then stoul_digits rest
          else stoul_digits (c # rest))"

text \<open>The id in a file name \<open>segment_<id>.seg\<close>.\<close>

definition segment_file_id :: "string \<Rightarrow> nat option" where
  "segment_file_id name =
     (let n = length name - 4;
          stem = take n name
      in if length name > 4 \<and> drop n name = ''.seg'' \<and> length stem > 8 \<and> take 8 stem = ''segment_''
         then map_option wrap32 (stoul (drop 8 stem)) else None)"

text \<open>One directory entry of the scan.\<close>

definition scan_file :: "'w store_env \<Rightarrow> string \<Rightarrow> string \<Rightarrow> BlobStore \<times> 'w \<Rightarrow> BlobStore \<times> 'w" where
  "scan_file env base_path name st =
     (case st of (s, w) \<Rightarrow>
        (case segment_file_id name of
           None \<Rightarrow> (s, w)
         | Some sid \<Rightarrow>
             let s = s\<lparr>next_segment_id := max (next_segment_id s) (wrap32 (sid + 1))\<rparr>;
                 path = base_path @ ''/'' @ name
             in (case open_segment_fd env path False w of (fd, w) \<Rightarrow>
                   if fd < 0 then (s, w)
                   else
                     (case sync_read (se_io env) w fd 4096 0 of ((ret, got), w) \<Rightarrow>
                        let hdr = segment_header_of_bytes (got @ replicate (4096 - length got) 0);
                            seg = \<lparr>si_id = sid, si_fd = fd, si_write_offset = 0, si_entry_count = 0,
                                   si_live_count = 0, si_file_size = 0, si_path = path\<rparr>;
                            valid = (ret \<ge> 4096 \<and> sh_magic hdr = kSegmentMagic);
                            seg = (if valid then seg\<lparr>si_entry_count := sh_entry_count hdr,
                                                     si_live_count := sh_live_count hdr\<rparr> else seg);
                            known = (if valid then se_fstat env w fd else None);
                            seg = (case known of None \<Rightarrow> seg
                                   | Some n \<Rightarrow> seg\<lparr>si_file_size := n, si_write_offset := n\<rparr>);
                            bytes = (case known of None \<Rightarrow> 0 | Some n \<Rightarrow> of_nat n)
                        in (s\<lparr>segments := segments s @ [(seg_ptrs s, seg)], seg_ptrs := Suc (seg_ptrs s),
                              total_bytes_on_disk := total_bytes_on_disk s + bytes\<rparr>, w)))))"

fun scan_paths :: "'w store_env \<Rightarrow> string list \<Rightarrow> BlobStore \<times> 'w \<Rightarrow> bool \<times> BlobStore \<times> 'w" where
  "scan_paths env [] st = (True, st)"
| "scan_paths env (path # paths) st =
     (case se_list env (snd st) path of
        None \<Rightarrow> (False, st)
      | Some names \<Rightarrow> scan_paths env paths (fold (scan_file env path) names st))"

text \<open>The write block pool; the flag is false when an allocation fails.\<close>

fun alloc_blocks :: "'w store_env \<Rightarrow> 'w \<Rightarrow> nat \<Rightarrow> nat \<Rightarrow> BlobStore \<Rightarrow> bool \<times> BlobStore" where
  "alloc_blocks env w 0 cap s = (True, s)"
| "alloc_blocks env w (Suc n) cap s =
     (if \<not> se_aligned_alloc env w cap then (False, s)
      else
        let b = \<lparr>wb_buf = replicate cap 0, wb_pos = 0, wb_capacity = cap, wb_segment_id = 0,
                 wb_segment_offset = 0, wb_entry_count = 0, wb_segment_fd = -1\<rparr>
        in alloc_blocks env w n cap
             (s\<lparr>free_pool := free_pool s @ [length (all_blocks s)], all_blocks := all_blocks s @ [b]\<rparr>))"

text \<open>The last part of \<open>open\<close>: the first block becomes active and the threads start.\<close>

definition activate_first_block :: "nat \<Rightarrow> BlobStore \<Rightarrow> Status \<times> BlobStore" where
  "activate_first_block g s =
     (if free_pool s = [] then (kIOError, s)
      else
        let p = last (free_pool s);
            seg = seg_of s g;
            b = reset (si_id seg) (si_write_offset seg) (si_fd seg) (all_blocks s ! p)
        in (kOk, s\<lparr>free_pool := butlast (free_pool s), active_block := Some p,
                    all_blocks := (all_blocks s)[p := b], flush_running := True,
                    gc_running := nv_gc_enabled (bs_config s)\<rparr>))"

definition blob_open :: "'w store_env \<Rightarrow> BlobStore \<times> 'w \<Rightarrow> Status \<times> BlobStore \<times> 'w" where
  "blob_open env st =
     (case st of (s, w) \<Rightarrow>
        let paths = nv_paths (bs_config s)
        in if paths = [] then (kInvalidArgument, s, w)
           else
             let w = fold (\<lambda>p w. se_create_directories env w p) paths w
             in (case scan_paths env paths (s, w) of (scanned, st) \<Rightarrow>
                   if \<not> scanned then (kIOError, st)
                   else
                     (case create_new_segment env st of (s, w) \<Rightarrow>
                        (case active_segment s of
                           None \<Rightarrow> (kIOError, s, w)
                         | Some g \<Rightarrow>
                             if si_fd (seg_of s g) < 0 then (kIOError, s, w)
                             else
                               let cap = wrap64 (nv_write_block_size_mb (bs_config s) * 1024 * 1024)
                               in (case alloc_blocks env w (nv_write_block_pool_size (bs_config s)) cap s of (ok, s) \<Rightarrow>
                                     if \<not> ok then (kIOError, s, w)
                                     else (case activate_first_block g s of (status, s) \<Rightarrow> (status, s, w)))))))"

text \<open>Closing a segment: the header is rewritten with the current counts.\<close>

definition close_segment :: "'w store_env \<Rightarrow> SegmentInfo \<Rightarrow> 'w \<Rightarrow> SegmentInfo \<times> 'w" where
  "close_segment env seg w =
     (if si_fd seg \<ge> 0 then
        let w = write_segment_header env (si_fd seg) seg w
        in (seg\<lparr>si_fd := -1\<rparr>, se_close env w (si_fd seg))
      else (seg, w))"

fun close_segments :: "'w store_env \<Rightarrow> (nat \<times> SegmentInfo) list \<Rightarrow> 'w \<Rightarrow> (nat \<times> SegmentInfo) list \<times> 'w" where
  "close_segments env [] w = ([], w)"
| "close_segments env ((p, seg) # rest) w =
     (case close_segment env seg w of (seg, w) \<Rightarrow>
        (case close_segments env rest w of (gs, w) \<Rightarrow> ((p, seg) # gs, w)))"

text \<open>
  The flush thread at shutdown, joined by \<open>close\<close>: a block being written is finished, then the
  loop goes on with one turn for each queued block, and what is still queued then (nothing) is
  drained.
\<close>

fun flush_turns :: "'w store_env \<Rightarrow> nat \<Rightarrow> BlobStore \<times> 'w \<Rightarrow> BlobStore \<times> 'w" where
  "flush_turns env 0 st = st"
| "flush_turns env (Suc n) st = flush_turns env n (flush_write env (flush_take (fst st), snd st))"

definition flush_shutdown :: "'w store_env \<Rightarrow> BlobStore \<times> 'w \<Rightarrow> BlobStore \<times> 'w" where
  "flush_shutdown env st =
     (case flush_write env st of (s, w) \<Rightarrow>
        (case flush_turns env (length (flush_queue s)) (s, w) of (s, w) \<Rightarrow>
           (s\<lparr>flush_queue := []\<rparr>, drain_blocks env (all_blocks s) (flush_queue s) w)))"

definition blob_close :: "'w store_env \<Rightarrow> BlobStore \<times> 'w \<Rightarrow> BlobStore \<times> 'w" where
  "blob_close env st =
     (case st of (s, w) \<Rightarrow>
        let s = (case active_block s of
                   None \<Rightarrow> s
                 | Some p \<Rightarrow> if wb_pos (all_blocks s ! p) > 0
                             then s\<lparr>flush_queue := flush_queue s @ [p], active_block := None\<rparr> else s);
            joinable = flush_running s;
            s = s\<lparr>flush_running := False\<rparr>
        in (case (if joinable then flush_shutdown env (s, w) else (s, w)) of (s, w) \<Rightarrow>
              let s = s\<lparr>gc_running := False,
                        all_blocks := map (\<lambda>b. b\<lparr>wb_buf := []\<rparr>) (all_blocks s)\<rparr>
              in (case close_segments env (segments s) w of (gs, w) \<Rightarrow>
                    (s\<lparr>segments := gs, active_segment := None\<rparr>, w))))"

section \<open>Dead entries and garbage collection\<close>

definition mark_dead :: "BlobLocation \<Rightarrow> BlobStore \<Rightarrow> BlobStore" where
  "mark_dead loc s =
     (case find_segment (bl_segment_id loc) (segments s) of
        None \<Rightarrow> s
      | Some p \<Rightarrow> update_segment p (\<lambda>g. if si_live_count g > 0
                                         then g\<lparr>si_live_count := si_live_count g - 1\<rparr> else g) s)"

definition live_ratio :: "SegmentInfo \<Rightarrow> double" where
  "live_ratio g = d_div (d_of_nat (unat (si_live_count g))) (d_of_nat (unat (si_entry_count g)))"

definition gc_candidates :: "BlobStore \<Rightarrow> nat list" where
  "gc_candidates s =
     map (si_id \<circ> snd)
       (filter (\<lambda>(p, g). active_segment s \<noteq> Some p \<and> si_entry_count g \<noteq> 0 \<and>
                         live_ratio g < nv_gc_trigger_fragmentation (bs_config s)) (segments s))"

text \<open>
  The walk over a segment, calling the rewrite callback for each entry. The callback is given
  by the owner of the store and acts on the whole state.
\<close>

type_synonym 'w rewrite_cb = "StorageKey \<Rightarrow> bytes \<Rightarrow> 32 word \<Rightarrow> BlobStore \<times> 'w \<Rightarrow> BlobStore \<times> 'w"

function gc_walk :: "'w store_env \<Rightarrow> 'w rewrite_cb \<Rightarrow> int \<Rightarrow> nat \<Rightarrow> nat \<Rightarrow> BlobStore \<times> 'w \<Rightarrow> BlobStore \<times> 'w" where
  "gc_walk env cb fd off write_off (s, w) =
     (if off < write_off then
        (case sync_read (se_io env) w fd kEntryHeaderSize off of ((ret, got), w) \<Rightarrow>
           if ret < 64 then (s, w)
           else
             let disk_size = unat (eh_padded_size (entry_header_of_bytes got))
             in if disk_size = 0 then (s, w)
                else
                  (case sync_read (se_io env) w fd disk_size off of ((ret, full), w) \<Rightarrow>
                     if ret < to_int disk_size then (s, w)
                     else
                       let hdr = entry_header_of_bytes full
                       in gc_walk env cb fd (off + disk_size) write_off
                            (cb (key_of_bytes (eh_key_data hdr))
                                (take (unat (eh_blob_size hdr)) (drop kEntryHeaderSize full))
                                (eh_checksum hdr) (s, w))))
      else (s, w))"
  by pat_completeness auto

termination
  by (relation "measure (\<lambda>(env, cb, fd, off, write_off, st). write_off - off)") auto

definition gc_drop_segment :: "'w store_env \<Rightarrow> nat \<Rightarrow> BlobStore \<times> 'w \<Rightarrow> BlobStore \<times> 'w" where
  "gc_drop_segment env sid st =
     (case st of (s, w) \<Rightarrow>
        (case find_segment sid (segments s) of
           None \<Rightarrow> (s, w)
         | Some p \<Rightarrow>
             let seg = seg_of s p;
                 reclaimed = of_nat (si_write_offset seg);
                 s = s\<lparr>gc_reclaimed_bytes := gc_reclaimed_bytes s + reclaimed\<rparr>;
                 s = (if total_bytes_on_disk s \<ge> reclaimed
                      then s\<lparr>total_bytes_on_disk := total_bytes_on_disk s - reclaimed\<rparr> else s);
                 w = se_remove env (se_close env w (si_fd seg)) (si_path seg)
             in (s\<lparr>segments := filter (\<lambda>(q, g). q \<noteq> p) (segments s)\<rparr>, w)))"

definition gc_compact_segment :: "'w store_env \<Rightarrow> 'w rewrite_cb option \<Rightarrow> nat \<Rightarrow> BlobStore \<times> 'w \<Rightarrow> BlobStore \<times> 'w" where
  "gc_compact_segment env gc_rewrite_cb sid st =
     (case gc_rewrite_cb of
        None \<Rightarrow> st
      | Some cb \<Rightarrow>
          (case find_segment sid (filter (\<lambda>(p, g). active_segment (fst st) \<noteq> Some p) (segments (fst st))) of
             None \<Rightarrow> st
           | Some p \<Rightarrow>
               let seg = seg_of (fst st) p
               in if si_fd seg < 0 then st
                  else gc_drop_segment env sid
                         (gc_walk env cb (si_fd seg) kSegmentHeaderSize (si_write_offset seg) st)))"

definition gc_tick :: "'w store_env \<Rightarrow> 'w rewrite_cb option \<Rightarrow> BlobStore \<times> 'w \<Rightarrow> BlobStore \<times> 'w" where
  "gc_tick env cb st =
     fold (\<lambda>sid st. case gc_compact_segment env cb sid st of (s, w) \<Rightarrow> (s\<lparr>gc_cycles := gc_cycles s + 1\<rparr>, w))
       (gc_candidates (fst st)) st"

section \<open>Statistics\<close>

record BlobStats =
  st_num_segments :: "32 word"
  st_total_bytes_on_disk :: "64 word"
  st_live_bytes :: "64 word"
  st_gc_reclaimed_bytes :: "64 word"
  st_gc_cycles :: "32 word"
  st_flush_errors :: "64 word"

definition blob_stats :: "BlobStore \<Rightarrow> BlobStats" where
  "blob_stats s =
     \<lparr>st_num_segments = of_nat (length (segments s)), st_total_bytes_on_disk = total_bytes_on_disk s,
      st_live_bytes = foldl (\<lambda>t (p, g). if si_entry_count g > 0
                               then t + of_nat (d_trunc (d_mult (d_of_nat (si_write_offset g)) (live_ratio g)))
                               else t) 0 (segments s),
      st_gc_reclaimed_bytes = gc_reclaimed_bytes s, st_gc_cycles = gc_cycles s,
      st_flush_errors = flush_errors s\<rparr>"

end
