(* ===== verification/File_System.thy ===== *)
theory File_System
  imports Blob_Store
begin

text \<open>
  The file system under the blob store, as its documentation describes it when nothing fails:
  \<open>contents w\<close> gives the bytes of the files by path, \<open>opened w\<close> the path each open descriptor
  refers to. The second part shows that the names of segment files and the ids in them
  determine each other; the last part is a small file system that meets the description.
\<close>

section \<open>A file system that works\<close>

definition file_bytes :: "(string \<rightharpoonup> bytes) \<Rightarrow> string \<Rightarrow> bytes" where
  "file_bytes files path = (case files path of None \<Rightarrow> [] | Some bs \<Rightarrow> bs)"

lemma file_bytes_update [simp]:
  "file_bytes (files(path \<mapsto> bs)) path' = (if path' = path then bs else file_bytes files path')"
  by (simp add: file_bytes_def)

definition writes_reliably :: "'w store_env \<Rightarrow> ('w \<Rightarrow> string \<rightharpoonup> bytes) \<Rightarrow> ('w \<Rightarrow> int \<rightharpoonup> string) \<Rightarrow> bool" where
  "writes_reliably env contents opened \<longleftrightarrow>
     (\<forall>w fd path bs off r w'. opened w fd = Some path \<longrightarrow> sync_write (se_io env) w fd bs off = (r, w') \<longrightarrow>
        contents w' = (contents w)(path \<mapsto> overwrite (file_bytes (contents w) path) off bs) \<and> opened w' = opened w \<and>
        r = to_int (length bs))"

definition reads_reliably :: "'w store_env \<Rightarrow> ('w \<Rightarrow> string \<rightharpoonup> bytes) \<Rightarrow> ('w \<Rightarrow> int \<rightharpoonup> string) \<Rightarrow> bool" where
  "reads_reliably env contents opened \<longleftrightarrow>
     (\<forall>w fd n off r got w'. sync_read (se_io env) w fd n off = ((r, got), w') \<longrightarrow>
        contents w' = contents w \<and> opened w' = opened w \<and>
        (\<forall>path. opened w fd = Some path \<longrightarrow>
           r = to_int (length got) \<and> got = take n (drop off (file_bytes (contents w) path))))"

definition opens_reliably :: "'w store_env \<Rightarrow> ('w \<Rightarrow> string \<rightharpoonup> bytes) \<Rightarrow> ('w \<Rightarrow> int \<rightharpoonup> string) \<Rightarrow> bool" where
  "opens_reliably env contents opened \<longleftrightarrow>
     (\<forall>w path create direct fd w'. create \<or> contents w path \<noteq> None \<longrightarrow> se_open env w path create direct = (fd, w') \<longrightarrow>
        0 \<le> fd \<and> opened w fd = None \<and> opened w' = (opened w)(fd \<mapsto> path) \<and>
        contents w' = (if create then (contents w)(path \<mapsto> []) else contents w))"

text \<open>A listing names each file of the directory once; only names of segment files matter.\<close>

definition lists_reliably :: "'w store_env \<Rightarrow> ('w \<Rightarrow> string \<rightharpoonup> bytes) \<Rightarrow> bool" where
  "lists_reliably env contents \<longleftrightarrow>
     (\<forall>w dir names. se_list env w dir = Some names \<longrightarrow> distinct names \<and>
        (\<forall>n. segment_file_id n \<noteq> None \<longrightarrow>
           (n \<in> set names \<longleftrightarrow> CHR ''/'' \<notin> set n \<and> contents w (dir @ ''/'' @ n) \<noteq> None)))"

definition keeps_reliably :: "'w store_env \<Rightarrow> ('w \<Rightarrow> string \<rightharpoonup> bytes) \<Rightarrow> ('w \<Rightarrow> int \<rightharpoonup> string) \<Rightarrow> bool" where
  "keeps_reliably env contents opened \<longleftrightarrow>
     (\<forall>w dir. contents (se_create_directories env w dir) = contents w \<and> opened (se_create_directories env w dir) = opened w) \<and>
     (\<forall>w fd. contents (se_close env w fd) = contents w \<and> opened (se_close env w fd) = (opened w)(fd := None)) \<and>
     (\<forall>w fd path. opened w fd = Some path \<longrightarrow> se_fstat env w fd = Some (length (file_bytes (contents w) path))) \<and>
     (\<forall>w n. se_aligned_alloc env w n)"

definition reliable :: "'w store_env \<Rightarrow> ('w \<Rightarrow> string \<rightharpoonup> bytes) \<Rightarrow> ('w \<Rightarrow> int \<rightharpoonup> string) \<Rightarrow> bool" where
  "reliable env contents opened \<longleftrightarrow> writes_reliably env contents opened \<and> reads_reliably env contents opened \<and>
     opens_reliably env contents opened \<and> lists_reliably env contents \<and> keeps_reliably env contents opened"

lemma reliable_write:
  assumes "reliable env contents opened" and "opened w fd = Some path" and "sync_write (se_io env) w fd bs off = (r, w')"
  shows "contents w' = (contents w)(path \<mapsto> overwrite (file_bytes (contents w) path) off bs)" and "opened w' = opened w"
    and "r = to_int (length bs)"
  using assms unfolding reliable_def writes_reliably_def by blast+

lemma reliable_read:
  assumes "reliable env contents opened" and "sync_read (se_io env) w fd n off = ((r, got), w')"
  shows "contents w' = contents w" and "opened w' = opened w"
    and "opened w fd = Some path \<Longrightarrow> r = to_int (length got)"
    and "opened w fd = Some path \<Longrightarrow> got = take n (drop off (file_bytes (contents w) path))"
proof -
  have "reads_reliably env contents opened" using assms(1) by (simp add: reliable_def)
  from this [unfolded reads_reliably_def, THEN spec, THEN spec, THEN spec, THEN spec, THEN spec, THEN spec,
      THEN spec, THEN mp, OF assms(2)]
  show "contents w' = contents w" "opened w' = opened w" "opened w fd = Some path \<Longrightarrow> r = to_int (length got)"
    "opened w fd = Some path \<Longrightarrow> got = take n (drop off (file_bytes (contents w) path))" by simp_all
qed

lemma reliable_open:
  assumes "reliable env contents opened" and "open_segment_fd env path create w = (fd, w')"
    and "create \<or> contents w path \<noteq> None"
  shows "0 \<le> fd" and "opened w fd = None" and "opened w' = (opened w)(fd \<mapsto> path)"
    and "contents w' = (if create then (contents w)(path \<mapsto> []) else contents w)"
proof -
  obtain fd1 w1 where o1: "se_open env w path create True = (fd1, w1)" by fastforce
  have f1: "0 \<le> fd1 \<and> opened w fd1 = None \<and> opened w1 = (opened w)(fd1 \<mapsto> path) \<and>
      contents w1 = (if create then (contents w)(path \<mapsto> []) else contents w)"
    using assms(1,3) o1 unfolding reliable_def opens_reliably_def by blast
  then have "fd = fd1" "w' = w1" using assms(2) o1 by (simp_all add: open_segment_fd_def)
  with f1 show "0 \<le> fd" "opened w fd = None" "opened w' = (opened w)(fd \<mapsto> path)"
    "contents w' = (if create then (contents w)(path \<mapsto> []) else contents w)" by blast+
qed

lemma reliable_keeps:
  assumes "reliable env contents opened"
  shows "contents (se_create_directories env w dir) = contents w" "opened (se_create_directories env w dir) = opened w"
    and "contents (se_close env w fd) = contents w" "opened (se_close env w fd) = (opened w)(fd := None)"
    and "opened w fd = Some path \<Longrightarrow> se_fstat env w fd = Some (length (file_bytes (contents w) path))"
    and reliable_alloc: "se_aligned_alloc env w n"
  using assms by (simp_all add: reliable_def keeps_reliably_def)

lemma reliable_directories:
  assumes "reliable env contents opened"
  shows "contents (fold (\<lambda>p w. se_create_directories env w p) paths w) = contents w"
    and "opened (fold (\<lambda>p w. se_create_directories env w p) paths w) = opened w"
  by (induction paths arbitrary: w) (simp_all add: reliable_keeps [OF assms])

section \<open>Names of segment files\<close>

definition segment_name :: "nat \<Rightarrow> string" where
  "segment_name sid = ''segment_'' @ pad4 (dec sid) @ ''.seg''"

definition seg_file :: "NvmeStoreConfig \<Rightarrow> nat \<Rightarrow> string" where
  "seg_file cfg sid = hd (nv_paths cfg) @ ''/'' @ segment_name sid"

lemma segment_path_file: "segment_path s sid = seg_file (bs_config s) sid"
  by (simp add: segment_path_def seg_file_def segment_name_def)

lemma pad4_digits: "c \<in> set (pad4 (dec sid)) \<Longrightarrow> is_digit c"
  by (auto simp: pad4_def dest: dec_digits) (simp add: is_digit_def)

lemma pad4_value: "foldl (\<lambda>v c. v * 10 + digit_val c) 0 (pad4 (dec sid)) = sid"
proof -
  have zero: "digits_value 0 (replicate k CHR ''0'') = 0" for k by (induction k) (simp_all add: digit_val_def)
  have "digits_value 0 (pad4 (dec sid)) = digits_value (digits_value 0 (replicate (4 - length (dec sid)) CHR ''0'')) (dec sid)"
    by (simp add: pad4_def)
  then have "digits_value 0 (pad4 (dec sid)) = sid" by (simp add: zero digits_value_dec)
  then show ?thesis by (simp only: digits_value_def)
qed

text \<open>The scan recovers the id from the name \<open>segment_path\<close> made.\<close>

lemma segment_file_id_name:
  assumes "sid < 2 ^ 32"
  shows "segment_file_id (segment_name sid) = Some sid"
proof -
  let ?ds = "pad4 (dec sid)"
  have ne: "?ds \<noteq> []" by (simp add: pad4_def dec.simps [of sid])
  have tw: "takeWhile is_digit ?ds = ?ds" using pad4_digits by (simp add: takeWhile_eq_all_conv)
  obtain c rest where cs: "?ds = c # rest" using ne by (cases ?ds) auto
  have d: "is_digit c" using pad4_digits [of c sid] cs by simp
  have sp: "\<not> is_space c" "c \<noteq> CHR ''-''" "c \<noteq> CHR ''+''" using d by (auto simp: is_space_def is_digit_def)
  have "stoul ?ds = stoul_digits ?ds" using cs sp by (simp add: stoul_def)
  also have "\<dots> = Some sid" using ne assms unfolding stoul_digits_def tw Let_def pad4_value by simp
  finally have st: "stoul ?ds = Some sid" .
  show ?thesis using st ne assms by (simp add: segment_file_id_def segment_name_def wrap32_id Let_def)
qed

lemma seg_file_inj: "seg_file cfg a = seg_file cfg b \<Longrightarrow> a < 2 ^ 32 \<Longrightarrow> b < 2 ^ 32 \<Longrightarrow> a = b"
  unfolding seg_file_def append_same_eq same_append_eq by (metis option.inject segment_file_id_name)

lemma segment_name_flat: "CHR ''/'' \<notin> set (segment_name sid)"
proof -
  have "\<not> is_digit CHR ''/''" by (simp add: is_digit_def)
  then have "CHR ''/'' \<notin> set (pad4 (dec sid))" using pad4_digits by blast
  then show ?thesis by (simp add: segment_name_def)
qed

section \<open>Disjoint writes\<close>

lemma overwrite_length_le: "length f \<le> length (overwrite f off bs)"
  by (cases "bs = []") (simp_all add: overwrite_def)

lemma overwrite_length_bound: "length (overwrite f off bs) \<le> max (length f) (off + length bs)"
  by (cases "bs = []") (simp_all add: overwrite_def)

lemma nth_overwrite_outside:
  assumes "i < length (overwrite f off bs)" and "i < off \<or> off + length bs \<le> i"
  shows "overwrite f off bs ! i = (if i < length f then f ! i else 0)"
proof (cases "bs = []")
  case False
  moreover have "i < max (length f) (off + length bs)" using assms(1) False by (simp add: length_overwrite)
  ultimately show ?thesis using assms(2) by (auto simp: nth_overwrite)
qed (use assms(1) in \<open>simp add: overwrite_def\<close>)

lemma read_overwrite_apart:
  assumes "off + n \<le> length f" and "off + n \<le> o' \<or> o' + length bs \<le> off"
  shows "take n (drop off (overwrite f o' bs)) = take n (drop off f)"
proof (cases "bs = []")
  case True
  then show ?thesis by (simp add: overwrite_def)
next
  case False
  have len: "off + n \<le> length (overwrite f o' bs)" using assms(1) overwrite_length_le [of f o' bs] by linarith
  show ?thesis
  proof (rule nth_equalityI)
    show "length (take n (drop off (overwrite f o' bs))) = length (take n (drop off f))"
      using assms(1) len by simp
  next
    fix i
    assume "i < length (take n (drop off (overwrite f o' bs)))"
    then have i: "i < n" by simp
    then have "overwrite f o' bs ! (off + i) = f ! (off + i)"
      using assms False by (subst nth_overwrite) auto
    then show "take n (drop off (overwrite f o' bs)) ! i = take n (drop off f) ! i"
      using i assms(1) len by simp
  qed
qed

lemma read_overwrite_inside:
  assumes "o' \<le> off" and "off + n \<le> o' + length bs" and "0 < n"
  shows "take n (drop off (overwrite f o' bs)) = take n (drop (off - o') bs)"
    and "off + n \<le> length (overwrite f o' bs)"
proof -
  have ne: "bs \<noteq> []" using assms by auto
  show len: "off + n \<le> length (overwrite f o' bs)" using assms ne by (simp add: length_overwrite)
  show "take n (drop off (overwrite f o' bs)) = take n (drop (off - o') bs)"
  proof (rule nth_equalityI)
    show "length (take n (drop off (overwrite f o' bs))) = length (take n (drop (off - o') bs))"
      using assms len by simp
  next
    fix i
    assume "i < length (take n (drop off (overwrite f o' bs)))"
    then have i: "i < n" by simp
    then have "overwrite f o' bs ! (off + i) = bs ! (off + i - o')"
      using assms ne by (subst nth_overwrite) auto
    then show "take n (drop off (overwrite f o' bs)) ! i = take n (drop (off - o') bs) ! i"
      using i assms len by simp
  qed
qed

section \<open>The segment files of a store\<close>

definition valid_header :: "bytes \<Rightarrow> bool" where
  "valid_header bs \<longleftrightarrow> 4096 \<le> length bs \<and> sh_magic (segment_header_of_bytes (take 4096 bs)) = kSegmentMagic"

text \<open>
  The directories of a store hold no segment files but its own: they lie in the first
  directory, are named after an id below \<open>n\<close> and begin with a header.
\<close>

definition own_files :: "NvmeStoreConfig \<Rightarrow> nat \<Rightarrow> (string \<rightharpoonup> bytes) \<Rightarrow> bool" where
  "own_files cfg n files \<longleftrightarrow> (\<forall>dir \<in> set (nv_paths cfg). \<forall>name sid. segment_file_id name = Some sid \<longrightarrow>
     CHR ''/'' \<notin> set name \<longrightarrow> files (dir @ ''/'' @ name) \<noteq> None \<longrightarrow> dir = hd (nv_paths cfg) \<and>
     name = segment_name sid \<and> sid < n \<and> valid_header (file_bytes files (dir @ ''/'' @ name)))"

lemma own_filesD:
  assumes "own_files cfg n files" and "dir \<in> set (nv_paths cfg)" and "segment_file_id name = Some sid"
    and "CHR ''/'' \<notin> set name" and "files (dir @ ''/'' @ name) \<noteq> None"
  shows "dir = hd (nv_paths cfg)" and "name = segment_name sid" and "sid < n"
    and "valid_header (file_bytes files (dir @ ''/'' @ name))"
  using assms unfolding own_files_def by blast+

lemma own_filesI:
  assumes "\<And>dir name sid. dir \<in> set (nv_paths cfg) \<Longrightarrow> segment_file_id name = Some sid \<Longrightarrow> CHR ''/'' \<notin> set name \<Longrightarrow>
    files (dir @ ''/'' @ name) \<noteq> None \<Longrightarrow> dir = hd (nv_paths cfg) \<and> name = segment_name sid \<and> sid < n \<and>
      valid_header (file_bytes files (dir @ ''/'' @ name))"
  shows "own_files cfg n files"
  using assms unfolding own_files_def by blast

lemma valid_header_overwrite: "valid_header bs \<Longrightarrow> 4096 \<le> off \<Longrightarrow> valid_header (overwrite bs off data)"
  using read_overwrite_apart [of 0 4096 bs off data] overwrite_length_le [of bs off data]
  by (auto simp: valid_header_def)

lemma own_files_write:
  assumes own: "own_files cfg n files" and "files path \<noteq> None" and off: "4096 \<le> off"
  shows "own_files cfg n (files(path \<mapsto> overwrite (file_bytes files path) off data))"
proof (rule own_filesI)
  fix dir name sid
  assume A: "dir \<in> set (nv_paths cfg)" "segment_file_id name = Some sid" "CHR ''/'' \<notin> set name"
    "(files(path \<mapsto> overwrite (file_bytes files path) off data)) (dir @ ''/'' @ name) \<noteq> None"
  then have "files (dir @ ''/'' @ name) \<noteq> None" using assms(2) by (auto split: if_splits)
  note O = own_filesD [OF own A(1-3) this]
  then show "dir = hd (nv_paths cfg) \<and> name = segment_name sid \<and> sid < n \<and>
      valid_header (file_bytes (files(path \<mapsto> overwrite (file_bytes files path) off data)) (dir @ ''/'' @ name))"
    using valid_header_overwrite [OF _ off] by auto
qed

lemma flat_names:
  assumes "d @ ''/'' @ a = e @ ''/'' @ b" and "CHR ''/'' \<notin> set a" and "CHR ''/'' \<notin> set b"
  shows "d = e \<and> a = b"
proof -
  have last: "rev (takeWhile (\<lambda>c. c \<noteq> CHR ''/'') (rev (d @ ''/'' @ a))) = a" if "CHR ''/'' \<notin> set a" for d a
  proof -
    have "\<forall>c \<in> set (rev a). c \<noteq> CHR ''/''" using that by auto
    then show ?thesis using takeWhile_append2 [of "rev a" "\<lambda>c. c \<noteq> CHR ''/''" "CHR ''/'' # rev d"] by simp
  qed
  from last [OF assms(2), of d] last [OF assms(3), of e] assms(1) have "a = b" by metis
  with assms(1) show ?thesis by simp
qed

lemma own_files_create:
  assumes own: "own_files cfg n files" and n: "n < 2 ^ 32" and hdr: "valid_header bs"
  shows "own_files cfg (Suc n) (files(seg_file cfg n \<mapsto> bs))"
proof (rule own_filesI)
  fix dir name sid
  assume A: "dir \<in> set (nv_paths cfg)" "segment_file_id name = Some sid" "CHR ''/'' \<notin> set name"
    "(files(seg_file cfg n \<mapsto> bs)) (dir @ ''/'' @ name) \<noteq> None"
  show "dir = hd (nv_paths cfg) \<and> name = segment_name sid \<and> sid < Suc n \<and>
      valid_header (file_bytes (files(seg_file cfg n \<mapsto> bs)) (dir @ ''/'' @ name))"
  proof (cases "dir @ ''/'' @ name = seg_file cfg n")
    case True
    then have "dir = hd (nv_paths cfg)" "name = segment_name n"
      using flat_names [OF _ A(3) segment_name_flat, of dir "hd (nv_paths cfg)" n] by (simp_all add: seg_file_def)
    then show ?thesis using A(2) segment_file_id_name [OF n] hdr True by simp
  next
    case False
    then have "files (dir @ ''/'' @ name) \<noteq> None" using A(4) by simp
    from own_filesD [OF own A(1-3) this] False show ?thesis by simp
  qed
qed

lemma valid_header_new:
  assumes "length (sh_reserved h) = 4064" and "sh_magic h = kSegmentMagic"
  shows "valid_header (overwrite f 0 (segment_header_bytes h))"
proof -
  have len: "length (segment_header_bytes h) = 4096" using assms(1) by (rule length_segment_header_bytes)
  have "take 4096 (overwrite f 0 (segment_header_bytes h)) = segment_header_bytes h"
    using read_overwrite_inside(1) [of 0 0 4096 "segment_header_bytes h" f] len by simp
  moreover have "4096 \<le> length (overwrite f 0 (segment_header_bytes h))"
    using read_overwrite_inside(2) [of 0 0 4096 "segment_header_bytes h" f] len by simp
  ultimately show ?thesis using assms(2) by (simp add: valid_header_def segment_header_round_trip)
qed

section \<open>A small file system\<close>

text \<open>Association lists of files and of descriptors, and the next descriptor.\<close>

type_synonym mem_world = "(string \<times> bytes) list \<times> (int \<times> string) list \<times> nat"

definition mem_files :: "mem_world \<Rightarrow> string \<rightharpoonup> bytes" where
  "mem_files w = map_of (fst w)"

definition mem_opened :: "mem_world \<Rightarrow> int \<rightharpoonup> string" where
  "mem_opened w fd = (if fd < int (snd (snd w)) then map_of (fst (snd w)) fd else None)"

fun names_in :: "string \<Rightarrow> (string \<times> bytes) list \<Rightarrow> string list" where
  "names_in dir [] = []"
| "names_in dir ((path, bs) # files) =
     (let n = drop (length dir + 1) path; rest = names_in dir files
      in if take (length dir + 1) path = dir @ ''/'' \<and> CHR ''/'' \<notin> set n \<and> n \<notin> set rest then n # rest else rest)"

definition mem_env :: "mem_world store_env" where
  "mem_env =
     \<lparr>se_io = \<lparr>sync_read = (\<lambda>w fd n off. let got = (case mem_opened w fd of None \<Rightarrow> []
                              | Some path \<Rightarrow> take n (drop off (file_bytes (mem_files w) path)))
                            in ((to_int (length got), got), w)),
               sync_write = (\<lambda>w fd bs off. (to_int (length bs), case mem_opened w fd of None \<Rightarrow> w
                              | Some path \<Rightarrow> apfst (\<lambda>files. (path, overwrite (file_bytes (map_of files) path) off bs) # files) w))\<rparr>,
      se_open = (\<lambda>(files, fds, k) path create direct.
        (int k, if create then (path, []) # files else files, (int k, path) # fds, Suc k)),
      se_close = (\<lambda>(files, fds, k) fd. (files, filter (\<lambda>(fd', path). fd' \<noteq> fd) fds, k)),
      se_remove = (\<lambda>(files, fds, k) path. (filter (\<lambda>(path', bs). path' \<noteq> path) files, fds, k)),
      se_fstat = (\<lambda>w fd. map_option (\<lambda>path. length (file_bytes (mem_files w) path)) (mem_opened w fd)),
      se_create_directories = (\<lambda>w dir. w), se_list = (\<lambda>w dir. Some (names_in dir (fst w))),
      se_aligned_alloc = (\<lambda>w n. True), se_clock = (\<lambda>w. 0)\<rparr>"

lemma set_names_in: "n \<in> set (names_in dir files) \<longleftrightarrow> CHR ''/'' \<notin> set n \<and> map_of files (dir @ ''/'' @ n) \<noteq> None"
proof (induction dir files rule: names_in.induct)
  case (2 dir path bs files)
  have "path = dir @ ''/'' @ n \<longleftrightarrow> take (length dir + 1) path = dir @ ''/'' \<and> drop (length dir + 1) path = n"
    by (metis append_assoc append_eq_conv_conj append_take_drop_id length_append_singleton Suc_eq_plus1)
  with 2 show ?case by (auto simp: Let_def)
qed simp

lemma distinct_names_in: "distinct (names_in dir files)"
  by (induction dir files rule: names_in.induct) (simp_all add: Let_def)

lemma mem_env_reliable: "reliable mem_env mem_files mem_opened"
proof -
  have "writes_reliably mem_env mem_files mem_opened"
    by (auto simp: writes_reliably_def mem_env_def mem_files_def mem_opened_def split: if_splits)
  moreover have "reads_reliably mem_env mem_files mem_opened"
    by (auto simp: reads_reliably_def mem_env_def Let_def)
  moreover have "opens_reliably mem_env mem_files mem_opened"
    by (auto simp: opens_reliably_def mem_env_def mem_files_def mem_opened_def fun_eq_iff)
  moreover have "lists_reliably mem_env mem_files"
    by (auto simp: lists_reliably_def mem_env_def mem_files_def set_names_in distinct_names_in)
  moreover have "map_of (filter (\<lambda>(fd', path). fd' \<noteq> fd) fds) fd' = (if fd' = fd then None else map_of fds fd')" for fds :: "(int \<times> string) list" and fd fd'
    by (induction fds) auto
  then have "keeps_reliably mem_env mem_files mem_opened"
    by (auto simp: keeps_reliably_def mem_env_def mem_files_def mem_opened_def fun_eq_iff split: prod.splits)
  ultimately show ?thesis by (simp add: reliable_def)
qed

section \<open>A file system beside something else\<close>

text \<open>The file system as one half of a world.\<close>

definition at_fst :: "('w \<Rightarrow> 'r \<times> 'w) \<Rightarrow> 'w \<times> 'v \<Rightarrow> 'r \<times> 'w \<times> 'v" where
  "at_fst f w = (case f (fst w) of (r, w') \<Rightarrow> (r, w', snd w))"

definition store_half :: "'w store_env \<Rightarrow> ('w \<times> 'v) store_env" where
  "store_half env =
     \<lparr>se_io = \<lparr>sync_read = (\<lambda>w fd n off. at_fst (\<lambda>w. sync_read (se_io env) w fd n off) w),
               sync_write = (\<lambda>w fd bs off. at_fst (\<lambda>w. sync_write (se_io env) w fd bs off) w)\<rparr>,
      se_open = (\<lambda>w path create direct. at_fst (\<lambda>w. se_open env w path create direct) w),
      se_close = (\<lambda>w fd. (se_close env (fst w) fd, snd w)), se_remove = (\<lambda>w path. (se_remove env (fst w) path, snd w)),
      se_fstat = (\<lambda>w fd. se_fstat env (fst w) fd),
      se_create_directories = (\<lambda>w path. (se_create_directories env (fst w) path, snd w)),
      se_list = (\<lambda>w path. se_list env (fst w) path), se_aligned_alloc = (\<lambda>w n. se_aligned_alloc env (fst w) n),
      se_clock = (\<lambda>w. se_clock env (fst w))\<rparr>"

lemma reliable_half:
  fixes env :: "'w store_env"
  assumes "reliable env contents opened"
  shows "reliable (store_half env :: ('w \<times> 'v) store_env) (\<lambda>w. contents (fst w)) (\<lambda>w. opened (fst w))"
proof -
  let ?env = "store_half env :: ('w \<times> 'v) store_env"
  have "writes_reliably ?env (\<lambda>w. contents (fst w)) (\<lambda>w. opened (fst w))"
    using assms by (simp add: reliable_def writes_reliably_def store_half_def at_fst_def split: prod.splits)
  moreover have "reads_reliably ?env (\<lambda>w. contents (fst w)) (\<lambda>w. opened (fst w))"
    using assms by (auto simp: reliable_def reads_reliably_def store_half_def at_fst_def split: prod.splits)
  moreover have "opens_reliably ?env (\<lambda>w. contents (fst w)) (\<lambda>w. opened (fst w))"
    unfolding opens_reliably_def
  proof (intro allI impI)
    fix w :: "'w \<times> 'v" and path create direct fd and w' :: "'w \<times> 'v"
    assume ex: "create \<or> contents (fst w) path \<noteq> None" and "se_open ?env w path create direct = (fd, w')"
    then have "se_open env (fst w) path create direct = (fd, fst w')" by (auto simp: store_half_def at_fst_def split: prod.splits)
    moreover have "opens_reliably env contents opened" using assms by (simp add: reliable_def)
    ultimately show "0 \<le> fd \<and> opened (fst w) fd = None \<and> opened (fst w') = (opened (fst w))(fd \<mapsto> path) \<and>
        contents (fst w') = (if create then (contents (fst w))(path \<mapsto> []) else contents (fst w))"
      using ex unfolding opens_reliably_def by blast
  qed
  moreover have "lists_reliably ?env (\<lambda>w. contents (fst w))"
    using assms by (simp add: reliable_def lists_reliably_def store_half_def)
  moreover have "keeps_reliably ?env (\<lambda>w. contents (fst w)) (\<lambda>w. opened (fst w))"
    using assms by (simp add: reliable_def keeps_reliably_def store_half_def)
  ultimately show ?thesis by (simp add: reliable_def)
qed

end
