(* ===== verification/Blob_Log.thy ===== *)
theory Blob_Log
  imports File_System "HOL-Library.Multiset"
begin

text \<open>
  The contract of the blob store: what \<open>write\<close> acknowledged, \<open>read\<close> returns, whatever the flush
  thread has done in between. The states are those of one writer whose entries fit a write
  block, the flush thread running at any point, also while the writer waits for a free block,
  over a system in which reads, writes and opening a new file succeed.
\<close>

section \<open>Segments as a map\<close>

definition segs_inv :: "(int \<rightharpoonup> string) \<Rightarrow> BlobStore \<Rightarrow> bool" where
  "segs_inv fds s \<longleftrightarrow> distinct (map fst (segments s)) \<and> distinct (map (si_id \<circ> snd) (segments s)) \<and>
     distinct (map (si_fd \<circ> snd) (segments s)) \<and> next_segment_id s < 2 ^ 32 \<and>
     (\<forall>(p, g) \<in> set (segments s). p < seg_ptrs s \<and> si_id g < next_segment_id s \<and> 0 \<le> si_fd g \<and>
        fds (si_fd g) = Some (si_path g) \<and> si_path g = seg_file (bs_config s) (si_id g))"

lemma find_segment_iff:
  assumes "distinct (map (si_id \<circ> snd) gs)"
  shows "find_segment sid gs = Some p \<longleftrightarrow> (\<exists>g. (p, g) \<in> set gs \<and> si_id g = sid)"
  using assms
proof (induction sid gs rule: find_segment.induct)
  case (2 sid q h gs)
  show ?case
  proof (cases "si_id h = sid")
    case True
    then have "si_id g \<noteq> sid" if "(p, g) \<in> set gs" for g using 2 that by force
    with True show ?thesis by auto
  qed (use 2 in auto)
qed simp

lemma segs_lookup:
  assumes "segs_inv fds s" and "(p, g) \<in> set (segments s)"
  shows "find_segment (si_id g) (segments s) = Some p" and "seg_of s p = g"
  using assms find_segment_iff [of "segments s" "si_id g" p] by (auto simp: segs_inv_def seg_of_def)

lemma segs_unique:
  assumes "segs_inv fds s" and "(p, g) \<in> set (segments s)" and "(q, h) \<in> set (segments s)"
  shows "si_id g = si_id h \<Longrightarrow> p = q \<and> g = h" and "si_fd g = si_fd h \<Longrightarrow> p = q \<and> g = h"
    and "p = q \<Longrightarrow> g = h"
proof -
  have key: "(p, g) = (q, h)" if "distinct (map f (segments s))" "f (p, g) = f (q, h)" for f :: "nat \<times> SegmentInfo \<Rightarrow> 'x"
    using that assms(2,3) by (metis distinct_map inj_onD)
  show "si_id g = si_id h \<Longrightarrow> p = q \<and> g = h" using key [of "si_id \<circ> snd"] assms(1) by (auto simp: segs_inv_def)
  show "si_fd g = si_fd h \<Longrightarrow> p = q \<and> g = h" using key [of "si_fd \<circ> snd"] assms(1) by (auto simp: segs_inv_def)
  show "p = q \<Longrightarrow> g = h" using key [of fst] assms(1) by (auto simp: segs_inv_def)
qed

lemma segs_file:
  assumes "segs_inv fds s" and "(p, g) \<in> set (segments s)"
  shows "fds (si_fd g) = Some (si_path g)" and "si_path g = seg_file (bs_config s) (si_id g)" and "si_id g < 2 ^ 32"
  using assms unfolding segs_inv_def by fastforce+

lemma segs_path_unique:
  assumes "segs_inv fds s" and "(p, g) \<in> set (segments s)" and "(q, h) \<in> set (segments s)" and "si_path g = si_path h"
  shows "p = q \<and> g = h"
proof -
  have "seg_file (bs_config s) (si_id g) = seg_file (bs_config s) (si_id h)"
    using segs_file(2) [OF assms(1,2)] segs_file(2) [OF assms(1,3)] assms(4) by metis
  then have "si_id g = si_id h" by (rule seg_file_inj) (rule segs_file(3) [OF assms(1,2)] segs_file(3) [OF assms(1,3)])+
  then show ?thesis by (rule segs_unique(1) [OF assms(1-3)])
qed

section \<open>Entries\<close>

text \<open>An acknowledged entry: segment id, offset and the bytes stored there.\<close>

type_synonym log_entry = "nat \<times> nat \<times> bytes"

definition covers :: "log_entry \<Rightarrow> WriteBlock \<Rightarrow> bool" where
  "covers e b \<longleftrightarrow> (case e of (sid, off, img) \<Rightarrow>
     wb_segment_id b = sid \<and> wb_segment_offset b \<le> off \<and> off + length img \<le> wb_segment_offset b + wb_pos b \<and>
     take (length img) (drop (off - wb_segment_offset b) (wb_buf b)) = img)"

definition apart :: "log_entry \<Rightarrow> WriteBlock \<Rightarrow> bool" where
  "apart e b \<longleftrightarrow> (case e of (sid, off, img) \<Rightarrow>
     wb_segment_id b \<noteq> sid \<or> off + length img \<le> wb_segment_offset b \<or> wb_segment_offset b + wb_pos b \<le> off)"

definition on_disk :: "(string \<rightharpoonup> bytes) \<Rightarrow> BlobStore \<Rightarrow> log_entry \<Rightarrow> bool" where
  "on_disk files s e \<longleftrightarrow> (case e of (sid, off, img) \<Rightarrow>
     \<exists>p g. (p, g) \<in> set (segments s) \<and> si_id g = sid \<and> off + length img \<le> length (file_bytes files (si_path g)) \<and>
       take (length img) (drop off (file_bytes files (si_path g))) = img)"

text \<open>An entry of whose bytes none is on disk: its place is beyond the end of the file or reads as zeros.\<close>

definition blank :: "(string \<rightharpoonup> bytes) \<Rightarrow> BlobStore \<Rightarrow> log_entry \<Rightarrow> bool" where
  "blank files s e \<longleftrightarrow> (case e of (sid, off, img) \<Rightarrow>
     \<exists>p g. (p, g) \<in> set (segments s) \<and> si_id g = sid \<and>
       (\<forall>i < length (file_bytes files (si_path g)). off \<le> i \<and> i < off + length img \<longrightarrow> file_bytes files (si_path g) ! i = 0))"

definition below_end :: "BlobStore \<Rightarrow> log_entry \<Rightarrow> bool" where
  "below_end s e \<longleftrightarrow> (case e of (sid, off, img) \<Rightarrow>
     img \<noteq> [] \<and> 4096 \<le> off \<and> (\<exists>p g. (p, g) \<in> set (segments s) \<and> si_id g = sid \<and> off + length img \<le> si_write_offset g))"

definition block_ok :: "nat \<Rightarrow> WriteBlock \<Rightarrow> bool" where
  "block_ok cap b \<longleftrightarrow> length (wb_buf b) = cap \<and> wb_capacity b = cap \<and> wb_pos b \<le> cap \<and> 4096 dvd wb_pos b"

text \<open>A block holding data of a known segment, below the end of that segment.\<close>

definition placed :: "BlobStore \<Rightarrow> WriteBlock \<Rightarrow> bool" where
  "placed s b \<longleftrightarrow> (\<exists>p g. (p, g) \<in> set (segments s) \<and> si_id g = wb_segment_id b \<and> si_fd g = wb_segment_fd b \<and>
     wb_segment_offset b + wb_pos b \<le> si_write_offset g) \<and> wb_segment_offset b + wb_pos b < 2 ^ 64 \<and>
     4096 \<le> wb_segment_offset b"

definition opt_list :: "'a option \<Rightarrow> 'a list" where
  "opt_list x = (case x of None \<Rightarrow> [] | Some a \<Rightarrow> [a])"

lemma pending_blocks_alt: "pending_blocks s = opt_list (active_block s) @ opt_list (flushing_block s) @ flush_queue s"
  by (simp add: pending_blocks_def opt_list_def)

text \<open>
  The blocks each have one owner; a writer that waits for a free block has given up the block
  that \<open>active_block\<close> still names.
\<close>

definition owners :: "bool \<Rightarrow> BlobStore \<Rightarrow> nat list" where
  "owners waiting s = (if waiting then [] else opt_list (active_block s)) @ opt_list (flushing_block s) @
     flush_queue s @ free_pool s"

text \<open>The blocks whose contents still have to reach the disk.\<close>

definition held :: "bool \<Rightarrow> BlobStore \<Rightarrow> nat list" where
  "held waiting s = (if waiting then [] else opt_list (active_block s)) @ opt_list (flushing_block s) @ flush_queue s"

lemma held_False: "held False s = pending_blocks s"
  by (simp add: held_def pending_blocks_alt)

lemma held_pending: "p \<in> set (held waiting s) \<Longrightarrow> p \<in> set (pending_blocks s)"
  by (auto simp: held_def pending_blocks_alt split: if_splits)

definition blocks_inv :: "nat \<Rightarrow> bool \<Rightarrow> BlobStore \<Rightarrow> bool" where
  "blocks_inv cap waiting s \<longleftrightarrow> distinct (owners waiting s) \<and>
     (\<forall>p \<in> set (owners waiting s) \<union> set (pending_blocks s). p < length (all_blocks s)) \<and>
     (\<forall>b \<in> set (all_blocks s). block_ok cap b) \<and>
     (\<forall>p \<in> set (pending_blocks s). placed s (all_blocks s ! p))"

text \<open>The active block ends where its segment ends, also while a writer waits for the next one.\<close>

definition active_inv :: "nat \<Rightarrow> BlobStore \<Rightarrow> bool" where
  "active_inv cap s \<longleftrightarrow> (\<exists>p q g. active_block s = Some p \<and> active_segment s = Some q \<and>
     (q, g) \<in> set (segments s) \<and> 4096 \<le> si_write_offset g \<and> si_write_offset g \<le> 2 ^ 63 \<and>
     (let b = all_blocks s ! p in wb_segment_id b = si_id g \<and> wb_segment_fd b = si_fd g \<and>
        si_write_offset g = wb_segment_offset b + wb_pos b \<and> wb_segment_offset b + cap \<le> 2 ^ 63))"

definition log_inv :: "bool \<Rightarrow> (string \<rightharpoonup> bytes) \<Rightarrow> log_entry set \<Rightarrow> BlobStore \<Rightarrow> bool" where
  "log_inv waiting files E s \<longleftrightarrow> (\<forall>e \<in> E. below_end s e \<and>
     (\<forall>p \<in> set (pending_blocks s). covers e (all_blocks s ! p) \<or> apart e (all_blocks s ! p)) \<and>
     ((\<exists>p \<in> set (held waiting s). covers e (all_blocks s ! p)) \<or> on_disk files s e) \<and>
     (on_disk files s e \<or> blank files s e))"

definition config_ok :: "nat \<Rightarrow> BlobStore \<Rightarrow> bool" where
  "config_ok cap s \<longleftrightarrow> cap < 2 ^ 32 \<and> nv_segment_size (bs_config s) < 2 ^ 63 \<and> flush_running s"

definition disk_inv :: "(string \<rightharpoonup> bytes) \<Rightarrow> BlobStore \<Rightarrow> bool" where
  "disk_inv files s \<longleftrightarrow> own_files (bs_config s) (next_segment_id s) files \<and>
     (\<forall>(p, g) \<in> set (segments s). files (si_path g) \<noteq> None \<and>
        length (file_bytes files (si_path g)) \<le> si_write_offset g)"

definition store_inv :: "nat \<Rightarrow> bool \<Rightarrow> (int \<rightharpoonup> string) \<Rightarrow> (string \<rightharpoonup> bytes) \<Rightarrow> log_entry set \<Rightarrow> BlobStore \<Rightarrow> bool" where
  "store_inv cap waiting fds files E s \<longleftrightarrow> config_ok cap s \<and> segs_inv fds s \<and> blocks_inv cap waiting s \<and>
     active_inv cap s \<and> log_inv waiting files E s \<and> disk_inv files s"

lemma store_invD:
  assumes "store_inv cap waiting fds files E s"
  shows "config_ok cap s" "segs_inv fds s" "blocks_inv cap waiting s" "active_inv cap s" "log_inv waiting files E s"
    "disk_inv files s"
  using assms by (simp_all add: store_inv_def)

lemma blocks_invD:
  assumes "blocks_inv cap waiting s"
  shows "distinct (owners waiting s)" and "p \<in> set (owners waiting s) \<Longrightarrow> p < length (all_blocks s)"
    and "p \<in> set (pending_blocks s) \<Longrightarrow> p < length (all_blocks s)"
    and "b \<in> set (all_blocks s) \<Longrightarrow> block_ok cap b"
    and "p \<in> set (pending_blocks s) \<Longrightarrow> placed s (all_blocks s ! p)"
  using assms by (simp_all add: blocks_inv_def)

lemma log_invD:
  assumes "log_inv waiting files E s" and "e \<in> E"
  shows "below_end s e"
    and "p \<in> set (pending_blocks s) \<Longrightarrow> covers e (all_blocks s ! p) \<or> apart e (all_blocks s ! p)"
    and "(\<exists>p \<in> set (held waiting s). covers e (all_blocks s ! p)) \<or> on_disk files s e"
    and "on_disk files s e \<or> blank files s e"
  using assms unfolding log_inv_def by blast+

lemma covers_nonempty: "below_end s e \<Longrightarrow> covers e b \<Longrightarrow> 0 < wb_pos b"
  by (cases e) (auto simp: below_end_def covers_def simp flip: length_greater_0_conv)

section \<open>Growing segments\<close>

text \<open>Segments are only added and extended: what was placed stays placed.\<close>

definition segs_grow :: "BlobStore \<Rightarrow> BlobStore \<Rightarrow> bool" where
  "segs_grow s s' \<longleftrightarrow> (\<forall>(p, g) \<in> set (segments s). \<exists>g'. (p, g') \<in> set (segments s') \<and> si_id g' = si_id g \<and>
     si_fd g' = si_fd g \<and> si_path g' = si_path g \<and> si_write_offset g \<le> si_write_offset g')"

lemma segs_growD:
  assumes "segs_grow s s'" and "(p, g) \<in> set (segments s)"
  obtains g' where "(p, g') \<in> set (segments s')" "si_id g' = si_id g" "si_fd g' = si_fd g"
    "si_path g' = si_path g" "si_write_offset g \<le> si_write_offset g'"
  using assms unfolding segs_grow_def by fastforce

lemma segs_grow_refl [simp]: "segments s' = segments s \<Longrightarrow> segs_grow s s'"
  by (auto simp: segs_grow_def)

lemma placed_grow:
  assumes "segs_grow s s'" and "placed s b"
  shows "placed s' b"
proof -
  from assms(2) obtain p g where g: "(p, g) \<in> set (segments s)" "si_id g = wb_segment_id b"
    "si_fd g = wb_segment_fd b" "wb_segment_offset b + wb_pos b \<le> si_write_offset g"
    and lt: "wb_segment_offset b + wb_pos b < 2 ^ 64" "4096 \<le> wb_segment_offset b"
    by (auto simp: placed_def)
  from assms(1) g(1) obtain g' where "(p, g') \<in> set (segments s')" "si_id g' = si_id g" "si_fd g' = si_fd g"
    "si_write_offset g \<le> si_write_offset g'" by (rule segs_growD)
  then show ?thesis
    using g lt unfolding placed_def by (intro conjI exI [of _ p] exI [of _ g']) simp_all
qed

lemma below_end_grow: "segs_grow s s' \<Longrightarrow> below_end s e \<Longrightarrow> below_end s' e"
  unfolding below_end_def by (cases e) (simp, meson segs_growD le_trans)

lemma on_disk_grow:
  assumes "segs_grow s s'" and "on_disk files s e"
    and "\<And>p g. (p, g) \<in> set (segments s) \<Longrightarrow> file_bytes files' (si_path g) = file_bytes files (si_path g)"
  shows "on_disk files' s' e"
proof (cases e)
  case (fields sid off img)
  with assms(2) obtain p g where g: "(p, g) \<in> set (segments s)" "si_id g = sid"
    "off + length img \<le> length (file_bytes files (si_path g))"
    "take (length img) (drop off (file_bytes files (si_path g))) = img" by (auto simp: on_disk_def)
  from assms(1) g(1) obtain g' where "(p, g') \<in> set (segments s')" "si_id g' = si_id g" "si_path g' = si_path g"
    by (rule segs_growD)
  then show ?thesis
    using g assms(3) [OF g(1)] fields unfolding on_disk_def prod.case
    by (simp add: fields) (intro exI [of _ p] exI [of _ g'], simp)
qed

lemma blank_grow:
  assumes "segs_grow s s'" and "blank files s e"
    and "\<And>p g. (p, g) \<in> set (segments s) \<Longrightarrow> file_bytes files' (si_path g) = file_bytes files (si_path g)"
  shows "blank files' s' e"
proof (cases e)
  case (fields sid off img)
  with assms(2) obtain p g where g: "(p, g) \<in> set (segments s)" "si_id g = sid"
    "\<forall>i < length (file_bytes files (si_path g)). off \<le> i \<and> i < off + length img \<longrightarrow> file_bytes files (si_path g) ! i = 0"
    by (auto simp: blank_def)
  from assms(1) g(1) obtain g' where "(p, g') \<in> set (segments s')" "si_id g' = si_id g" "si_path g' = si_path g"
    by (rule segs_growD)
  then show ?thesis
    using g assms(3) [OF g(1)] unfolding blank_def fields prod.case by (intro exI [of _ p] exI [of _ g']) simp
qed

lemma landed_grow:
  assumes "segs_grow s s'" and "on_disk files s e \<or> blank files s e"
    and "\<And>p g. (p, g) \<in> set (segments s) \<Longrightarrow> file_bytes files' (si_path g) = file_bytes files (si_path g)"
  shows "on_disk files' s' e \<or> blank files' s' e"
  using assms(2)
proof
  assume "on_disk files s e"
  with assms(1) have "on_disk files' s' e" using assms(3) by (rule on_disk_grow)
  then show ?thesis ..
next
  assume "blank files s e"
  with assms(1) have "blank files' s' e" using assms(3) by (rule blank_grow)
  then show ?thesis ..
qed

lemma log_inv_frame:
  assumes "log_inv waiting files E s" and "segs_grow s s'"
    and "\<And>p g. (p, g) \<in> set (segments s) \<Longrightarrow> file_bytes files' (si_path g) = file_bytes files (si_path g)"
    and "set (pending_blocks s') = set (pending_blocks s)"
    and "\<And>p. p \<in> set (pending_blocks s) \<Longrightarrow> all_blocks s' ! p = all_blocks s ! p"
    and "set (held waiting s) \<subseteq> set (held waiting' s')"
  shows "log_inv waiting' files' E s'"
  unfolding log_inv_def
proof (intro ballI conjI)
  fix e
  assume "e \<in> E"
  with assms(1) have e: "below_end s e"
    "\<forall>p \<in> set (pending_blocks s). covers e (all_blocks s ! p) \<or> apart e (all_blocks s ! p)"
    "(\<exists>p \<in> set (held waiting s). covers e (all_blocks s ! p)) \<or> on_disk files s e" "on_disk files s e \<or> blank files s e"
    unfolding log_inv_def by blast+
  show "below_end s' e" using assms(2) e(1) by (rule below_end_grow)
  show "on_disk files' s' e \<or> blank files' s' e" using assms(2) e(4) assms(3) by (rule landed_grow)
  show "covers e (all_blocks s' ! p) \<or> apart e (all_blocks s' ! p)" if "p \<in> set (pending_blocks s')" for p
    using that e(2) assms(4,5) by simp
  have "on_disk files' s' e" if "on_disk files s e"
    using assms(2) that assms(3) by (rule on_disk_grow)
  then show "(\<exists>p \<in> set (held waiting' s'). covers e (all_blocks s' ! p)) \<or> on_disk files' s' e"
    using e(3) assms(5,6) held_pending by (metis subsetD)
qed

section \<open>The flush thread keeps the contract\<close>

lemma flush_take_inv:
  assumes inv: "store_inv cap waiting fds files E s" and idle: "flushing_block s = None"
  shows "store_inv cap waiting fds files E (flush_take s)"
proof (cases "flush_queue s")
  case Nil
  then show ?thesis using inv by (simp add: flush_take_def)
next
  case (Cons p q)
  have cfg: "config_ok cap (flush_take s)" and segs: "segs_inv fds (flush_take s)"
    and act: "active_inv cap (flush_take s)" "disk_inv files (flush_take s)"
    and same: "segments (flush_take s) = segments s" "all_blocks (flush_take s) = all_blocks s"
    using inv Cons
    by (auto simp: store_inv_def flush_take_def Let_def config_ok_def segs_inv_def active_inv_def disk_inv_def)
  have grow: "segs_grow s (flush_take s)" using same by simp
  show ?thesis
  proof (cases "wb_pos (all_blocks s ! p) = 0")
    case True
    then have ft: "flush_take s = s\<lparr>flush_queue := q, free_pool := free_pool s @ [p]\<rparr>"
      using Cons by (simp add: flush_take_def)
    have nc: "\<not> covers e (all_blocks s ! p)" if "e \<in> E" for e
      using that inv True covers_nonempty [of s e "all_blocks s ! p"] by (auto simp: store_inv_def log_inv_def)
    have sub: "set (pending_blocks (flush_take s)) \<subseteq> set (pending_blocks s)"
      "set (held waiting s) \<subseteq> insert p (set (held waiting (flush_take s)))"
      using Cons by (auto simp: ft pending_blocks_alt held_def)
    have "blocks_inv cap waiting (flush_take s)"
      using inv Cons idle sub placed_grow [OF grow]
      by (auto simp: store_inv_def blocks_inv_def owners_def ft opt_list_def pending_blocks_alt)
    moreover have "log_inv waiting files E (flush_take s)"
      using inv sub nc below_end_grow [OF grow] on_disk_grow [OF grow, of files _ files] blank_grow [OF grow, of files _ files]
      unfolding store_inv_def log_inv_def same by blast
    ultimately show ?thesis using cfg segs act by (simp add: store_inv_def)
  next
    case False
    then have ft: "flush_take s = s\<lparr>flush_queue := q, flushing_block := Some p\<rparr>"
      using Cons by (simp add: flush_take_def)
    have pend: "set (pending_blocks (flush_take s)) = set (pending_blocks s)"
      using Cons idle by (auto simp: ft pending_blocks_alt opt_list_def)
    have "mset (owners waiting (flush_take s)) = mset (owners waiting s)"
      using Cons idle by (simp add: ft owners_def opt_list_def)
    from mset_eq_imp_distinct_iff [OF this] mset_eq_setD [OF this] inv
    have "distinct (owners waiting (flush_take s))" "set (owners waiting (flush_take s)) = set (owners waiting s)"
      by (simp_all add: store_inv_def blocks_inv_def)
    then have "blocks_inv cap waiting (flush_take s)"
      using inv placed_grow [OF grow] unfolding store_inv_def blocks_inv_def pend same by blast
    moreover have "set (held waiting s) \<subseteq> set (held waiting (flush_take s))"
      using Cons idle by (auto simp: ft held_def opt_list_def)
    then have "log_inv waiting files E (flush_take s)"
      by (intro log_inv_frame [OF store_invD(5) [OF inv] grow]) (simp_all only: pend same)
    ultimately show ?thesis using cfg segs act by (simp add: store_inv_def)
  qed
qed

lemma align_up_self: "4096 dvd n \<Longrightarrow> n < 2 ^ 32 \<Longrightarrow> align_up n 4096 = n"
  by (subst align_up_4096) (auto elim!: dvdE)

text \<open>What the block being flushed covered is on disk afterwards, the rest stays where it was.\<close>

lemma flushed_on_disk:
  assumes segs: "segs_inv fds s" and pl: "placed s b" and fd: "fds (wb_segment_fd b) = Some path" and cov: "covers e b" and be: "below_end s e"
    and len: "wb_pos b \<le> length (wb_buf b)"
  shows "on_disk (files(path \<mapsto> overwrite (file_bytes files path) (wb_segment_offset b) (take (wb_pos b) (wb_buf b)))) s e"
proof (cases e)
  case (fields sid off img)
  from pl obtain p g where g: "(p, g) \<in> set (segments s)" "si_id g = wb_segment_id b" "si_fd g = wb_segment_fd b"
    by (auto simp: placed_def)
  have path: "si_path g = path" using segs_file(1) [OF segs g(1)] g(3) fd by simp
  from cov fields have c: "wb_segment_id b = sid" "wb_segment_offset b \<le> off"
    "off + length img \<le> wb_segment_offset b + wb_pos b"
    "take (length img) (drop (off - wb_segment_offset b) (wb_buf b)) = img" by (simp_all add: covers_def)
  from be fields have ne: "0 < length img" by (simp add: below_end_def)
  have "take (length img) (drop (off - wb_segment_offset b) (take (wb_pos b) (wb_buf b))) = img"
    using c(2,3,4) by (simp add: drop_take min_def) linarith
  then have "take (length img) (drop off (overwrite (file_bytes files path) (wb_segment_offset b)
      (take (wb_pos b) (wb_buf b)))) = img"
    using c(2,3) ne len by (subst read_overwrite_inside(1)) simp_all
  moreover have "off + length img \<le> length (overwrite (file_bytes files path) (wb_segment_offset b)
      (take (wb_pos b) (wb_buf b)))"
    using c(2,3) ne len by (intro read_overwrite_inside(2)) simp_all
  ultimately show ?thesis
    using g c(1) unfolding on_disk_def fields prod.case by (intro exI [of _ p] exI [of _ g]) (simp add: path)
qed

lemma unflushed_on_disk:
  assumes segs: "segs_inv fds s" and pl: "placed s b" and fd: "fds (wb_segment_fd b) = Some path" and ap: "apart e b" and od: "on_disk files s e"
    and len: "wb_pos b \<le> length (wb_buf b)"
  shows "on_disk (files(path \<mapsto> overwrite (file_bytes files path) (wb_segment_offset b) (take (wb_pos b) (wb_buf b)))) s e"
proof (cases e)
  case (fields sid off img)
  from pl obtain p g where g: "(p, g) \<in> set (segments s)" "si_id g = wb_segment_id b" "si_fd g = wb_segment_fd b"
    by (auto simp: placed_def)
  have path: "si_path g = path" using segs_file(1) [OF segs g(1)] g(3) fd by simp
  from od fields obtain q h where h: "(q, h) \<in> set (segments s)" "si_id h = sid"
    "off + length img \<le> length (file_bytes files (si_path h))" "take (length img) (drop off (file_bytes files (si_path h))) = img"
    by (auto simp: on_disk_def)
  let ?f = "overwrite (file_bytes files path) (wb_segment_offset b) (take (wb_pos b) (wb_buf b))"
  show ?thesis
  proof (cases "si_path h = path")
    case True
    then have "h = g" using segs_path_unique [OF segs h(1) g(1)] path by simp
    then have "off + length img \<le> wb_segment_offset b \<or> wb_segment_offset b + length (take (wb_pos b) (wb_buf b)) \<le> off"
      using ap fields g(2) h(2) len by (simp add: apart_def)
    from read_overwrite_apart [OF h(3) [unfolded True] this] h(4) [unfolded True]
    have "take (length img) (drop off ?f) = img" by simp
    moreover have "off + length img \<le> length ?f"
      using h(3) [unfolded True] overwrite_length_le le_trans by blast
    ultimately show ?thesis
      using h(1,2) True unfolding on_disk_def fields prod.case by (intro exI [of _ q] exI [of _ h]) simp
  next
    case False
    then show ?thesis
      using h unfolding on_disk_def fields prod.case by (intro exI [of _ q] exI [of _ h]) simp
  qed
qed

lemma unflushed_blank:
  assumes segs: "segs_inv fds s" and pl: "placed s b" and fd: "fds (wb_segment_fd b) = Some path" and ap: "apart e b" and bl: "blank files s e"
    and len: "wb_pos b \<le> length (wb_buf b)"
  shows "blank (files(path \<mapsto> overwrite (file_bytes files path) (wb_segment_offset b) (take (wb_pos b) (wb_buf b)))) s e"
    (is "blank ?files s e")
proof (cases e)
  case (fields sid off img)
  from pl obtain p g where g: "(p, g) \<in> set (segments s)" "si_id g = wb_segment_id b" "si_fd g = wb_segment_fd b"
    by (auto simp: placed_def)
  have path: "si_path g = path" using segs_file(1) [OF segs g(1)] g(3) fd by simp
  from bl fields obtain q h where h: "(q, h) \<in> set (segments s)" "si_id h = sid"
    "\<forall>i < length (file_bytes files (si_path h)). off \<le> i \<and> i < off + length img \<longrightarrow> file_bytes files (si_path h) ! i = 0"
    by (auto simp: blank_def)
  have "file_bytes ?files (si_path h) ! i = 0"
    if i: "i < length (file_bytes ?files (si_path h))" "off \<le> i" "i < off + length img" for i
  proof (cases "si_path h = path")
    case True
    then have "h = g" using segs_path_unique [OF segs h(1) g(1)] path by simp
    then have "i < wb_segment_offset b \<or> wb_segment_offset b + wb_pos b \<le> i"
      using ap fields g(2) h(2) i by (auto simp: apart_def)
    then show ?thesis
      using i h(3) len True nth_overwrite_outside [of i "file_bytes files path" "wb_segment_offset b" "take (wb_pos b) (wb_buf b)"]
      by auto
  next
    case False
    then show ?thesis using i h(3) by simp
  qed
  then show ?thesis using h(1,2) unfolding blank_def fields prod.case by blast
qed

lemma disk_inv_write:
  assumes segs: "segs_inv fds s" and disk: "disk_inv files s" and b: "placed s b" and path: "fds (wb_segment_fd b) = Some path"
  shows "disk_inv (files(path \<mapsto> overwrite (file_bytes files path) (wb_segment_offset b) (take (wb_pos b) (wb_buf b)))) s"
    (is "disk_inv ?files s")
proof -
  from b obtain q g where g: "(q, g) \<in> set (segments s)" "si_fd g = wb_segment_fd b"
    "wb_segment_offset b + wb_pos b \<le> si_write_offset g" and off: "4096 \<le> wb_segment_offset b" by (auto simp: placed_def)
  have p: "path = si_path g" using segs_file(1) [OF segs g(1)] g(2) path by simp
  have len: "length (file_bytes files (si_path h)) \<le> si_write_offset h \<and> files (si_path h) \<noteq> None" if "(x, h) \<in> set (segments s)" for x h
    using disk that by (auto simp: disk_inv_def)
  have "?files (si_path h) \<noteq> None \<and> length (file_bytes ?files (si_path h)) \<le> si_write_offset h" if "(x, h) \<in> set (segments s)" for x h
    using len [OF that] segs_path_unique [OF segs that g(1)] g(3) overwrite_length_bound
    by (cases "si_path h = path") (fastforce simp: p intro: order_trans)+
  moreover have "own_files (bs_config s) (next_segment_id s) ?files"
    using disk off len [OF g(1)] unfolding p by (intro own_files_write) (simp_all add: disk_inv_def)
  ultimately show ?thesis unfolding disk_inv_def by blast
qed

lemma flush_write_inv:
  assumes rel: "reliable env contents opened"
    and inv: "store_inv cap waiting (opened w) (contents w) E s" and fw: "flush_write env (s, w) = (s', w')"
  shows "store_inv cap waiting (opened w') (contents w') E s'"
proof (cases "flushing_block s")
  case None
  then show ?thesis using inv fw by (simp add: flush_write_def)
next
  case (Some p)
  note D = store_invD [OF inv] and B = blocks_invD [OF store_invD(3) [OF inv]]
  let ?b = "all_blocks s ! p"
  have pp: "p \<in> set (pending_blocks s)" using Some by (simp add: pending_blocks_alt opt_list_def)
  have bok: "block_ok cap ?b" using B(3) [OF pp] B(4) by simp
  have sz: "align_up (wb_pos ?b) 4096 = wb_pos ?b" and len: "wb_pos ?b \<le> length (wb_buf ?b)"
    using bok D(1) by (auto simp: block_ok_def config_ok_def intro!: align_up_self)
  obtain r where sw: "sync_write (se_io env) w (wb_segment_fd ?b) (take (wb_pos ?b) (wb_buf ?b))
      (wb_segment_offset ?b) = (r, w')"
    using fw Some by (auto simp: flush_write_def Let_def sz split: prod.splits)
  from B(5) [OF pp] obtain q0 g0 where g0: "(q0, g0) \<in> set (segments s)" "si_fd g0 = wb_segment_fd ?b"
    by (auto simp: placed_def)
  have fd: "opened w (wb_segment_fd ?b) = Some (si_path g0)" using segs_file(1) [OF D(2) g0(1)] g0(2) by simp
  note R = reliable_write [OF rel fd sw]
  have s': "segments s' = segments s" "seg_ptrs s' = seg_ptrs s" "next_segment_id s' = next_segment_id s"
    "active_segment s' = active_segment s" "active_block s' = active_block s" "flush_queue s' = flush_queue s"
    "all_blocks s' = all_blocks s" "flushing_block s' = None" "free_pool s' = free_pool s @ [p]"
    "bs_config s' = bs_config s" "flush_running s' = flush_running s"
    using fw Some sw by (auto simp: flush_write_def Let_def sz split: if_splits)
  have "mset (owners waiting s') = mset (owners waiting s)" by (simp add: owners_def s' opt_list_def Some)
  from mset_eq_imp_distinct_iff [OF this] mset_eq_setD [OF this] B(1)
  have own: "distinct (owners waiting s')" "set (owners waiting s') = set (owners waiting s)" by simp_all
  have sub: "set (pending_blocks s') \<subseteq> set (pending_blocks s)"
    and sup: "set (held waiting s) \<subseteq> insert p (set (held waiting s'))"
    by (auto simp: pending_blocks_alt held_def s' opt_list_def Some)
  have grow: "segs_grow s s'" by (simp add: s')
  have "blocks_inv cap waiting s'"
    unfolding blocks_inv_def own(2) s'(7) using own(1) B(2-5) sub placed_grow [OF grow] by blast
  moreover have "log_inv waiting (contents w') E s'"
    unfolding log_inv_def
  proof (intro ballI conjI)
    fix e
    assume e: "e \<in> E"
    note L = log_invD [OF D(5) e]
    show "below_end s' e" using grow L(1) by (rule below_end_grow)
    show "covers e (all_blocks s' ! q) \<or> apart e (all_blocks s' ! q)" if "q \<in> set (pending_blocks s')" for q
      using that sub L(2) s'(7) by auto
    have grow': "on_disk (contents w') s' e" if "on_disk (contents w') s e"
      using grow that by (rule on_disk_grow) simp
    have blank': "blank (contents w') s' e" if "blank (contents w') s e"
      using grow that by (rule blank_grow) simp
    have land: "on_disk (contents w') s e \<or> blank (contents w') s e"
      using L(2) [OF pp] L(4) flushed_on_disk [OF D(2) B(5) [OF pp] fd _ L(1) len]
        unflushed_on_disk [OF D(2) B(5) [OF pp] fd _ _ len] unflushed_blank [OF D(2) B(5) [OF pp] fd _ _ len]
      unfolding R(1) by blast
    then show "on_disk (contents w') s' e \<or> blank (contents w') s' e" using grow' blank' by blast
    show "(\<exists>q \<in> set (held waiting s'). covers e (all_blocks s' ! q)) \<or> on_disk (contents w') s' e"
    proof (cases "covers e ?b")
      case True
      then show ?thesis
        using flushed_on_disk [OF D(2) B(5) [OF pp] fd True L(1) len] R grow' by simp
    next
      case False
      then have "apart e ?b" using L(2) [OF pp] by blast
      with L(3) False sup show ?thesis
        using unflushed_on_disk [OF D(2) B(5) [OF pp] fd _ _ len, of e "contents w"] R grow' s'(7) by auto
    qed
  qed
  moreover have "disk_inv (contents w') s'"
    using disk_inv_write [OF D(2,6) B(5) [OF pp] fd] by (simp add: disk_inv_def s' R(1))
  moreover have "config_ok cap s'" "segs_inv (opened w') s'" "active_inv cap s'"
    using D(1,2,4) R by (simp_all add: config_ok_def segs_inv_def active_inv_def s')
  ultimately show ?thesis by (simp add: store_inv_def)
qed

section \<open>The writer keeps the contract\<close>

lemma length_entry_image:
  assumes "length reserved = 10" and "64 + length data \<le> disk_size"
  shows "length (entry_image key data checksum sequence disk_size reserved) = disk_size"
  using assms by (simp add: entry_image_def length_entry_header_bytes)

definition counted :: "nat \<Rightarrow> SegmentInfo \<Rightarrow> SegmentInfo" where
  "counted d g = g\<lparr>si_write_offset := wrap64 (si_write_offset g + d), si_entry_count := si_entry_count g + 1,
     si_live_count := si_live_count g + 1\<rparr>"

lemma count_entry_frame:
  "segments (count_entry q d s) = map (\<lambda>(p, g). if p = q then (p, counted d g) else (p, g)) (segments s)"
  "seg_ptrs (count_entry q d s) = seg_ptrs s" "next_segment_id (count_entry q d s) = next_segment_id s"
  "active_segment (count_entry q d s) = active_segment s" "active_block (count_entry q d s) = active_block s"
  "flush_queue (count_entry q d s) = flush_queue s" "free_pool (count_entry q d s) = free_pool s"
  "flushing_block (count_entry q d s) = flushing_block s" "all_blocks (count_entry q d s) = all_blocks s"
  "bs_config (count_entry q d s) = bs_config s" "flush_running (count_entry q d s) = flush_running s"
  by (auto simp: count_entry_def update_segment_def counted_def)

lemma count_entry_in:
  "(p, g) \<in> set (segments s) \<Longrightarrow> (p, if p = q then counted d g else g) \<in> set (segments (count_entry q d s))"
  by (force simp: count_entry_frame image_iff)

lemma count_entry_segs:
  assumes "segs_inv fds s"
  shows "segs_inv fds (count_entry q d s)"
proof -
  have "map fst (segments (count_entry q d s)) = map fst (segments s)"
    "map (si_id \<circ> snd) (segments (count_entry q d s)) = map (si_id \<circ> snd) (segments s)"
    "map (si_fd \<circ> snd) (segments (count_entry q d s)) = map (si_fd \<circ> snd) (segments s)"
    by (auto simp: count_entry_frame counted_def)
  moreover have "\<forall>(p, g) \<in> set (segments (count_entry q d s)). p < seg_ptrs s \<and> si_id g < next_segment_id s \<and>
      0 \<le> si_fd g \<and> fds (si_fd g) = Some (si_path g) \<and> si_path g = seg_file (bs_config s) (si_id g)"
    using assms unfolding segs_inv_def count_entry_frame by (force simp: counted_def split: if_splits)
  ultimately show ?thesis
    using assms unfolding segs_inv_def count_entry_frame(2,3,10) by simp
qed

lemma count_entry_grow:
  assumes "segs_inv fds s" and "(q, g) \<in> set (segments s)" and "si_write_offset g + d < 2 ^ 64"
  shows "segs_grow s (count_entry q d s)"
  unfolding segs_grow_def
proof (intro ballI, clarify)
  fix p h
  assume h: "(p, h) \<in> set (segments s)"
  have "si_write_offset h \<le> wrap64 (si_write_offset h + d)" if "p = q"
    using segs_unique(3) [OF assms(1) h assms(2)] that assms(3) by (simp add: wrap64_id)
  then show "\<exists>g'. (p, g') \<in> set (segments (count_entry q d s)) \<and> si_id g' = si_id h \<and> si_fd g' = si_fd h \<and>
      si_path g' = si_path h \<and> si_write_offset h \<le> si_write_offset g'"
    using count_entry_in [OF h, of q d]
    by (intro exI [of _ "if p = q then counted d h else h"]) (simp add: counted_def)
qed

lemma append_entry_props:
  assumes "block_ok cap b" and "wb_pos b + d \<le> cap" and "64 + length data \<le> d" and "4096 dvd d"
    and b'_def: "b' = append_entry key data checksum sequence d b"
  shows "block_ok cap b'" and "wb_pos b' = wb_pos b + d" and "wb_segment_id b' = wb_segment_id b"
    and "wb_segment_offset b' = wb_segment_offset b" and "wb_segment_fd b' = wb_segment_fd b"
    and "take (wb_pos b) (wb_buf b') = take (wb_pos b) (wb_buf b)"
    and "\<exists>reserved. length reserved = 10 \<and>
      take d (drop (wb_pos b) (wb_buf b')) = entry_image key data checksum sequence d reserved"
proof -
  let ?r = "take 10 (drop (wb_pos b + 54) (wb_buf b))"
  have r: "length ?r = 10" using assms(1-3) by (simp add: block_ok_def)
  note li = length_entry_image [OF r assms(3), of key checksum sequence]
  show "block_ok cap b'" using assms(1,2,4) li by (simp add: b'_def append_entry_def Let_def block_ok_def)
  show "wb_pos b' = wb_pos b + d" "wb_segment_id b' = wb_segment_id b"
    "wb_segment_offset b' = wb_segment_offset b" "wb_segment_fd b' = wb_segment_fd b"
    by (simp_all add: b'_def append_entry_def Let_def)
  show "take (wb_pos b) (wb_buf b') = take (wb_pos b) (wb_buf b)"
    using assms(1) by (simp add: b'_def append_entry_def Let_def block_ok_def)
  show "\<exists>reserved. length reserved = 10 \<and>
      take d (drop (wb_pos b) (wb_buf b')) = entry_image key data checksum sequence d reserved"
    using assms(1) li r by (intro exI [of _ ?r]) (simp add: b'_def append_entry_def Let_def block_ok_def)
qed

lemma read_prefix:
  assumes "take m xs = take m ys" and "k + n \<le> m"
  shows "take n (drop k xs) = take n (drop k ys)"
proof -
  have "take n (drop k zs) = drop k (take (k + n) (take m zs))" for zs :: "'a list"
    using assms(2) by (simp add: take_drop min_absorb1 add.commute)
  then show ?thesis using assms(1) by metis
qed

lemma covers_extend:
  assumes "covers e b" and "wb_segment_id b' = wb_segment_id b" and "wb_segment_offset b' = wb_segment_offset b"
    and "wb_pos b \<le> wb_pos b'" and "take (wb_pos b) (wb_buf b') = take (wb_pos b) (wb_buf b)"
  shows "covers e b'"
proof (cases e)
  case (fields sid off img)
  have "take (length img) (drop (off - wb_segment_offset b) (wb_buf b')) =
      take (length img) (drop (off - wb_segment_offset b) (wb_buf b))"
    using assms(1,5) fields by (intro read_prefix [of "wb_pos b"]) (auto simp: covers_def)
  then show ?thesis using assms fields by (auto simp: covers_def)
qed

text \<open>Appending an entry that fits to the active block.\<close>

lemma write_append_inv:
  assumes inv: "store_inv cap waiting fds files E s" and act: "active_block s = Some p"
    and fit: "wb_pos (all_blocks s ! p) + d \<le> cap" and d: "64 + length data \<le> d" "4096 dvd d"
    and wa: "write_append key data checksum d p s = (r, s')"
  obtains sid off reserved where "r = Returned kOk (Some (make_location sid off (length data) d))"
    "length reserved = 10" "active_block s' = Some p"
    "store_inv cap waiting fds files
       (if waiting then E else insert (sid, off, entry_image key data checksum (write_sequence s) d reserved) E) s'"
proof -
  note D = store_invD [OF inv] and B = blocks_invD [OF store_invD(3) [OF inv]]
  let ?b = "all_blocks s ! p"
  from D(4) act obtain q g where q: "active_segment s = Some q" "(q, g) \<in> set (segments s)"
    "wb_segment_id ?b = si_id g" "wb_segment_fd ?b = si_fd g" "si_write_offset g = wb_segment_offset ?b + wb_pos ?b"
    "wb_segment_offset ?b + cap \<le> 2 ^ 63" "4096 \<le> si_write_offset g"
    by (auto simp: active_inv_def Let_def)
  have pp: "p \<in> set (pending_blocks s)" by (simp add: pending_blocks_alt opt_list_def act)
  have pl: "p < length (all_blocks s)" and bok: "block_ok cap ?b" using B(3) [OF pp] B(4) by simp_all
  define b' where "b' = append_entry key data checksum (write_sequence s) d ?b"
  note A = append_entry_props [OF bok fit d b'_def]
  obtain reserved where res: "length reserved = 10"
    "take d (drop (wb_pos ?b) (wb_buf b')) = entry_image key data checksum (write_sequence s) d reserved"
    using A(7) by blast
  let ?img = "entry_image key data checksum (write_sequence s) d reserved"
  let ?off = "wb_segment_offset ?b + wb_pos ?b"
  let ?e = "(si_id g, ?off, ?img)"
  define t where "t = s\<lparr>all_blocks := (all_blocks s)[p := b'], write_sequence := write_sequence s + 1\<rparr>"
  have lt: "?off + d < 2 ^ 64" using fit q(6) by simp
  then have w: "wrap64 ?off = ?off" by (intro wrap64_id) simp
  have out: "r = Returned kOk (Some (make_location (si_id g) ?off (length data) d))" and s': "s' = count_entry q d t"
    using wa q(1) by (auto simp: write_append_def Let_def w q(3) t_def b'_def)
  have li: "length ?img = d" using res(1) d(1) by (rule length_entry_image)
  have d0: "0 < d" using d(1) by simp
  have tin: "(q, g) \<in> set (segments t)" and tsegs: "segs_inv fds t" using q(2) D(2) by (simp_all add: t_def segs_inv_def)
  have grow: "segs_grow s s'"
    using count_entry_grow [OF tsegs tin, of d] lt q(5) unfolding s' segs_grow_def by (simp add: t_def)
  have blk: "all_blocks s' = (all_blocks s)[p := b']" by (simp add: s' count_entry_frame t_def)
  have same: "pending_blocks s' = pending_blocks s" "owners waiting s' = owners waiting s" "held waiting s' = held waiting s"
    by (simp_all add: pending_blocks_alt owners_def held_def s' count_entry_frame t_def)
  have g': "(q, counted d g) \<in> set (segments s')" using count_entry_in [OF tin, of q d] by (simp add: s')
  have g'o: "si_write_offset (counted d g) = ?off + d" using lt q(5) by (simp add: counted_def wrap64_id)
  have old: "all_blocks s' ! x = all_blocks s ! x" if "x \<noteq> p" for x using that by (simp add: blk)
  have new: "all_blocks s' ! p = b'" using pl by (simp add: blk)
  have bl: "blocks_inv cap waiting s'"
    unfolding blocks_inv_def same
  proof (intro conjI ballI)
    show "distinct (owners waiting s)" by (rule B(1))
    show "x < length (all_blocks s')" if "x \<in> set (owners waiting s) \<union> set (pending_blocks s)" for x
      using that B(2,3) by (auto simp: blk)
    show "block_ok cap b" if "b \<in> set (all_blocks s')" for b
      using that A(1) B(4) set_update_subset_insert [of "all_blocks s" p b'] by (auto simp: blk)
    show "placed s' (all_blocks s' ! x)" if x: "x \<in> set (pending_blocks s)" for x
    proof (cases "x = p")
      case True
      have "placed s' b'"
        unfolding placed_def A(2-5) using g' g'o q(3,4) lt B(5) [OF pp, unfolded placed_def]
        by (intro conjI exI [of _ q] exI [of _ "counted d g"]) (simp_all add: counted_def)
      then show ?thesis using True new by simp
    next
      case False
      then show ?thesis using placed_grow [OF grow B(5) [OF x]] old by simp
    qed
  qed
  have ac: "active_inv cap s'"
    unfolding active_inv_def Let_def
  proof (intro exI conjI impI)
    show "active_block s' = Some p" "active_segment s' = Some q" "(q, counted d g) \<in> set (segments s')"
      using act q(1) g' by (simp_all add: s' count_entry_frame t_def)
    show "4096 \<le> si_write_offset (counted d g)" "si_write_offset (counted d g) \<le> 2 ^ 63" using g'o fit q(5,6,7) by simp_all
  qed (use A new g'o q in \<open>simp_all add: counted_def\<close>)
  have here: "covers ?e (all_blocks s' ! p)"
    unfolding covers_def new prod.case A(2-5) li using res(2) q(3) by simp
  have kept: "covers e (all_blocks s' ! x)" if "e \<in> E" "x \<in> set (pending_blocks s)" "covers e (all_blocks s ! x)" for e x
  proof (cases "x = p")
    case True
    then have "covers e ?b" using that(3) by simp
    then show ?thesis unfolding True new using A(3,4) _ A(6) by (rule covers_extend) (simp add: A(2))
  next
    case False
    then show ?thesis using that(3) old by simp
  qed
  have beyond: "covers e b' \<or> apart e b'" if "e \<in> E" "\<not> covers e ?b" for e
  proof -
    obtain sid o' img where e: "e = (sid, o', img)" by (cases e)
    have "apart e ?b" using log_invD(2) [OF D(5) that(1) pp] that(2) by blast
    moreover have "o' < ?off" if "sid = si_id g"
    proof -
      from log_invD(1) [OF D(5) \<open>e \<in> E\<close>] obtain p1 g1 where "img \<noteq> []" "(p1, g1) \<in> set (segments s)" "si_id g1 = sid"
        "o' + length img \<le> si_write_offset g1" by (auto simp: below_end_def e)
      then show ?thesis using segs_unique(1) [OF D(2) _ q(2), of p1 g1] that q(5) by (cases img) auto
    qed
    ultimately show ?thesis using q(3) by (auto simp: apart_def e A(2-5))
  qed
  have lg: "log_inv waiting files (if waiting then E else insert ?e E) s'"
    unfolding log_inv_def same
  proof (intro ballI conjI)
    fix e
    assume "e \<in> (if waiting then E else insert ?e E)"
    then have e: "e \<in> insert ?e E" and new_e: "e = ?e \<Longrightarrow> e \<notin> E \<Longrightarrow> \<not> waiting" by (auto split: if_splits)
    show "below_end s' e"
    proof (cases "e = ?e")
      case True
      then show ?thesis
        using g' g'o li d0 q(5,7) unfolding below_end_def True prod.case
        by (auto simp: counted_def intro!: exI [of _ q] exI [of _ "counted d g"])
    next
      case False
      then show ?thesis using e log_invD(1) [OF D(5)] below_end_grow [OF grow] by blast
    qed
    show "covers e (all_blocks s' ! x) \<or> apart e (all_blocks s' ! x)" if x: "x \<in> set (pending_blocks s)" for x
    proof (cases "e = ?e")
      case True
      then show ?thesis
      proof (cases "x = p")
        case True
        then show ?thesis using here \<open>e = ?e\<close> by blast
      next
        case False
        have "apart ?e (all_blocks s ! x)"
          using B(5) [OF x] segs_unique(1) [OF D(2) q(2)] q(5) unfolding apart_def placed_def prod.case by fastforce
        then show ?thesis using True old [OF False] by simp
      qed
    next
      case False
      then have e': "e \<in> E" using e by blast
      show ?thesis
      proof (cases "x = p")
        case True
        then show ?thesis using kept [OF e' pp] beyond [OF e'] new by metis
      next
        case xp: False
        then show ?thesis using log_invD(2) [OF D(5) e' x] old by simp
      qed
    qed
    show "(\<exists>x \<in> set (held waiting s). covers e (all_blocks s' ! x)) \<or> on_disk files s' e"
    proof (cases "e \<in> E")
      case True
      have "on_disk files s' e" if "on_disk files s e" using grow that by (rule on_disk_grow) simp
      then show ?thesis using log_invD(3) [OF D(5) True] kept [OF True held_pending] by blast
    next
      case False
      then have "e = ?e" "\<not> waiting" using e new_e by blast+
      then show ?thesis using here pp by (auto simp: held_False)
    qed
    show "on_disk files s' e \<or> blank files s' e"
    proof (cases "e \<in> E")
      case True
      show ?thesis using grow log_invD(4) [OF D(5) True] by (rule landed_grow) simp
    next
      case False
      have "length (file_bytes files (si_path g)) \<le> ?off" using D(6) q(2,5) by (fastforce simp: disk_inv_def)
      then have "blank files s ?e" unfolding blank_def prod.case using q(2) by (intro exI [of _ q] exI [of _ g]) simp
      then show ?thesis using blank_grow [OF grow _ refl] e False by blast
    qed
  qed
  have "config_ok cap s'" using D(1) by (simp add: config_ok_def s' count_entry_frame t_def)
  moreover have "disk_inv files s'"
  proof -
    have "files (si_path h) \<noteq> None \<and> length (file_bytes files (si_path h)) \<le> si_write_offset h" if "(x, h) \<in> set (segments s')" for x h
    proof -
      from that obtain h0 where h0: "(x, h0) \<in> set (segments s)" "h = (if x = q then counted d h0 else h0)"
        by (auto simp: s' count_entry_frame t_def split: if_splits)
      moreover have "x = q \<Longrightarrow> h0 = g" using segs_unique(3) [OF D(2) h0(1) q(2)] .
      ultimately show ?thesis using D(6) g'o q(5) by (fastforce simp: disk_inv_def counted_def split: if_splits)
    qed
    moreover have "own_files (bs_config s') (next_segment_id s') files"
      using D(6) by (simp add: disk_inv_def s' count_entry_frame t_def)
    ultimately show ?thesis unfolding disk_inv_def by blast
  qed
  ultimately have "store_inv cap waiting fds files (if waiting then E else insert ?e E) s'"
    using bl ac lg count_entry_segs [OF tsegs] by (simp add: store_inv_def s')
  moreover have "active_block s' = Some p" using act by (simp add: s' count_entry_frame t_def)
  ultimately show ?thesis using that out res(1) by blast
qed

text \<open>A new segment starts after its header and disturbs nothing.\<close>

lemma create_new_segment_props:
  assumes rel: "reliable env contents opened" and segs: "segs_inv (opened w) s" and disk: "disk_inv (contents w) s"
    and ids: "next_segment_id s < UINT32_MAX" and cr: "create_new_segment env (s, w) = (s', w')"
  obtains q g where "active_segment s' = Some q" "(q, g) \<in> set (segments s')" "si_write_offset g = 4096"
    "segs_inv (opened w') s'" "segs_grow s s'"
    "\<And>p h. (p, h) \<in> set (segments s) \<Longrightarrow> file_bytes (contents w') (si_path h) = file_bytes (contents w) (si_path h)"
    "all_blocks s' = all_blocks s" "active_block s' = active_block s" "flushing_block s' = flushing_block s"
    "flush_queue s' = flush_queue s" "free_pool s' = free_pool s" "bs_config s' = bs_config s"
    "flush_running s' = flush_running s" "write_sequence s' = write_sequence s" "si_id g = next_segment_id s"
    "next_segment_id s' = Suc (next_segment_id s)" "disk_inv (contents w') s'"
proof -
  let ?sid = "next_segment_id s"
  let ?path = "seg_file (bs_config s) ?sid"
  have nx: "wrap32 (Suc ?sid) = Suc ?sid" using ids by (intro wrap32_id) simp
  obtain fd w1 where o1: "open_segment_fd env ?path True w = (fd, w1)" by fastforce
  note R = reliable_open [OF rel o1, simplified]
  let ?g = "\<lparr>si_id = ?sid, si_fd = fd, si_write_offset = 4096, si_entry_count = 0, si_live_count = 0,
    si_file_size = 0, si_path = ?path\<rparr>"
  have eq: "s' = s\<lparr>next_segment_id := Suc ?sid, active_segment := Some (seg_ptrs s),
      segments := segments s @ [(seg_ptrs s, ?g)], seg_ptrs := Suc (seg_ptrs s)\<rparr>"
    and w': "w' = write_segment_header env fd ?g w1"
    using cr o1 R(1) by (auto simp: create_new_segment_def Let_def nx segment_path_file)
  obtain hdr r where hw: "sync_write (se_io env) w1 fd (segment_header_bytes hdr) 0 = (r, w')"
    and hdr: "length (sh_reserved hdr) = 4064" "sh_magic hdr = kSegmentMagic"
    unfolding w' write_segment_header_def Let_def by (metis SegmentHeader.select_convs(1,8) length_replicate prod.collapse)
  have "opened w1 fd = Some ?path" using R(3) by simp
  note W = reliable_write [OF rel this hw]
  have c: "contents w' = (contents w)(?path \<mapsto> overwrite [] 0 (segment_header_bytes hdr))" using W(1) R(4) by simp
  have op: "opened w' = (opened w)(fd \<mapsto> ?path)" using W(2) unfolding R(3) .
  have other: "si_fd h \<noteq> fd" if "(p, h) \<in> set (segments s)" for p h
    using segs_file(1) [OF segs that] R(2) by auto
  have other': "si_path h \<noteq> ?path" if "(p, h) \<in> set (segments s)" for p h
    using segs_file [OF segs that] seg_file_inj [of "bs_config s" "si_id h" ?sid] segs that by (auto simp: segs_inv_def)
  have "segs_inv (opened w') s'"
    using segs R(1) other ids unfolding segs_inv_def eq op by (fastforce simp: image_iff)
  moreover have "disk_inv (contents w') s'"
    using disk own_files_create [OF _ _ valid_header_new [OF hdr, of "[]"]] ids other'
      overwrite_length_bound [of "[]" 0 "segment_header_bytes hdr"] length_segment_header_bytes [OF hdr(1)]
    by (auto simp: disk_inv_def eq c)
  ultimately show ?thesis
    using other' c by (intro that [of "seg_ptrs s" ?g]) (auto simp: eq segs_grow_def)
qed

lemma log_inv_covered:
  assumes "log_inv True files E s" and "segs_grow s s'"
    and files: "\<And>p g. (p, g) \<in> set (segments s) \<Longrightarrow> file_bytes files' (si_path g) = file_bytes files (si_path g)"
    and pend: "set (pending_blocks s') = insert p (set (held True s))"
    and blocks: "\<And>x. x \<in> set (held True s) \<Longrightarrow> all_blocks s' ! x = all_blocks s ! x"
    and new: "\<And>e. e \<in> E \<Longrightarrow> apart e (all_blocks s' ! p)"
  shows "log_inv False files' E s'"
  unfolding log_inv_def
proof (intro ballI conjI)
  fix e
  assume e: "e \<in> E"
  note L = log_invD [OF assms(1) e]
  show "below_end s' e" using assms(2) L(1) by (rule below_end_grow)
  show "covers e (all_blocks s' ! x) \<or> apart e (all_blocks s' ! x)" if "x \<in> set (pending_blocks s')" for x
    using that pend new [OF e] L(2) blocks held_pending by (metis insertE)
  show "on_disk files' s' e \<or> blank files' s' e" using assms(2) L(4) files by (rule landed_grow)
  have "on_disk files' s' e" if "on_disk files s e" using assms(2) that files by (rule on_disk_grow)
  then show "(\<exists>x \<in> set (held False s'). covers e (all_blocks s' ! x)) \<or> on_disk files' s' e"
    using L(3) blocks unfolding held_False pend by auto
qed

text \<open>The acquired block is reset to the end of the active segment.\<close>

lemma activate_inv:
  assumes inv: "store_inv cap True fds files E s" and p: "free_pool s = ps @ [p]"
    and grow: "segs_grow s t" and segs: "segs_inv fds' t" and disk: "disk_inv files' t"
    and files: "\<And>p g. (p, g) \<in> set (segments s) \<Longrightarrow> file_bytes files' (si_path g) = file_bytes files (si_path g)"
    and t: "all_blocks t = all_blocks s" "active_block t = Some p" "flushing_block t = flushing_block s"
      "flush_queue t = flush_queue s" "free_pool t = ps" "bs_config t = bs_config s" "flush_running t = flush_running s"
    and q: "active_segment t = Some q" "(q, g) \<in> set (segments t)" "si_write_offset g + cap \<le> 2 ^ 63" "4096 \<le> si_write_offset g"
    and s': "s' = t\<lparr>all_blocks := (all_blocks t)[p := reset (si_id g) (si_write_offset g) (si_fd g) (all_blocks t ! p)]\<rparr>"
  shows "store_inv cap False fds' files' E s'"
proof -
  note D = store_invD [OF inv] and B = blocks_invD [OF store_invD(3) [OF inv]]
  have po: "p \<in> set (owners True s)" by (simp add: owners_def p)
  have pl: "p < length (all_blocks s)" using B(2) [OF po] .
  have bok: "block_ok cap (all_blocks s ! p)" using B(4) pl by simp
  have "mset (owners False s') = mset (owners True s)"
    by (simp add: owners_def s' t p opt_list_def)
  from mset_eq_imp_distinct_iff [OF this] mset_eq_setD [OF this] B(1)
  have own: "distinct (owners False s')" "set (owners False s') = set (owners True s)" by simp_all
  have pend: "set (pending_blocks s') = insert p (set (held True s))"
    by (simp add: pending_blocks_alt held_def s' t opt_list_def)
  have out: "p \<notin> set (held True s)" using B(1) by (auto simp: owners_def held_def p)
  have np: "all_blocks s' ! p = reset (si_id g) (si_write_offset g) (si_fd g) (all_blocks s ! p)"
    using pl by (simp add: s' t)
  have old: "all_blocks s' ! x = all_blocks s ! x" if "x \<in> set (held True s)" for x
    using that out by (cases "x = p") (simp_all add: s' t)
  have grow': "segs_grow s s'" using grow by (simp add: segs_grow_def s')
  have g': "(q, g) \<in> set (segments s')" "active_segment s' = Some q" "active_block s' = Some p"
    using q t by (simp_all add: s')
  have le: "si_write_offset g < 2 ^ 64" using q(3) by simp
  have bl: "blocks_inv cap False s'"
    unfolding blocks_inv_def
  proof (intro conjI ballI)
    show "distinct (owners False s')" by (rule own)
    show "x < length (all_blocks s')" if "x \<in> set (owners False s') \<union> set (pending_blocks s')" for x
      using that own(2) pend B(2,3) pl held_pending by (auto simp: s' t)
    show "block_ok cap b" if "b \<in> set (all_blocks s')" for b
    proof -
      have "block_ok cap (reset (si_id g) (si_write_offset g) (si_fd g) (all_blocks s ! p))"
        using bok by (simp add: reset_def block_ok_def)
      moreover have "b = reset (si_id g) (si_write_offset g) (si_fd g) (all_blocks s ! p) \<or> b \<in> set (all_blocks s)"
        using that subsetD [OF set_update_subset_insert] by (fastforce simp: s' t)
      ultimately show ?thesis using B(4) by blast
    qed
    show "placed s' (all_blocks s' ! x)" if "x \<in> set (pending_blocks s')" for x
    proof (cases "x = p")
      case True
      then show ?thesis
        using g' le np q(4) unfolding placed_def by (auto simp: reset_def intro!: exI [of _ q] exI [of _ g])
    next
      case False
      then have "x \<in> set (held True s)" using that pend by simp
      then show ?thesis using placed_grow [OF grow' B(5) [OF held_pending]] old by simp
    qed
  qed
  have ap: "apart e (all_blocks s' ! p)" if "e \<in> E" for e
  proof -
    obtain sid off img where e: "e = (sid, off, img)" by (cases e)
    have "below_end s' e" using log_invD(1) [OF D(5) that] by (rule below_end_grow [OF grow'])
    then obtain q1 g1 where g1: "(q1, g1) \<in> set (segments t)" "si_id g1 = sid" "off + length img \<le> si_write_offset g1"
      by (auto simp: below_end_def e s')
    have "g1 = g" if "sid = si_id g" using segs_unique(1) [OF segs g1(1) q(2)] g1(2) that by simp
    with g1(3) show ?thesis unfolding np apart_def e prod.case by (auto simp: reset_def)
  qed
  have "log_inv False files' E s'"
    using files old ap by (intro log_inv_covered [OF D(5) grow' _ pend])
  moreover have "active_inv cap s'"
    using g' q(3,4) np unfolding active_inv_def Let_def
    by (intro exI [of _ p] exI [of _ q] exI [of _ g]) (simp add: reset_def)
  moreover have "config_ok cap s'" "segs_inv fds' s'" "disk_inv files' s'"
    using D(1) segs disk by (simp_all add: config_ok_def segs_inv_def disk_inv_def s' t)
  ultimately show ?thesis using bl by (simp add: store_inv_def)
qed

text \<open>
  The first half of \<open>acquire_block\<close>'s caller: the last free block becomes the active one, at the
  end of the active segment or of a new one.
\<close>

lemma write_acquire_activates:
  assumes rel: "reliable env contents opened" and inv: "store_inv cap True (opened w) (contents w) E s"
    and free: "free_pool s \<noteq> []" and ids: "next_segment_id s < UINT32_MAX"
  obtains v u q g where "store_inv cap False (opened v) (contents v) E u" "active_block u = Some (last (free_pool s))"
    "write_acquire env key data checksum d (s, w) = (case write_append key data checksum d (last (free_pool s)) u of (r, s) \<Rightarrow> (r, s, v))"
    "write_sequence u = write_sequence s" "flushing_block u = flushing_block s" "flush_queue u = flush_queue s" "segs_grow s u"
    "(q, g) \<in> set (segments u)" "all_blocks u ! last (free_pool s) =
       reset (si_id g) (si_write_offset g) (si_fd g) (all_blocks s ! last (free_pool s))"
    "\<And>p h. (p, h) \<in> set (segments s) \<Longrightarrow> file_bytes (contents v) (si_path h) = file_bytes (contents w) (si_path h)"
proof -
  note D = store_invD [OF inv]
  define p where "p = last (free_pool s)"
  have fp: "free_pool s = butlast (free_pool s) @ [p]" using free by (simp add: p_def)
  define s1 where "s1 = s\<lparr>free_pool := butlast (free_pool s), active_block := Some p\<rparr>"
  have segs1: "segs_inv (opened w) s1" "disk_inv (contents w) s1"
    using D(2,6) by (simp_all add: segs_inv_def disk_inv_def s1_def)
  have grow1: "segs_grow s s1" by (simp add: s1_def)
  from D(4) obtain q0 g0 where g0: "active_segment s = Some q0" "(q0, g0) \<in> set (segments s)"
    "si_write_offset g0 \<le> 2 ^ 63" "4096 \<le> si_write_offset g0" by (auto simp: active_inv_def)
  have sg0: "seg_of s1 q0 = g0" using segs_lookup(2) [OF segs1(1), of q0 g0] g0(2) by (simp add: s1_def)
  have "p \<in> set (owners True s)" using fp by (metis in_set_conv_decomp owners_def Un_iff set_append)
  then have capp: "wb_capacity (all_blocks s ! p) = cap"
    using blocks_invD(2,4) [OF D(3)] by (simp add: block_ok_def)
  have cap: "cap < 2 ^ 32" and ssz: "nv_segment_size (bs_config s) < 2 ^ 63" using D(1) by (simp_all add: config_ok_def)
  have nowrap: "wrap64 (si_write_offset g0 + cap) = si_write_offset g0 + cap" using g0(3) cap by (intro wrap64_id) simp
  define full where "full \<longleftrightarrow> nv_segment_size (bs_config s) < si_write_offset g0 + cap"
  obtain t v where t: "(if full then create_new_segment env (s1, w) else (s1, w)) = (t, v)" by fastforce
  obtain q g where q: "active_segment t = Some q" "(q, g) \<in> set (segments t)" "si_write_offset g + cap \<le> 2 ^ 63" "4096 \<le> si_write_offset g"
    and tv: "segs_inv (opened v) t" "segs_grow s t" "disk_inv (contents v) t"
      "\<And>p h. (p, h) \<in> set (segments s) \<Longrightarrow> file_bytes (contents v) (si_path h) = file_bytes (contents w) (si_path h)"
    and te: "all_blocks t = all_blocks s" "active_block t = Some p" "flushing_block t = flushing_block s"
      "flush_queue t = flush_queue s" "free_pool t = butlast (free_pool s)" "bs_config t = bs_config s"
      "flush_running t = flush_running s" "write_sequence t = write_sequence s"
  proof (cases full)
    case True
    then have cr: "create_new_segment env (s1, w) = (t, v)" using t by simp
    have ids1: "next_segment_id s1 < UINT32_MAX" using ids by (simp add: s1_def)
    show ?thesis
    proof (rule create_new_segment_props [OF rel segs1 ids1 cr], goal_cases)
      case (1 q g)
      then show ?thesis using cap by (intro that [of q g]) (simp_all add: s1_def segs_grow_def)
    qed
  next
    case False
    then have "t = s1" "v = w" using t by simp_all
    then show ?thesis
      using g0 False segs1 grow1 ssz by (intro that [of q0 g0]) (simp_all add: s1_def full_def)
  qed
  have sg: "seg_of t q = g" using segs_lookup(2) [OF tv(1) q(2)] .
  have fd: "0 \<le> si_fd g" using tv(1) q(2) by (auto simp: segs_inv_def)
  define u where "u = t\<lparr>all_blocks := (all_blocks t)[p := reset (si_id g) (si_write_offset g) (si_fd g) (all_blocks t ! p)]\<rparr>"
  have iu: "store_inv cap False (opened v) (contents v) E u"
    using activate_inv [OF inv fp tv(2,1,3) _ te(1-7) q u_def] tv(4) by blast
  have au: "active_block u = Some p" using te(2) by (simp add: u_def)
  have s1: "active_segment s1 = Some q0" "wb_capacity (all_blocks s1 ! p) = cap" "bs_config s1 = bs_config s"
    using g0(1) capp by (simp_all add: s1_def)
  have out: "write_acquire env key data checksum d (s, w) = (case write_append key data checksum d p u of (r, s) \<Rightarrow> (r, s, v))"
    unfolding write_acquire_def prod.case Let_def p_def [symmetric] s1_def [symmetric]
    using free fd by (simp add: s1 sg0 nowrap full_def [symmetric] t q(1) sg u_def)
  moreover have "all_blocks u ! p = reset (si_id g) (si_write_offset g) (si_fd g) (all_blocks s ! p)"
    using blocks_invD(2) [OF D(3), of p] \<open>p \<in> set (owners True s)\<close> by (simp add: u_def te)
  moreover have "segs_grow s u" using tv(2) by (simp add: segs_grow_def u_def)
  ultimately show thesis
    using that [of v u q g] iu au te q(2) tv(4) by (simp add: u_def p_def)
qed

lemma write_acquire_inv:
  assumes rel: "reliable env contents opened" and inv: "store_inv cap True (opened w) (contents w) E s"
    and free: "free_pool s \<noteq> []" and ids: "next_segment_id s < UINT32_MAX"
    and d: "64 + length data \<le> d" "4096 dvd d" "d \<le> cap"
    and wa: "write_acquire env key data checksum d (s, w) = (r, s', w')"
  obtains sid off reserved where "r = Returned kOk (Some (make_location sid off (length data) d))" "length reserved = 10"
    "store_inv cap False (opened w') (contents w')
       (insert (sid, off, entry_image key data checksum (write_sequence s) d reserved) E) s'"
proof (rule write_acquire_activates [OF rel inv free ids, where key = key and data = data and checksum = checksum and d = d])
  let ?p = "last (free_pool s)"
  fix v u q g
  assume u: "store_inv cap False (opened v) (contents v) E u" "active_block u = Some ?p"
    and wr: "write_acquire env key data checksum d (s, w) = (case write_append key data checksum d ?p u of (r, s) \<Rightarrow> (r, s, v))"
    and seq: "write_sequence u = write_sequence s"
    and blk: "all_blocks u ! ?p = reset (si_id g) (si_write_offset g) (si_fd g) (all_blocks s ! ?p)"
  have out: "write_append key data checksum d ?p u = (r, s')" "w' = v" using wa wr by (auto split: prod.splits)
  have fit: "wb_pos (all_blocks u ! ?p) + d \<le> cap" using d(3) blk by (simp add: reset_def)
  show thesis
  proof (rule write_append_inv [OF u fit d(1,2) out(1)], goal_cases)
    case (1 sid off reserved)
    then show ?thesis using that [of sid off reserved] seq out(2) by simp
  qed
qed

text \<open>Giving up the full active block.\<close>

lemma rotate_inv:
  assumes inv: "store_inv cap False fds files E s" and act: "active_block s = Some p"
  shows "store_inv cap True fds files E (s\<lparr>flush_queue := flush_queue s @ [p]\<rparr>)" (is "store_inv _ _ _ _ _ ?s")
proof -
  note D = store_invD [OF inv] and B = blocks_invD [OF store_invD(3) [OF inv]]
  have "mset (owners True ?s) = mset (owners False s)" by (simp add: owners_def act opt_list_def)
  from mset_eq_imp_distinct_iff [OF this] mset_eq_setD [OF this] B(1)
  have own: "distinct (owners True ?s)" "set (owners True ?s) = set (owners False s)" by simp_all
  have pend: "set (pending_blocks ?s) = set (pending_blocks s)" by (auto simp: pending_blocks_alt act opt_list_def)
  have grow: "segs_grow s ?s" by simp
  have held: "set (held False s) \<subseteq> set (held True ?s)" by (auto simp: held_def act opt_list_def)
  have "blocks_inv cap True ?s"
    unfolding blocks_inv_def own(2) pend using own(1) B(2-5) placed_grow [OF grow] by auto
  moreover have "log_inv True files E ?s"
    by (rule log_inv_frame [OF D(5) grow _ pend _ held]) simp_all
  moreover have "config_ok cap ?s" "segs_inv fds ?s" "active_inv cap ?s" "disk_inv files ?s"
    using D(1,2,4,6) by (auto simp: config_ok_def segs_inv_def active_inv_def disk_inv_def)
  ultimately show ?thesis by (simp add: store_inv_def)
qed

text \<open>
  A write of an entry that fits a block: it is acknowledged, or the writer waits with the
  block it filled on the queue.
\<close>

lemma blob_write_inv:
  assumes rel: "reliable env contents opened" and inv: "store_inv cap False (opened w) (contents w) E s"
    and ids: "next_segment_id s < UINT32_MAX"
    and len: "length data \<le> UINT32_MAX - 64" and fits: "entry_disk_size (length data) \<le> cap"
    and bw: "blob_write env key data checksum (s, w) = (r, s', w')"
  obtains (stored) sid off reserved where
      "r = Returned kOk (Some (make_location sid off (length data) (entry_disk_size (length data))))"
      "length reserved = 10" "store_inv cap False (opened w') (contents w')
         (insert (sid, off, entry_image key data checksum (write_sequence s) (entry_disk_size (length data)) reserved) E) s'"
  | (waits) "r = Waiting" "w' = w" "store_inv cap True (opened w) (contents w) E s'" "write_sequence s' = write_sequence s"
      "next_segment_id s' = next_segment_id s"
proof -
  note D = store_invD [OF inv] and B = blocks_invD [OF store_invD(3) [OF inv]]
  let ?d = "entry_disk_size (length data)"
  from D(4) obtain p where act: "active_block s = Some p" by (auto simp: active_inv_def)
  let ?b = "all_blocks s ! p"
  have pp: "p \<in> set (pending_blocks s)" by (simp add: pending_blocks_alt opt_list_def act)
  have bok: "block_ok cap ?b" using B(3) [OF pp] B(4) by simp
  have "length data + 4160 \<le> 2 ^ 64" using len by simp
  note d = entry_disk_size_bounds(1,3) [OF this]
  show thesis
  proof (cases "wb_pos ?b + ?d \<le> cap")
    case True
    then have wa: "write_append key data checksum ?d p s = (r, s')" and w': "w' = w"
      using bw len act fits bok by (auto simp: blob_write_def Let_def block_ok_def split: prod.splits)
    show thesis
    proof (rule write_append_inv [OF inv act True d wa], goal_cases)
      case (1 sid off reserved)
      then show ?thesis using stored [of sid off reserved] w' by simp
    qed
  next
    case False
    let ?s = "s\<lparr>flush_queue := flush_queue s @ [p]\<rparr>"
    have "0 < wb_pos ?b" using False fits by simp
    then have wq: "write_acquire env key data checksum ?d (?s, w) = (r, s', w')"
      using bw len act fits bok False by (simp add: blob_write_def Let_def block_ok_def)
    note rot = rotate_inv [OF inv act]
    show thesis
    proof (cases "free_pool s = []")
      case True
      then have "r = Waiting" "s' = ?s" "w' = w"
        using wq D(1) by (auto simp: write_acquire_def config_ok_def)
      then show thesis using waits rot by simp
    next
      case False
      then have "free_pool ?s \<noteq> []" "next_segment_id ?s < UINT32_MAX" using ids by simp_all
      then show thesis
      proof (rule write_acquire_inv [OF rel rot _ _ d fits wq], goal_cases)
        case (1 sid off reserved)
        then show ?case using stored [of sid off reserved] by simp
      qed
    qed
  qed
qed

section \<open>Reading what was acknowledged\<close>

lemma entry_image_decode:
  assumes "length reserved = 10" and "length data < 2 ^ 32"
  shows "unat (eh_blob_size (entry_header_of_bytes (entry_image key data checksum sequence d reserved @ rest))) = length data"
    and "take (length data) (drop 64 (entry_image key data checksum sequence d reserved @ rest)) = data"
  using assms by (simp_all add: entry_image_def entry_header_round_trip length_entry_header_bytes unat_word_32)

lemma find_block_cases:
  "case find_block loc blocks ps of
     None \<Rightarrow> \<forall>p \<in> set ps. \<not> in_block loc (blocks ! p)
   | Some bs \<Rightarrow> \<exists>p \<in> set ps. in_block loc (blocks ! p) \<and>
       bs = drop (bl_offset loc - wb_segment_offset (blocks ! p)) (wb_buf (blocks ! p))"
  by (induction loc blocks ps rule: find_block.induct) (auto split: option.splits)

lemma covers_in_block:
  assumes "covers (sid, off, img) b" and "img \<noteq> []" and "placed s b"
    and "bl_segment_id loc = sid" and "bl_offset loc = off"
  shows "in_block loc b"
proof -
  have "wrap64 (wb_segment_offset b + wb_pos b) = wb_segment_offset b + wb_pos b"
    using assms(3) by (intro wrap64_id) (simp add: placed_def)
  then show ?thesis using assms by (cases img) (auto simp: covers_def in_block_def)
qed

lemma in_block_not_apart:
  assumes "in_block loc b" and "img \<noteq> []" and "placed s b"
  shows "\<not> apart (bl_segment_id loc, bl_offset loc, img) b"
proof -
  have "wrap64 (wb_segment_offset b + wb_pos b) = wb_segment_offset b + wb_pos b"
    using assms(3) by (intro wrap64_id) (simp add: placed_def)
  then show ?thesis using assms(1,2) by (cases img) (auto simp: apart_def in_block_def)
qed

lemma blob_read_stored:
  assumes rel: "reliable env contents opened" and inv: "store_inv cap waiting (opened w) (contents w) E s"
    and e: "(sid, off, entry_image key data checksum sequence d reserved) \<in> E"
    and img: "length reserved = 10" "64 + length data \<le> d" "d < 2 ^ 32" and data: "data \<noteq> []"
  shows "\<exists>w'. blob_read env (make_location sid off (length data) d) buf_len (s, w) =
    (if length data \<le> buf_len then (kOk, data) else (kBufferTooSmall, []), w')"
proof -
  note D = store_invD [OF inv] and B = blocks_invD [OF store_invD(3) [OF inv]]
  let ?img = "entry_image key data checksum sequence d reserved" and ?loc = "make_location sid off (length data) d"
  have li: "length ?img = d" using img(1,2) by (rule length_entry_image)
  have ne: "?img \<noteq> []" using li img(2) by auto
  have dl: "length data < 2 ^ 32" using img(2,3) by linarith
  have loc: "bl_segment_id ?loc = sid" "bl_offset ?loc = off" "bl_disk_size ?loc = d"
    using img(3) by (simp_all add: make_location_def wrap32_id)
  note L = log_invD [OF D(5) e]
  have "\<exists>w'. read_attempt env ?loc buf_len True s (s, w) =
      (Inr (if length data \<le> buf_len then (kOk, data) else (kBufferTooSmall, [])), w')"
  proof (cases "find_in_pending_blocks s ?loc")
    case (Some bs)
    then obtain p where p: "p \<in> set (pending_blocks s)" "in_block ?loc (all_blocks s ! p)"
      "bs = drop (off - wb_segment_offset (all_blocks s ! p)) (wb_buf (all_blocks s ! p))"
      using find_block_cases [where loc = ?loc and blocks = "all_blocks s" and ps = "pending_blocks s"] by (auto simp: find_in_pending_blocks_def loc)
    have "\<not> apart (sid, off, ?img) (all_blocks s ! p)"
      using in_block_not_apart [OF p(2) ne B(5) [OF p(1)]] unfolding loc .
    then have "take d bs = ?img" using L(2) [OF p(1)] p(3) by (auto simp: covers_def li)
    then have "bs = ?img @ drop d bs" by (metis append_take_drop_id)
    then show ?thesis
      using Some entry_image_decode [OF img(1) dl, of key checksum sequence d "drop d bs"]
      by (simp add: read_attempt_def Let_def)
  next
    case None
    then have "\<forall>p \<in> set (pending_blocks s). \<not> in_block ?loc (all_blocks s ! p)"
      using find_block_cases [where loc = ?loc and blocks = "all_blocks s" and ps = "pending_blocks s"] by (simp add: find_in_pending_blocks_def)
    then have "on_disk (contents w) s (sid, off, ?img)"
      using L(3) covers_in_block [OF _ ne _ loc(1,2)] B(5) held_pending by blast
    then obtain p g where g: "(p, g) \<in> set (segments s)" "si_id g = sid" "off + d \<le> length (file_bytes (contents w) (si_path g))"
      "take d (drop off (file_bytes (contents w) (si_path g))) = ?img" by (auto simp: on_disk_def li)
    note lk = segs_lookup [OF D(2) g(1), unfolded g(2)]
    have fd: "0 \<le> si_fd g" using D(2) g(1) by (auto simp: segs_inv_def)
    obtain r got w' where rd: "sync_read (se_io env) w (si_fd g) d off = ((r, got), w')"
      by (cases "sync_read (se_io env) w (si_fd g) d off") (auto simp: prod_eq_iff)
    note R = reliable_read(3,4) [OF rel rd segs_file(1) [OF D(2) g(1)]]
    have got: "got = ?img" "r = to_int d" using R g(4) li by auto
    have n0: "length data \<noteq> 0" using data by simp
    show ?thesis
      using None lk fd rd got li n0 reliable_alloc [OF rel]
        entry_image_decode [OF img(1) dl, of key checksum sequence d "[]"]
      by (simp add: read_attempt_def Let_def loc)
  qed
  then show ?thesis by (auto simp: blob_read_def)
qed

end
