(* ===== verification/Blob_Open.thy ===== *)
theory Blob_Open
  imports Blob_Log
begin

text \<open>
  Opening and closing the store. \<open>open\<close> finds the segment files an earlier process left and
  establishes the contract of \<open>Blob_Log\<close> with the entries that are in them; \<open>close\<close> leaves
  every acknowledged entry in its file, with a valid header in front.
\<close>

section \<open>The scan for segment files\<close>

text \<open>The settings under which the offsets of the store do not wrap.\<close>

definition sane_config :: "NvmeStoreConfig \<Rightarrow> bool" where
  "sane_config cfg \<longleftrightarrow> nv_paths cfg \<noteq> [] \<and> distinct (nv_paths cfg) \<and> nv_write_block_size_mb cfg < 4096 \<and>
     0 < nv_write_block_pool_size cfg \<and> nv_segment_size cfg < 2 ^ 63"

abbreviation block_capacity :: "NvmeStoreConfig \<Rightarrow> nat" where
  "block_capacity cfg \<equiv> nv_write_block_size_mb cfg * 1048576"

definition readable_dirs :: "'w store_env \<Rightarrow> NvmeStoreConfig \<Rightarrow> bool" where
  "readable_dirs env cfg \<longleftrightarrow> (\<forall>w. \<forall>dir \<in> set (nv_paths cfg). se_list env w dir \<noteq> None)"

definition seg_ids :: "BlobStore \<Rightarrow> nat set" where
  "seg_ids s = (si_id \<circ> snd) ` set (segments s)"

text \<open>The store while the directories are scanned.\<close>

definition scanning :: "NvmeStoreConfig \<Rightarrow> nat \<Rightarrow> (string \<rightharpoonup> bytes) \<Rightarrow> (int \<rightharpoonup> string) \<Rightarrow> BlobStore \<Rightarrow> bool" where
  "scanning cfg n files fds s \<longleftrightarrow> segs_inv fds s \<and> bs_config s = cfg \<and> next_segment_id s \<le> n \<and>
     all_blocks s = [] \<and> flush_queue s = [] \<and> free_pool s = [] \<and> flushing_block s = None \<and>
     (\<forall>(p, g) \<in> set (segments s). files (si_path g) \<noteq> None \<and> si_write_offset g = length (file_bytes files (si_path g)))"

lemma scan_file_own:
  assumes rel: "reliable env contents opened" and sc: "scanning cfg n (contents w) (opened w) s"
    and own: "own_files cfg n (contents w)" and n: "n < UINT32_MAX"
    and ex: "dir \<in> set (nv_paths cfg)" "segment_file_id name = Some sid" "CHR ''/'' \<notin> set name"
      "contents w (dir @ ''/'' @ name) \<noteq> None"
    and new: "sid \<notin> seg_ids s" and step: "scan_file env dir name (s, w) = (s', w')"
  shows "scanning cfg n (contents w') (opened w') s'" and "contents w' = contents w" and "seg_ids s' = insert sid (seg_ids s)"
proof -
  note O = own_filesD [OF own ex]
  let ?path = "dir @ ''/'' @ name"
  have path: "?path = seg_file cfg sid" using O(1,2) by (simp add: seg_file_def)
  have sid: "wrap32 (Suc sid) = Suc sid" "sid < 2 ^ 32" using O(3) n by (simp_all add: wrap32_id)
  obtain fd w1 where o1: "open_segment_fd env ?path False w = (fd, w1)" by fastforce
  note R = reliable_open [OF rel o1 disjI2 [OF ex(4)], simplified if_False]
  obtain r got where rd: "sync_read (se_io env) w1 fd 4096 0 = ((r, got), w')"
    using step o1 R(1) ex(2) by (auto simp: scan_file_def Let_def split: prod.splits)
  have op1: "opened w1 fd = Some ?path" using R(3) by simp
  note S = reliable_read(1,2) [OF rel rd] reliable_read(3,4) [OF rel rd op1]
  let ?f = "file_bytes (contents w) ?path"
  have hdr: "4096 \<le> length ?f" "sh_magic (segment_header_of_bytes (take 4096 ?f)) = kSegmentMagic"
    using O(4) by (simp_all add: valid_header_def)
  have got: "got = take 4096 ?f" "length got = 4096" "r = 4096" using S(3,4) R(4) hdr(1) by (simp_all add: to_int_small)
  have st: "se_fstat env w' fd = Some (length ?f)"
    using reliable_keeps(5) [OF rel, of w' fd ?path] S(1,2) op1 R(4) by simp
  let ?g = "\<lparr>si_id = sid, si_fd = fd, si_write_offset = length ?f, si_entry_count = sh_entry_count (segment_header_of_bytes got),
    si_live_count = sh_live_count (segment_header_of_bytes got), si_file_size = length ?f, si_path = ?path\<rparr>"
  obtain b where s': "s' = s\<lparr>next_segment_id := max (next_segment_id s) (Suc sid), segments := segments s @ [(seg_ptrs s, ?g)],
      seg_ptrs := Suc (seg_ptrs s), total_bytes_on_disk := b\<rparr>"
    using step o1 R(1) rd ex(2) got hdr(2) st sid(1) by (auto simp: scan_file_def Let_def)
  have c: "contents w' = contents w" "opened w' = (opened w)(fd \<mapsto> ?path)" using S R by simp_all
  from sc have segs: "segs_inv (opened w) s" by (simp add: scanning_def)
  have other: "si_fd h \<noteq> fd" if "(p, h) \<in> set (segments s)" for p h
    using segs_file(1) [OF segs that] R(2) by auto
  have ids: "si_id h \<noteq> sid" if "(p, h) \<in> set (segments s)" for p h using new that by (force simp: seg_ids_def)
  have cfg: "bs_config s = cfg" "next_segment_id s \<le> n" using sc by (simp_all add: scanning_def)
  have "segs_inv (opened w') s'"
    using segs R(1) other ids O(3) n cfg path unfolding segs_inv_def s' c by (fastforce simp: image_iff less_max_iff_disj)
  then show "scanning cfg n (contents w') (opened w') s'"
    using sc O(3) ex(4) unfolding scanning_def c(1) by (simp add: s')
  show "contents w' = contents w" by (rule c)
  show "seg_ids s' = insert sid (seg_ids s)" by (simp add: seg_ids_def s')
qed

lemma scan_file_foreign: "segment_file_id name = None \<Longrightarrow> scan_file env dir name st = st"
  by (cases st) (simp add: scan_file_def)

lemma scan_directory:
  assumes rel: "reliable env contents opened" and n: "n < UINT32_MAX" and dir: "dir \<in> set (nv_paths cfg)"
  shows "scanning cfg n (contents w) (opened w) s \<Longrightarrow> own_files cfg n (contents w) \<Longrightarrow> distinct names \<Longrightarrow>
    (\<And>name. name \<in> set names \<Longrightarrow> segment_file_id name \<noteq> None \<Longrightarrow> CHR ''/'' \<notin> set name \<and> contents w (dir @ ''/'' @ name) \<noteq> None) \<Longrightarrow>
    (\<And>name sid. name \<in> set names \<Longrightarrow> segment_file_id name = Some sid \<Longrightarrow> sid \<notin> seg_ids s) \<Longrightarrow>
    fold (scan_file env dir) names (s, w) = (s', w') \<Longrightarrow>
    scanning cfg n (contents w') (opened w') s' \<and> contents w' = contents w \<and>
    seg_ids s' = seg_ids s \<union> {sid. \<exists>name \<in> set names. segment_file_id name = Some sid}"
proof (induction names arbitrary: s w)
  case (Cons name names)
  show ?case
  proof (cases "segment_file_id name")
    case None
    then have "fold (scan_file env dir) names (s, w) = (s', w')" using Cons.prems(6) by (simp add: scan_file_foreign)
    from Cons.IH [OF Cons.prems(1,2) _ _ _ this] Cons.prems(3,4,5) None show ?thesis by auto
  next
    case (Some sid)
    obtain s1 w1 where step: "scan_file env dir name (s, w) = (s1, w1)" by fastforce
    have ex: "CHR ''/'' \<notin> set name" "contents w (dir @ ''/'' @ name) \<noteq> None" using Cons.prems(4) [of name] Some by auto
    note S = scan_file_own [OF rel Cons.prems(1,2) n dir Some ex _ step]
    have new: "sid \<notin> seg_ids s" using Cons.prems(5) [of name] Some by simp
    have own1: "own_files cfg n (contents w1)" using S(2) [OF new] Cons.prems(2) by simp
    have rest: "sid' \<noteq> sid" if "m \<in> set names" "segment_file_id m = Some sid'" for m sid'
    proof -
      have m: "m = segment_name sid'"
        using Cons.prems(4) [of m] that by (intro own_filesD(2) [OF Cons.prems(2) dir that(2)]) auto
      have "name = segment_name sid" by (rule own_filesD(2) [OF Cons.prems(2) dir Some ex])
      with m that(1) Cons.prems(3) show ?thesis by auto
    qed
    have "fold (scan_file env dir) names (s1, w1) = (s', w')" using Cons.prems(6) step by simp
    note IH = Cons.IH [OF S(1) [OF new] own1 _ _ _ this]
    have "scanning cfg n (contents w') (opened w') s' \<and> contents w' = contents w1 \<and>
        seg_ids s' = seg_ids s1 \<union> {sid. \<exists>name \<in> set names. segment_file_id name = Some sid}"
    proof (rule IH)
      show "distinct names" using Cons.prems(3) by simp
      show "CHR ''/'' \<notin> set m \<and> contents w1 (dir @ ''/'' @ m) \<noteq> None" if "m \<in> set names" "segment_file_id m \<noteq> None" for m
        using Cons.prems(4) [of m] that S(2) [OF new] by simp
      show "sid' \<notin> seg_ids s1" if "m \<in> set names" "segment_file_id m = Some sid'" for m sid'
        using Cons.prems(5) [of m sid'] rest [OF that] that S(3) [OF new] by simp
    qed
    then show ?thesis using S(2,3) [OF new] Some by auto
  qed
qed auto

lemma scan_paths_foreign:
  assumes "\<And>p. p \<in> set paths \<Longrightarrow> \<exists>names. se_list env w p = Some names \<and> (\<forall>n \<in> set names. segment_file_id n = None)"
  shows "scan_paths env paths (s, w) = (True, s, w)"
proof -
  have skip: "fold (scan_file env path) names st = st" if "\<forall>n \<in> set names. segment_file_id n = None" for path names st
    using that by (induction names arbitrary: st) (simp_all add: scan_file_foreign)
  show ?thesis
    using assms
  proof (induction paths)
    case (Cons path paths)
    obtain names where "se_list env w path = Some names" "\<forall>n \<in> set names. segment_file_id n = None"
      using Cons.prems [of path] by auto
    then show ?case using Cons skip by simp
  qed simp
qed

text \<open>The scan finds every segment file there is.\<close>

lemma scan_paths_own:
  assumes rel: "reliable env contents opened" and cfg: "sane_config cfg" and dirs: "readable_dirs env cfg"
    and own: "own_files cfg n (contents w)" and n: "n < UINT32_MAX"
    and sc: "scanning cfg n (contents w) (opened w) s" and ids: "seg_ids s = {}"
  obtains s' w' where "scan_paths env (nv_paths cfg) (s, w) = (True, s', w')"
    "scanning cfg n (contents w') (opened w') s'" "contents w' = contents w"
    "\<And>sid. sid < 2 ^ 32 \<Longrightarrow> contents w (seg_file cfg sid) \<noteq> None \<Longrightarrow> sid \<in> seg_ids s'"
proof -
  obtain dir rest where paths: "nv_paths cfg = dir # rest" using cfg by (cases "nv_paths cfg") (auto simp: sane_config_def)
  have dir: "dir \<in> set (nv_paths cfg)" "dir \<notin> set rest" "hd (nv_paths cfg) = dir" using cfg by (auto simp: sane_config_def paths)
  obtain names where ls: "se_list env w dir = Some names" using dirs dir(1) by (auto simp: readable_dirs_def)
  have lists: "lists_reliably env contents" using rel by (simp add: reliable_def)
  then have names: "distinct names" "\<And>m. segment_file_id m \<noteq> None \<Longrightarrow>
      m \<in> set names \<longleftrightarrow> CHR ''/'' \<notin> set m \<and> contents w (dir @ ''/'' @ m) \<noteq> None"
    using ls unfolding lists_reliably_def by blast+
  obtain s' w' where fo: "fold (scan_file env dir) names (s, w) = (s', w')" by fastforce
  from scan_directory [OF rel n dir(1) sc own names(1) _ _ fo] names(2) ids
  have S: "scanning cfg n (contents w') (opened w') s'" "contents w' = contents w"
    "seg_ids s' = {sid. \<exists>name \<in> set names. segment_file_id name = Some sid}" by auto
  have "\<exists>names'. se_list env w' p = Some names' \<and> (\<forall>m \<in> set names'. segment_file_id m = None)" if p: "p \<in> set rest" for p
  proof -
    have pp: "p \<in> set (nv_paths cfg)" "p \<noteq> dir" using p dir(2) by (auto simp: paths)
    obtain names' where ls': "se_list env w' p = Some names'" using dirs pp(1) by (auto simp: readable_dirs_def)
    have "segment_file_id m = None" if m: "m \<in> set names'" for m
    proof (rule ccontr)
      assume sid: "segment_file_id m \<noteq> None"
      then have "CHR ''/'' \<notin> set m \<and> contents w (p @ ''/'' @ m) \<noteq> None"
        using lists ls' m S(2) unfolding lists_reliably_def by metis
      with sid own_filesD(1) [OF own pp(1)] dir(3) pp(2) show False by blast
    qed
    with ls' show ?thesis by blast
  qed
  then have "scan_paths env (nv_paths cfg) (s, w) = (True, s', w')"
    using ls fo scan_paths_foreign [of rest env w' s'] by (simp add: paths)
  moreover have "sid \<in> seg_ids s'" if "sid < 2 ^ 32" "contents w (seg_file cfg sid) \<noteq> None" for sid
    using names(2) [of "segment_name sid"] segment_file_id_name [OF that(1)] segment_name_flat that(2) dir(3)
    unfolding S(3) seg_file_def by auto
  ultimately show thesis using S(1,2) by (intro that)
qed

section \<open>Opening\<close>

text \<open>An entry that is in the file of its segment.\<close>

definition saved :: "NvmeStoreConfig \<Rightarrow> (string \<rightharpoonup> bytes) \<Rightarrow> log_entry \<Rightarrow> bool" where
  "saved cfg files e \<longleftrightarrow> (case e of (sid, off, img) \<Rightarrow> img \<noteq> [] \<and> 4096 \<le> off \<and> sid < 2 ^ 32 \<and>
     off + length img \<le> length (file_bytes files (seg_file cfg sid)) \<and>
     take (length img) (drop off (file_bytes files (seg_file cfg sid))) = img)"

lemma saved_scanned:
  assumes sc: "scanning cfg n files fds s" and all: "\<And>sid. sid < 2 ^ 32 \<Longrightarrow> files (seg_file cfg sid) \<noteq> None \<Longrightarrow> sid \<in> seg_ids s"
    and e: "saved cfg files e"
  shows "below_end s e" and "on_disk files s e" and "fst e \<in> seg_ids s"
proof -
  obtain sid off img where f: "e = (sid, off, img)" by (cases e)
  let ?f = "file_bytes files (seg_file cfg sid)"
  have E: "img \<noteq> []" "4096 \<le> off" "sid < 2 ^ 32" "off + length img \<le> length ?f" "take (length img) (drop off ?f) = img"
    using e by (simp_all add: saved_def f)
  have "?f \<noteq> []" using E(1,4) by auto
  then have "files (seg_file cfg sid) \<noteq> None" by (auto simp: file_bytes_def split: option.splits)
  with all E(3) obtain p g where g: "(p, g) \<in> set (segments s)" "si_id g = sid" by (force simp: seg_ids_def)
  have segs: "segs_inv fds s" "bs_config s = cfg" using sc by (simp_all add: scanning_def)
  have path: "si_path g = seg_file cfg sid" using segs_file(2) [OF segs(1) g(1)] segs(2) g(2) by simp
  have "si_write_offset g = length ?f" using sc g(1) path unfolding scanning_def by fastforce
  with g path E show "below_end s e" "on_disk files s e" unfolding below_end_def on_disk_def f prod.case by force+
  show "fst e \<in> seg_ids s" using g by (force simp: seg_ids_def f)
qed

definition empty_block :: "nat \<Rightarrow> WriteBlock" where
  "empty_block cap = \<lparr>wb_buf = replicate cap 0, wb_pos = 0, wb_capacity = cap, wb_segment_id = 0,
     wb_segment_offset = 0, wb_entry_count = 0, wb_segment_fd = -1\<rparr>"

lemma alloc_blocks_all:
  assumes "\<And>w n. se_aligned_alloc env w n"
  shows "alloc_blocks env w n cap s =
    (True, s\<lparr>free_pool := free_pool s @ [length (all_blocks s)..<length (all_blocks s) + n],
             all_blocks := all_blocks s @ replicate n (empty_block cap)\<rparr>)"
proof (induction n arbitrary: s)
  case (Suc n)
  have "[length (all_blocks s)..<length (all_blocks s) + Suc n] =
      length (all_blocks s) # [Suc (length (all_blocks s))..<Suc (length (all_blocks s)) + n]"
    by (simp add: upt_rec)
  then show ?case using assms by (simp add: Let_def Suc flip: empty_block_def)
qed simp

text \<open>The first block becomes active in the new segment.\<close>

lemma activate_first_inv:
  assumes segs: "segs_inv fds t" and disk: "disk_inv files t" and cap: "cap < 2 ^ 32" "nv_segment_size (bs_config t) < 2 ^ 63"
    and q: "active_segment t = Some q" "(q, g) \<in> set (segments t)" "si_write_offset g = 4096"
    and t: "flushing_block t = None" "flush_queue t = []"
    and old: "\<And>e. e \<in> E \<Longrightarrow> below_end t e \<and> on_disk files t e \<and> fst e \<noteq> si_id g" and n: "0 < n"
    and s: "s = t\<lparr>free_pool := [0..<n - 1], all_blocks := (replicate n (empty_block cap))[n - 1 := reset (si_id g) 4096 (si_fd g)
      (empty_block cap)], active_block := Some (n - 1), flush_running := True, gc_running := b\<rparr>"
  shows "store_inv cap False fds files E s"
proof -
  let ?b = "reset (si_id g) 4096 (si_fd g) (empty_block cap)"
  have own: "owners False s = (n - 1) # [0..<n - 1]" "pending_blocks s = [n - 1]" "held False s = [n - 1]"
    using t by (simp_all add: owners_def pending_blocks_alt held_def opt_list_def s)
  have blk: "all_blocks s ! (n - 1) = ?b" using n by (simp add: s)
  have segs': "segments s = segments t" by (simp add: s)
  have "blocks_inv cap False s"
    unfolding blocks_inv_def own blk using n q(2,3)
    by (fastforce simp: block_ok_def placed_def reset_def empty_block_def in_set_conv_nth nth_list_update s)
  moreover have "active_inv cap s"
    unfolding active_inv_def using q n cap by (auto simp: reset_def empty_block_def Let_def s)
  moreover have "config_ok cap s" using cap by (simp add: config_ok_def s)
  moreover have "segs_inv fds s" "disk_inv files s" using segs disk by (simp_all add: segs_inv_def disk_inv_def s)
  moreover have "log_inv False files E s"
    unfolding log_inv_def own
  proof (intro ballI conjI)
    fix e
    assume e: "e \<in> E"
    show "below_end s e" using old [OF e] by (simp add: below_end_def segs')
    have "apart e ?b" using old [OF e] by (cases e) (auto simp: apart_def reset_def)
    then show "covers e (all_blocks s ! p) \<or> apart e (all_blocks s ! p)" if "p \<in> set [n - 1]" for p using that blk by simp
    show "(\<exists>p \<in> set [n - 1]. covers e (all_blocks s ! p)) \<or> on_disk files s e" "on_disk files s e \<or> blank files s e"
      using old [OF e] by (simp_all add: on_disk_def segs')
  qed
  ultimately show ?thesis by (simp add: store_inv_def)
qed

text \<open>A store that has been opened and not used: no block holds data and the old files are as they were.\<close>

definition fresh_store :: "NvmeStoreConfig \<Rightarrow> (string \<rightharpoonup> bytes) \<Rightarrow> (string \<rightharpoonup> bytes) \<Rightarrow> BlobStore \<Rightarrow> bool" where
  "fresh_store cfg old new s \<longleftrightarrow> (\<forall>p \<in> set (pending_blocks s). wb_pos (all_blocks s ! p) = 0) \<and>
     (\<forall>sid < 2 ^ 32. old (seg_file cfg sid) \<noteq> None \<longrightarrow> file_bytes new (seg_file cfg sid) = file_bytes old (seg_file cfg sid))"

lemma blob_open_inv:
  assumes rel: "reliable env contents opened" and cfg: "sane_config cfg" and dirs: "readable_dirs env cfg"
    and own: "own_files cfg n (contents w0)" and n: "n < UINT32_MAX" and E: "\<And>e. e \<in> E \<Longrightarrow> saved cfg (contents w0) e"
  obtains s w where "blob_open env (blob_store_create cfg, w0) = (kOk, s, w)"
    "store_inv (block_capacity cfg) False (opened w) (contents w) E s" "next_segment_id s \<le> Suc n"
    "\<exists>p q. active_block s = Some p \<and> active_segment s = Some q \<and> wb_pos (all_blocks s ! p) = 0 \<and>
       si_write_offset (seg_of s q) = 4096 \<and> bs_config s = cfg" "length (all_blocks s) = nv_write_block_pool_size cfg"
    "fresh_store cfg (contents w0) (contents w) s"
proof -
  let ?cap = "block_capacity cfg" and ?n = "nv_write_block_pool_size cfg" and ?init = "blob_store_create cfg"
  define w1 where "w1 = fold (\<lambda>p w. se_create_directories env w p) (nv_paths cfg) w0"
  have c1: "contents w1 = contents w0" by (simp add: w1_def reliable_directories [OF rel])
  have sc0: "scanning cfg n (contents w1) (opened w1) ?init" "seg_ids ?init = {}"
    by (simp_all add: scanning_def segs_inv_def blob_store_create_def seg_ids_def)
  obtain s1 w2 where scan: "scan_paths env (nv_paths cfg) (?init, w1) = (True, s1, w2)"
    and sc: "scanning cfg n (contents w2) (opened w2) s1" and c2: "contents w2 = contents w1"
    and all: "\<And>sid. sid < 2 ^ 32 \<Longrightarrow> contents w1 (seg_file cfg sid) \<noteq> None \<Longrightarrow> sid \<in> seg_ids s1"
    using scan_paths_own [OF rel cfg dirs _ n sc0] own c1 by metis
  have S: "segs_inv (opened w2) s1" "bs_config s1 = cfg" "next_segment_id s1 \<le> n" "all_blocks s1 = []" "flush_queue s1 = []"
    "free_pool s1 = []" "flushing_block s1 = None" using sc by (simp_all add: scanning_def)
  have lt: "sid < next_segment_id s1" if "sid \<in> seg_ids s1" for sid using S(1) that by (auto simp: segs_inv_def seg_ids_def)
  have own1: "own_files cfg (next_segment_id s1) (contents w2)"
  proof (rule own_filesI)
    fix dir name sid
    assume A: "dir \<in> set (nv_paths cfg)" "segment_file_id name = Some sid" "CHR ''/'' \<notin> set name" "contents w2 (dir @ ''/'' @ name) \<noteq> None"
    have "contents w0 (dir @ ''/'' @ name) \<noteq> None" using A(4) c1 c2 by simp
    note O = own_filesD [OF own A(1-3) this]
    have "seg_file cfg sid = dir @ ''/'' @ name" using O(1,2) by (simp add: seg_file_def)
    then have "sid \<in> seg_ids s1" using all [of sid] A(4) O(3) n c2 by simp
    then show "dir = hd (nv_paths cfg) \<and> name = segment_name sid \<and> sid < next_segment_id s1 \<and>
        valid_header (file_bytes (contents w2) (dir @ ''/'' @ name))" using O lt c1 c2 by simp
  qed
  then have disk: "disk_inv (contents w2) s1" using sc by (auto simp: disk_inv_def scanning_def)
  have old: "below_end s1 e \<and> on_disk (contents w2) s1 e \<and> fst e \<in> seg_ids s1" if "e \<in> E" for e
  proof -
    have "saved cfg (contents w2) e" using E [OF that] c1 c2 by simp
    from saved_scanned [OF sc _ this] all c2 show ?thesis by simp
  qed
  have ids: "next_segment_id s1 < UINT32_MAX" using S(3) n by simp
  obtain t w where cr: "create_new_segment env (s1, w2) = (t, w)" by fastforce
  show thesis
  proof (rule create_new_segment_props [OF rel S(1) disk ids cr])
    fix q g
    assume A: "active_segment t = Some q" "(q, g) \<in> set (segments t)" "si_write_offset g = 4096"
      "segs_inv (opened w) t" "segs_grow s1 t" "\<And>p h. (p, h) \<in> set (segments s1) \<Longrightarrow>
         file_bytes (contents w) (si_path h) = file_bytes (contents w2) (si_path h)"
      "all_blocks t = all_blocks s1" "flushing_block t = flushing_block s1"
      "flush_queue t = flush_queue s1" "free_pool t = free_pool s1" "bs_config t = bs_config s1"
      "si_id g = next_segment_id s1" "next_segment_id t = Suc (next_segment_id s1)" "disk_inv (contents w) t"
    have g: "seg_of t q = g" "0 \<le> si_fd g" using segs_lookup(2) [OF A(4,2)] A(2,4) by (auto simp: segs_inv_def)
    have n0: "0 < ?n" using cfg by (simp add: sane_config_def)
    then have upt: "[0..<?n] = [0..<?n - 1] @ [?n - 1]" by (metis Suc_diff_1 upt_Suc_append zero_le)
    have al: "alloc_blocks env w ?n ?cap t = (True, t\<lparr>free_pool := [0..<?n], all_blocks := replicate ?n (empty_block ?cap)\<rparr>)"
      using alloc_blocks_all [OF reliable_alloc [OF rel], of w ?n ?cap t] A S by simp
    have cap: "?cap < 2 ^ 32" using cfg by (simp add: sane_config_def)
    then have wrapcap: "wrap64 (nv_write_block_size_mb cfg * 1024 * 1024) = ?cap"
      by (subst wrap64_id) (simp_all add: mult.assoc)
    let ?s = "t\<lparr>free_pool := [0..<?n - 1], all_blocks := (replicate ?n (empty_block ?cap))[?n - 1 := reset (si_id g) 4096 (si_fd g)
      (empty_block ?cap)], active_block := Some (?n - 1), flush_running := True, gc_running := nv_gc_enabled cfg\<rparr>"
    have "blob_open env (?init, w0) = (kOk, ?s, w)"
      using cfg scan cr A(1,3,11) S(2) g al n0 upt wrapcap
      by (simp add: blob_open_def Let_def w1_def activate_first_block_def blob_store_create_def sane_config_def seg_of_def)
    moreover have "below_end t e \<and> on_disk (contents w) t e \<and> fst e \<noteq> si_id g" if "e \<in> E" for e
      using old [OF that] below_end_grow [OF A(5)] on_disk_grow [OF A(5) _ A(6)] lt A(12) by fastforce
    then have "store_inv ?cap False (opened w) (contents w) E ?s"
      using cfg by (intro activate_first_inv [OF A(4,14) cap _ A(1-3) _ _ _ n0 refl]) (simp_all add: A S sane_config_def)
    moreover have "next_segment_id ?s \<le> Suc n" using A(13) S(3) by simp
    moreover have "\<exists>p q. active_block ?s = Some p \<and> active_segment ?s = Some q \<and> wb_pos (all_blocks ?s ! p) = 0 \<and>
        si_write_offset (seg_of ?s q) = 4096 \<and> bs_config ?s = cfg"
      using A(1,3,11) S(2) g(1) n0 by (simp add: reset_def seg_of_def)
    moreover have "length (all_blocks ?s) = ?n" by simp
    moreover have "file_bytes (contents w) (seg_file cfg sid) = file_bytes (contents w0) (seg_file cfg sid)"
      if sid: "sid < 2 ^ 32" "contents w0 (seg_file cfg sid) \<noteq> None" for sid
    proof -
      from all [OF sid(1)] sid(2) c1 obtain p h where h: "(p, h) \<in> set (segments s1)" "si_id h = sid" by (auto simp: seg_ids_def)
      then show ?thesis using A(6) [OF h(1)] segs_file(2) [OF S(1) h(1)] S(2) c1 c2 by simp
    qed
    then have "fresh_store cfg (contents w0) (contents w) ?s"
      using A(8,9) S(5,7) n0 by (simp add: fresh_store_def pending_blocks_alt opt_list_def reset_def)
    ultimately show thesis by (rule that)
  qed
qed

section \<open>Closing\<close>

text \<open>The turns of the flush thread empty the queue.\<close>

definition same_files :: "BlobStore \<Rightarrow> BlobStore \<Rightarrow> bool" where
  "same_files s t \<longleftrightarrow> segments t = segments s \<and> all_blocks t = all_blocks s \<and> bs_config t = bs_config s \<and>
     next_segment_id t = next_segment_id s \<and> active_block t = active_block s"

lemma flush_write_same:
  assumes "flush_write env (s, w) = (t, w')"
  shows "same_files s t" and "flushing_block t = None" and "flush_queue t = flush_queue s"
  using assms by (auto simp: flush_write_def same_files_def Let_def split: option.splits prod.splits if_splits)

lemma flush_take_same: "same_files s (flush_take s)" "flush_queue (flush_take s) = tl (flush_queue s)"
  by (auto simp: flush_take_def same_files_def Let_def split: list.splits)

lemma flush_turns_inv:
  assumes rel: "reliable env contents opened"
  shows "store_inv cap wt (opened w) (contents w) E s \<Longrightarrow> flushing_block s = None \<Longrightarrow> flush_turns env n (s, w) = (t, w') \<Longrightarrow>
    store_inv cap wt (opened w') (contents w') E t \<and> flushing_block t = None \<and> same_files s t \<and>
    flush_queue t = drop n (flush_queue s)"
proof (induction n arbitrary: s w)
  case 0
  then show ?case by (simp add: same_files_def)
next
  case (Suc n)
  obtain u v where fw: "flush_write env (flush_take s, w) = (u, v)" by fastforce
  note F = flush_write_same [OF fw] and K = flush_take_same [of s]
  have "store_inv cap wt (opened v) (contents v) E u"
    using rel flush_take_inv [OF Suc.prems(1,2)] fw by (rule flush_write_inv)
  from Suc.IH [OF this F(2)] Suc.prems(3) fw
  show ?case using F(1,3) K by (auto simp: same_files_def drop_Suc)
qed

lemma flush_frame:
  "flush_take (s\<lparr>active_block := a, flush_running := r\<rparr>) = (flush_take s)\<lparr>active_block := a, flush_running := r\<rparr>"
  "flush_write env (s\<lparr>active_block := a, flush_running := r\<rparr>, w) =
     apfst (\<lambda>t. t\<lparr>active_block := a, flush_running := r\<rparr>) (flush_write env (s, w))"
  by (simp_all add: flush_take_def flush_write_def Let_def split: list.splits option.splits prod.splits)

lemma flush_turns_frame:
  "flush_turns env n (s\<lparr>active_block := a, flush_running := r\<rparr>, w) =
     apfst (\<lambda>t. t\<lparr>active_block := a, flush_running := r\<rparr>) (flush_turns env n (s, w))"
proof (induction n arbitrary: s w)
  case (Suc n)
  obtain u v where "flush_write env (flush_take s, w) = (u, v)" by fastforce
  with Suc show ?case by (simp add: flush_frame)
qed simp

text \<open>The headers are rewritten, which touches no entry, and the files are closed.\<close>

lemma saved_header:
  assumes "saved cfg files e" and "length hdr = 4096"
  shows "saved cfg (files(path \<mapsto> overwrite (file_bytes files path) 0 hdr)) e"
proof -
  obtain sid off img where f: "e = (sid, off, img)" by (cases e)
  let ?f = "file_bytes files (seg_file cfg sid)"
  have "off + length img \<le> length ?f" "4096 \<le> off" "take (length img) (drop off ?f) = img" using assms(1) by (simp_all add: saved_def f)
  with read_overwrite_apart [of off "length img" ?f 0 hdr] overwrite_length_le [of ?f 0 hdr] assms show ?thesis
    by (auto simp: saved_def f)
qed

lemma own_files_header:
  assumes own: "own_files cfg n files" and "files path \<noteq> None" and hdr: "valid_header bs"
  shows "own_files cfg n (files(path \<mapsto> bs))"
proof (rule own_filesI)
  fix dir name sid
  assume A: "dir \<in> set (nv_paths cfg)" "segment_file_id name = Some sid" "CHR ''/'' \<notin> set name"
    "(files(path \<mapsto> bs)) (dir @ ''/'' @ name) \<noteq> None"
  then have "files (dir @ ''/'' @ name) \<noteq> None" using assms(2) by (auto split: if_splits)
  from own_filesD [OF own A(1-3) this] hdr show "dir = hd (nv_paths cfg) \<and> name = segment_name sid \<and> sid < n \<and>
      valid_header (file_bytes (files(path \<mapsto> bs)) (dir @ ''/'' @ name))" by simp
qed

lemma close_segments_saves:
  assumes rel: "reliable env contents opened"
  shows "(\<And>p g. (p, g) \<in> set gs \<Longrightarrow> opened w (si_fd g) = Some (si_path g) \<and> contents w (si_path g) \<noteq> None) \<Longrightarrow>
    distinct (map (si_fd \<circ> snd) gs) \<Longrightarrow> own_files cfg n (contents w) \<Longrightarrow> (\<And>e. e \<in> E \<Longrightarrow> saved cfg (contents w) e) \<Longrightarrow>
    close_segments env gs w = (gs', w') \<Longrightarrow> own_files cfg n (contents w') \<and> (\<forall>e \<in> E. saved cfg (contents w') e)"
proof (induction gs arbitrary: w gs')
  case (Cons pg gs)
  obtain p g where pg: "pg = (p, g)" by (cases pg)
  show ?case
  proof (cases "0 \<le> si_fd g")
    case True
    define w1 where "w1 = write_segment_header env (si_fd g) g w"
    define w2 where "w2 = se_close env w1 (si_fd g)"
    obtain hdr r where hw: "sync_write (se_io env) w (si_fd g) (segment_header_bytes hdr) 0 = (r, w1)"
      and hdr: "length (sh_reserved hdr) = 4064" "sh_magic hdr = kSegmentMagic"
      unfolding w1_def write_segment_header_def Let_def by (metis SegmentHeader.select_convs(1,8) length_replicate prod.collapse)
    have g: "opened w (si_fd g) = Some (si_path g)" "contents w (si_path g) \<noteq> None" using Cons.prems(1) [of p g] pg by simp_all
    note R = reliable_write [OF rel g(1) hw] and K = reliable_keeps(3,4) [OF rel, of w1 "si_fd g", folded w2_def]
    have c2: "contents w2 = (contents w)(si_path g \<mapsto> overwrite (file_bytes (contents w) (si_path g)) 0 (segment_header_bytes hdr))"
      "opened w2 = (opened w)(si_fd g := None)" using K R by simp_all
    obtain gs'' where rest: "close_segments env gs w2 = (gs'', w')"
      using Cons.prems(5) True unfolding pg by (auto simp: close_segment_def Let_def w1_def w2_def split: prod.splits)
    show ?thesis
    proof (rule Cons.IH [OF _ _ _ _ rest])
      show "opened w2 (si_fd h) = Some (si_path h) \<and> contents w2 (si_path h) \<noteq> None" if "(q, h) \<in> set gs" for q h
        using Cons.prems(1) [of q h] Cons.prems(2) that unfolding pg c2 by (force simp: image_iff)
      show "distinct (map (si_fd \<circ> snd) gs)" using Cons.prems(2) by (simp add: comp_def)
      show "own_files cfg n (contents w2)" unfolding c2(1) by (rule own_files_header [OF Cons.prems(3) g(2) valid_header_new [OF hdr]])
      show "saved cfg (contents w2) e" if "e \<in> E" for e
        unfolding c2(1) by (rule saved_header [OF Cons.prems(4) [OF that] length_segment_header_bytes [OF hdr(1)]])
    qed
  next
    case False
    then obtain gs'' where rest: "close_segments env gs w = (gs'', w')"
      using Cons.prems(5) unfolding pg by (auto simp: close_segment_def split: prod.splits)
    show ?thesis using Cons.prems by (intro Cons.IH [OF _ _ _ _ rest]) (auto simp: pg)
  qed
qed auto

lemma on_disk_saved:
  assumes "segs_inv fds s" and "below_end s e" and "on_disk files s e"
  shows "saved (bs_config s) files e"
proof -
  obtain sid off img where f: "e = (sid, off, img)" by (cases e)
  from assms(3) obtain p g where g: "(p, g) \<in> set (segments s)" "si_id g = sid"
    "off + length img \<le> length (file_bytes files (si_path g))" "take (length img) (drop off (file_bytes files (si_path g))) = img"
    by (auto simp: on_disk_def f)
  with segs_file(2,3) [OF assms(1) g(1)] assms(2) show ?thesis by (auto simp: saved_def below_end_def f)
qed

lemma blob_close_saves:
  assumes rel: "reliable env contents opened" and inv: "store_inv cap False (opened w) (contents w) E s"
    and cl: "blob_close env (s, w) = (s', w')"
  shows "own_files (bs_config s) (next_segment_id s) (contents w')" and "e \<in> E \<Longrightarrow> saved (bs_config s) (contents w') e"
proof -
  note D = store_invD [OF inv] and B = blocks_invD [OF store_invD(3) [OF inv]]
  from D(4) obtain p where act: "active_block s = Some p" by (auto simp: active_inv_def)
  define wt where "wt \<longleftrightarrow> 0 < wb_pos (all_blocks s ! p)"
  define b where "b = (if wt then s\<lparr>flush_queue := flush_queue s @ [p]\<rparr> else s)"
  define a where "a = (if wt then None else Some p)"
  have binv: "store_inv cap wt (opened w) (contents w) E b"
    using inv rotate_inv [OF inv act] by (simp add: b_def)
  obtain u w1 where fw: "flush_write env (b, w) = (u, w1)" by fastforce
  obtain t w2 where ft: "flush_turns env (length (flush_queue u)) (u, w1) = (t, w2)" by fastforce
  note F = flush_write_same [OF fw]
  have "store_inv cap wt (opened w1) (contents w1) E u" using rel binv fw by (rule flush_write_inv)
  note turns = flush_turns_inv [OF rel this F(2) ft]
  then have T: "store_inv cap wt (opened w2) (contents w2) E t" and none: "flushing_block t = None" "flush_queue t = []"
    and same: "same_files u t" by simp_all
  note TD = store_invD [OF T]
  have tf: "all_blocks t = all_blocks s" "bs_config t = bs_config s" "next_segment_id t = next_segment_id s" "active_block t = Some p"
    using F(1) same act by (auto simp: same_files_def b_def split: if_splits)
  have held: "held wt t = (if wt then [] else [p])" by (simp add: held_def none tf opt_list_def)
  have cov: "below_end t e \<and> on_disk (contents w2) t e" if "e \<in> E" for e
  proof -
    note L = log_invD [OF TD(5) that]
    have "\<not> covers e (all_blocks t ! p)" if "\<not> wt" using covers_nonempty [OF L(1), of "all_blocks t ! p"] that tf(1) by (auto simp: wt_def)
    with L(1,3) held show ?thesis by (auto split: if_splits)
  qed
  have S: "segs_inv (opened w2) t" "disk_inv (contents w2) t" using TD(2,6) by simp_all
  have run: "flush_running s" using D(1) by (simp add: config_ok_def)
  have fs: "flush_shutdown env (b\<lparr>active_block := a, flush_running := False\<rparr>, w) =
      (t\<lparr>active_block := a, flush_running := False, flush_queue := []\<rparr>, w2)"
    by (simp add: flush_shutdown_def flush_frame flush_turns_frame fw ft none)
  have b1: "(if wt then s\<lparr>flush_queue := flush_queue s @ [p], active_block := None\<rparr> else s)\<lparr>flush_running := False\<rparr> =
      b\<lparr>active_block := a, flush_running := False\<rparr>" using act by (simp add: b_def a_def)
  obtain gs where gs: "close_segments env (segments t) w2 = (gs, w')"
    using cl act run fs b1 unfolding blob_close_def by (auto simp: Let_def wt_def [symmetric] split: prod.splits if_splits)
  have sv: "saved (bs_config t) (contents w2) e" if "e \<in> E" for e
    using on_disk_saved S cov that by blast
  have "own_files (bs_config t) (next_segment_id t) (contents w') \<and> (\<forall>e \<in> E. saved (bs_config t) (contents w') e)"
  proof (rule close_segments_saves [OF rel _ _ _ sv gs])
    show "opened w2 (si_fd g) = Some (si_path g) \<and> contents w2 (si_path g) \<noteq> None" if "(x, g) \<in> set (segments t)" for x g
      using S segs_file(1) [of "opened w2" t, OF _ that] that by (auto simp: disk_inv_def)
    show "distinct (map (si_fd \<circ> snd) (segments t))" "own_files (bs_config t) (next_segment_id t) (contents w2)"
      using S by (simp_all add: segs_inv_def disk_inv_def)
  qed
  then show "own_files (bs_config s) (next_segment_id s) (contents w')" "e \<in> E \<Longrightarrow> saved (bs_config s) (contents w') e"
    by (simp_all add: tf)
qed

text \<open>Closing a closed store, as the destructor does, does nothing to the disk.\<close>

lemma close_segments_again: "close_segments env gs w = (gs', w') \<Longrightarrow> close_segments env gs' v = (gs', v)"
  by (induction gs arbitrary: w gs' w')
    (auto simp: close_segment_def Let_def split: prod.splits if_splits)

lemma flush_running_kept:
  "flush_write env (s, w) = (t, w') \<Longrightarrow> flush_running t = flush_running s" "flush_running (flush_take s) = flush_running s"
  by (auto simp: flush_write_def flush_take_def Let_def split: list.splits option.splits prod.splits if_splits)

lemma flush_turns_running: "flush_turns env n (s, w) = (t, w') \<Longrightarrow> flush_running t = flush_running s"
proof (induction n arbitrary: s w)
  case (Suc n)
  obtain u v where "flush_write env (flush_take s, w) = (u, v)" by fastforce
  with Suc flush_running_kept show ?case by fastforce
qed simp

lemma flush_shutdown_running: "flush_shutdown env (s, w) = (t, w') \<Longrightarrow> flush_running t = flush_running s"
  by (auto simp: flush_shutdown_def split: prod.splits dest: flush_turns_running flush_running_kept(1))

lemma blob_close_again:
  assumes "blob_close env st = (s', w')"
  shows "snd (blob_close env (s', w')) = w'"
proof -
  obtain s gs gs' w where s': "flush_running s' = False" "segments s' = gs'" and gs: "close_segments env gs w = (gs', w')"
    using assms flush_shutdown_running
    by (cases st) (fastforce simp: blob_close_def Let_def split: prod.splits option.splits if_splits)
  then show ?thesis
    using close_segments_again [OF gs] by (simp add: blob_close_def Let_def split: option.splits prod.splits)
qed

end
