(* ===== verification/Blob_Runs.thy ===== *)
theory Blob_Runs
  imports Blob_Open
begin

text \<open>
  Runs of the blob store: a client that writes one blob at a time, the flush thread and orderly
  restarts, with their steps in any order, over a file system that works. The invariant of \<open>Blob_Log\<close>
  is kept by every step and established by \<open>open\<close>, so that what a write acknowledged can be
  read back, and no writer waits for ever.
\<close>

section \<open>Runs of the store\<close>

text \<open>
  A configuration: the store, the system, the write that is waiting (key, blob, checksum),
  and the history of acknowledged writes with their locations.
\<close>

record 'w store_run =
  sr_store :: BlobStore
  sr_world :: 'w
  sr_waiting :: "(StorageKey \<times> bytes \<times> 32 word) option"
  sr_acked :: "(BlobLocation \<times> bytes) set"

definition writable :: "nat \<Rightarrow> BlobStore \<Rightarrow> bytes \<Rightarrow> bool" where
  "writable cap s data \<longleftrightarrow> data \<noteq> [] \<and> length data \<le> UINT32_MAX - 64 \<and> entry_disk_size (length data) \<le> cap \<and>
     next_segment_id s < UINT32_MAX"

inductive store_step :: "'w store_env \<Rightarrow> NvmeStoreConfig \<Rightarrow> 'w store_run \<Rightarrow> 'w store_run \<Rightarrow> bool" for env cfg where
  write_ack: "sr_waiting x = None \<Longrightarrow> writable (block_capacity cfg) (sr_store x) data \<Longrightarrow>
     blob_write env key data checksum (sr_store x, sr_world x) = (Returned kOk (Some loc), s, w) \<Longrightarrow>
     store_step env cfg x (x\<lparr>sr_store := s, sr_world := w, sr_acked := insert (loc, data) (sr_acked x)\<rparr>)"
| write_wait: "sr_waiting x = None \<Longrightarrow> writable (block_capacity cfg) (sr_store x) data \<Longrightarrow>
     blob_write env key data checksum (sr_store x, sr_world x) = (Waiting, s, w) \<Longrightarrow>
     store_step env cfg x (x\<lparr>sr_store := s, sr_world := w, sr_waiting := Some (key, data, checksum)\<rparr>)"
| write_wake: "sr_waiting x = Some (key, data, checksum) \<Longrightarrow> free_pool (sr_store x) \<noteq> [] \<Longrightarrow>
     writable (block_capacity cfg) (sr_store x) data \<Longrightarrow>
     write_acquire env key data checksum (entry_disk_size (length data)) (sr_store x, sr_world x) =
       (Returned kOk (Some loc), s, w) \<Longrightarrow>
     store_step env cfg x (x\<lparr>sr_store := s, sr_world := w, sr_waiting := None,
       sr_acked := insert (loc, data) (sr_acked x)\<rparr>)"
| flush_begin: "flushing_block (sr_store x) = None \<Longrightarrow>
     store_step env cfg x (x\<lparr>sr_store := flush_take (sr_store x)\<rparr>)"
| flush_end: "flush_write env (sr_store x, sr_world x) = (s, w) \<Longrightarrow>
     store_step env cfg x (x\<lparr>sr_store := s, sr_world := w\<rparr>)"
| restart: "sr_waiting x = None \<Longrightarrow> next_segment_id (sr_store x) < UINT32_MAX \<Longrightarrow>
     blob_close env (sr_store x, sr_world x) = (s, w) \<Longrightarrow> blob_open env (blob_store_create cfg, w) = (status, s', w') \<Longrightarrow>
     store_step env cfg x (x\<lparr>sr_store := s', sr_world := w'\<rparr>)"

text \<open>Each acknowledged write has its entry in the log.\<close>

definition logged :: "log_entry set \<Rightarrow> BlobLocation \<times> bytes \<Rightarrow> bool" where
  "logged E a \<longleftrightarrow> (case a of (loc, data) \<Rightarrow> \<exists>sid off key checksum sequence reserved.
     loc = make_location sid off (length data) (entry_disk_size (length data)) \<and>
     (sid, off, entry_image key data checksum sequence (entry_disk_size (length data)) reserved) \<in> E \<and>
     length reserved = 10 \<and> data \<noteq> [] \<and> length data \<le> UINT32_MAX - 64 \<and> entry_disk_size (length data) < 2 ^ 32)"

definition run_inv :: "NvmeStoreConfig \<Rightarrow> ('w \<Rightarrow> int \<rightharpoonup> string) \<Rightarrow> ('w \<Rightarrow> string \<rightharpoonup> bytes) \<Rightarrow> 'w store_run \<Rightarrow> bool" where
  "run_inv cfg opened contents x \<longleftrightarrow> bs_config (sr_store x) = cfg \<and> (\<exists>E. store_inv (block_capacity cfg) (sr_waiting x \<noteq> None) (opened (sr_world x))
     (contents (sr_world x)) E (sr_store x) \<and> (\<forall>a \<in> sr_acked x. logged E a))"

lemma logged_insert: "logged E a \<Longrightarrow> logged (insert e E) a"
  by (fastforce simp: logged_def split: prod.splits)

lemma logged_new:
  assumes "writable cap s data" and "cap < 2 ^ 32" and "length reserved = 10"
  shows "logged (insert (sid, off, entry_image key data checksum sequence (entry_disk_size (length data)) reserved) E)
    (make_location sid off (length data) (entry_disk_size (length data)), data)"
  using assms unfolding logged_def writable_def prod.case
  by (intro exI [of _ sid] exI [of _ off] exI [of _ key] exI [of _ checksum] exI [of _ sequence] exI [of _ reserved]) auto

lemma run_invI:
  assumes "store_inv (block_capacity cfg) (sr_waiting x \<noteq> None) (opened (sr_world x)) (contents (sr_world x)) E (sr_store x)"
    and "\<And>a. a \<in> sr_acked x \<Longrightarrow> logged E a" and "bs_config (sr_store x) = cfg"
  shows "run_inv cfg opened contents x"
  using assms by (auto simp: run_inv_def)

text \<open>No operation changes the settings.\<close>

lemma flush_config:
  "bs_config (flush_take s) = bs_config s" "flush_write env (s, w) = (s', w') \<Longrightarrow> bs_config s' = bs_config s"
  by (auto simp: flush_take_def flush_write_def Let_def split: list.splits option.splits prod.splits if_splits)

lemma create_new_segment_config: "create_new_segment env (s, w) = (s', w') \<Longrightarrow> bs_config s' = bs_config s"
  by (auto simp: create_new_segment_def Let_def split: prod.splits if_splits)

lemma write_append_config: "write_append key data checksum d p s = (r, s') \<Longrightarrow> bs_config s' = bs_config s"
  by (auto simp: write_append_def Let_def count_entry_frame split: option.splits)

lemma write_acquire_config: "write_acquire env key data checksum d (s, w) = (r, s', w') \<Longrightarrow> bs_config s' = bs_config s"
  by (auto simp: write_acquire_def Let_def split: if_splits prod.splits option.splits
      dest!: write_append_config create_new_segment_config)

lemma write_direct_config: "write_direct env key data checksum d (s, w) = (r, s', w') \<Longrightarrow> bs_config s' = bs_config s"
  by (auto simp: write_direct_def Let_def count_entry_frame split: if_splits prod.splits option.splits
      dest!: create_new_segment_config)

lemma blob_write_config: "blob_write env key data checksum (s, w) = (r, s', w') \<Longrightarrow> bs_config s' = bs_config s"
  by (auto simp: blob_write_def Let_def split: if_splits prod.splits option.splits
      dest!: write_append_config write_acquire_config write_direct_config)

lemma run_inv_acked:
  assumes old: "\<forall>a \<in> sr_acked x. logged E a" and wr: "writable (block_capacity cfg) t data" and cap: "block_capacity cfg < 2 ^ 32"
    and res: "length reserved = 10" and inv: "store_inv (block_capacity cfg) False (opened w) (contents w)
      (insert (sid, off, entry_image key data checksum sequence (entry_disk_size (length data)) reserved) E) s"
    and loc: "loc = make_location sid off (length data) (entry_disk_size (length data))"
    and y: "sr_store y = s" "sr_world y = w" "sr_waiting y = None" "sr_acked y = insert (loc, data) (sr_acked x)"
    and conf: "bs_config s = cfg"
  shows "run_inv cfg opened contents y"
proof (rule run_invI)
  show "store_inv (block_capacity cfg) (sr_waiting y \<noteq> None) (opened (sr_world y)) (contents (sr_world y))
      (insert (sid, off, entry_image key data checksum sequence (entry_disk_size (length data)) reserved) E) (sr_store y)"
    using inv y by simp
  show "bs_config (sr_store y) = cfg" using conf y by simp
  fix a
  assume "a \<in> sr_acked y"
  then consider "a = (loc, data)" | "a \<in> sr_acked x" using y(4) by blast
  then show "logged (insert (sid, off, entry_image key data checksum sequence (entry_disk_size (length data)) reserved) E) a"
    by cases (simp_all add: loc logged_new [OF wr cap res] logged_insert bspec [OF old])
qed

lemma store_step_inv:
  assumes rel: "reliable env contents opened" and set: "sane_config cfg" "readable_dirs env cfg" and "store_step env cfg x y" and "run_inv cfg opened contents x"
  shows "run_inv cfg opened contents y"
proof -
  from assms(5) obtain E where E: "store_inv (block_capacity cfg) (sr_waiting x \<noteq> None) (opened (sr_world x)) (contents (sr_world x)) E
      (sr_store x)" and old: "\<forall>a \<in> sr_acked x. logged E a" and conf: "bs_config (sr_store x) = cfg" by (auto simp: run_inv_def)
  have cap: "block_capacity cfg < 2 ^ 32" using store_invD(1) [OF E] by (simp add: config_ok_def)
  from assms(4) show ?thesis
  proof cases
    case (write_ack data key checksum loc s w)
    have len: "length data \<le> UINT32_MAX - 64" "entry_disk_size (length data) \<le> block_capacity cfg"
      "next_segment_id (sr_store x) < UINT32_MAX" using write_ack(3) by (simp_all add: writable_def)
    from E write_ack(2) have inv: "store_inv (block_capacity cfg) False (opened (sr_world x)) (contents (sr_world x)) E (sr_store x)" by simp
    show ?thesis
    proof (cases rule: blob_write_inv [OF rel inv len(3,1,2) write_ack(4), case_names stored waits])
      case (stored sid off reserved)
      show ?thesis
        by (rule run_inv_acked [where opened = opened and contents = contents and w = w, OF old write_ack(3) cap stored(2,3)]) (use stored(1) write_ack(1,2) blob_write_config [OF write_ack(4)] conf in simp_all)
    qed simp
  next
    case (write_wait data key checksum s w)
    have len: "length data \<le> UINT32_MAX - 64" "entry_disk_size (length data) \<le> block_capacity cfg"
      "next_segment_id (sr_store x) < UINT32_MAX" using write_wait(3) by (simp_all add: writable_def)
    from E write_wait(2) have inv: "store_inv (block_capacity cfg) False (opened (sr_world x)) (contents (sr_world x)) E (sr_store x)" by simp
    show ?thesis
      by (cases rule: blob_write_inv [OF rel inv len(3,1,2) write_wait(4), case_names stored waits]) (use old write_wait(1) blob_write_config [OF write_wait(4)] conf in \<open>auto simp: run_inv_def\<close>)
  next
    case (write_wake key data checksum loc s w)
    have len: "length data \<le> UINT32_MAX - 64" "entry_disk_size (length data) \<le> block_capacity cfg"
      "next_segment_id (sr_store x) < UINT32_MAX" using write_wake(4) by (simp_all add: writable_def)
    have "length data + 4160 \<le> 2 ^ 64" using len(1) by simp
    note d = entry_disk_size_bounds(1,3) [OF this]
    from E write_wake(2) have inv: "store_inv (block_capacity cfg) True (opened (sr_world x)) (contents (sr_world x)) E (sr_store x)" by simp
    show ?thesis
    proof (rule write_acquire_inv [OF rel inv write_wake(3) len(3) d len(2) write_wake(5)])
      fix sid off reserved
      assume out: "Returned kOk (Some loc) = Returned kOk (Some (make_location sid off (length data) (entry_disk_size (length data))))"
        "length reserved = 10" "store_inv (block_capacity cfg) False (opened w) (contents w)
         (insert (sid, off, entry_image key data checksum (write_sequence (sr_store x)) (entry_disk_size (length data)) reserved) E) s"
      show ?thesis
        by (rule run_inv_acked [where opened = opened and contents = contents and w = w, OF old write_wake(4) cap out(2,3)]) (use out(1) write_wake(1,2) write_acquire_config [OF write_wake(5)] conf in simp_all)
    qed
  next
    case flush_begin
    then show ?thesis using flush_take_inv [OF E] old conf by (auto simp: run_inv_def flush_config)
  next
    case (flush_end s w)
    then show ?thesis using flush_write_inv [OF rel E flush_end(2)] flush_config(2) [OF flush_end(2)] old conf by (auto simp: run_inv_def)
  next
    case (restart s w status s' w')
    from E restart(2) have inv: "store_inv (block_capacity cfg) False (opened (sr_world x)) (contents (sr_world x)) E (sr_store x)" by simp
    note S = blob_close_saves [OF rel inv restart(4), unfolded conf]
    show ?thesis
    proof (rule blob_open_inv [OF rel set S(1) restart(3) S(2)])
      fix t v
      assume "blob_open env (blob_store_create cfg, w) = (kOk, t, v)"
        "store_inv (block_capacity cfg) False (opened v) (contents v) E t"
        "\<exists>p q. active_block t = Some p \<and> active_segment t = Some q \<and> wb_pos (all_blocks t ! p) = 0 \<and>
           si_write_offset (seg_of t q) = 4096 \<and> bs_config t = cfg"
      with restart(1,2,5) old show ?thesis by (intro run_invI [where E = E]) auto
    qed
  qed
qed

lemma store_steps_inv:
  "(store_step env cfg)\<^sup>*\<^sup>* x y \<Longrightarrow> reliable env contents opened \<Longrightarrow> sane_config cfg \<Longrightarrow> readable_dirs env cfg \<Longrightarrow>
     run_inv cfg opened contents x \<Longrightarrow> run_inv cfg opened contents y"
  by (induction rule: rtranclp_induct) (auto intro: store_step_inv)

lemma store_steps_acked: "(store_step env cfg)\<^sup>*\<^sup>* x y \<Longrightarrow> sr_acked x \<subseteq> sr_acked y"
proof (induction rule: rtranclp_induct)
  case (step y z)
  from step(2) have "sr_acked y \<subseteq> sr_acked z" by cases auto
  with step(3) show ?case by blast
qed simp

section \<open>A freshly opened store\<close>

definition opened_run :: "BlobStore \<Rightarrow> 'w \<Rightarrow> 'w store_run" where
  "opened_run s w = \<lparr>sr_store = s, sr_world = w, sr_waiting = None, sr_acked = {}\<rparr>"

abbreviation no_segments_yet :: "NvmeStoreConfig \<Rightarrow> (string \<rightharpoonup> bytes) \<Rightarrow> bool" where
  "no_segments_yet cfg files \<equiv> own_files cfg 0 files"

lemma create_new_segment_id:
  "create_new_segment env (s, w) = (t, v) \<Longrightarrow> next_segment_id t = wrap32 (next_segment_id s + 1)"
  by (auto simp: create_new_segment_def Let_def split: prod.splits if_splits)

lemma blob_open_run:
  assumes rel: "reliable env contents opened" and cfg: "sane_config cfg" "readable_dirs env cfg"
    and none: "no_segments_yet cfg (contents w0)"
  obtains s w where "blob_open env (blob_store_create cfg, w0) = (kOk, s, w)"
    "run_inv cfg opened contents (opened_run s w)" "next_segment_id s \<le> 1"
    "\<exists>p q. active_block s = Some p \<and> active_segment s = Some q \<and> wb_pos (all_blocks s ! p) = 0 \<and>
       si_write_offset (seg_of s q) = 4096 \<and> bs_config s = cfg"
proof (rule blob_open_inv [OF rel cfg none, where E = "{}"])
  fix s w
  assume A: "blob_open env (blob_store_create cfg, w0) = (kOk, s, w)"
    "store_inv (block_capacity cfg) False (opened w) (contents w) {} s" "next_segment_id s \<le> Suc 0"
    "\<exists>p q. active_block s = Some p \<and> active_segment s = Some q \<and> wb_pos (all_blocks s ! p) = 0 \<and>
       si_write_offset (seg_of s q) = 4096 \<and> bs_config s = cfg"
  have "run_inv cfg opened contents (opened_run s w)"
    using A(2,4) by (intro run_invI [where E = "{}"]) (auto simp: opened_run_def)
  then show thesis using A(1,3,4) by (intro that) simp_all
qed simp_all

text \<open>Offsets are 64-bit numbers, and a write uses up at most one segment id.\<close>

lemma create_new_segment_ids: "create_new_segment env (s, w) = (t, v) \<Longrightarrow> next_segment_id t \<le> Suc (next_segment_id s)"
  using create_new_segment_id [of env s w t v] by (simp add: wrap32_def)

lemma write_append_loc:
  assumes "write_append key data checksum d p s = (r, s')"
  shows "r = Returned kOk (Some loc) \<Longrightarrow> bl_offset loc < 2 ^ 64" and "next_segment_id s' = next_segment_id s"
  using assms by (auto simp: write_append_def Let_def make_location_def wrap64_def count_entry_def update_segment_def
      split: option.splits)

lemma write_acquire_loc:
  assumes "write_acquire env key data checksum d (s, w) = (r, s', w')"
  shows "r = Returned kOk (Some loc) \<Longrightarrow> bl_offset loc < 2 ^ 64" and "next_segment_id s' \<le> Suc (next_segment_id s)"
proof -
  show "bl_offset loc < 2 ^ 64" if "r = Returned kOk (Some loc)"
    using assms that by (auto simp: write_acquire_def Let_def split: if_splits prod.splits option.splits dest: write_append_loc(1))
  show "next_segment_id s' \<le> Suc (next_segment_id s)"
    using assms by (auto simp: write_acquire_def Let_def split: if_splits prod.splits option.splits
        dest!: write_append_loc(2) create_new_segment_ids)
qed

lemma blob_write_loc:
  assumes "blob_write env key data checksum (s, w) = (r, s', w')" and "entry_disk_size (length data) \<le> cap"
    and "\<forall>b \<in> set (all_blocks s). wb_capacity b = cap" and "\<forall>p. active_block s = Some p \<longrightarrow> p < length (all_blocks s)"
  shows "r = Returned kOk (Some loc) \<Longrightarrow> bl_offset loc < 2 ^ 64" and "next_segment_id s' \<le> Suc (next_segment_id s)"
proof -
  have cap: "wb_capacity (all_blocks s ! p) = cap" if "active_block s = Some p" for p
    using assms(3,4) that nth_mem by blast
  show "bl_offset loc < 2 ^ 64" if "r = Returned kOk (Some loc)"
    using assms(1,2) that cap
    by (auto simp: blob_write_def Let_def split: if_splits prod.splits option.splits
        dest: write_append_loc(1) write_acquire_loc(1))
  show "next_segment_id s' \<le> Suc (next_segment_id s)"
    using assms(1,2) cap
    by (auto simp: blob_write_def Let_def split: if_splits prod.splits option.splits
        dest!: write_append_loc(2) write_acquire_loc(2))
qed

lemma restart_opens:
  assumes rel: "reliable env contents opened" and cfg: "sane_config cfg" "readable_dirs env cfg"
    and none: "no_segments_yet cfg (contents w0)" and op: "blob_open env (blob_store_create cfg, w0) = (status, s, w)"
    and run: "(store_step env cfg)\<^sup>*\<^sup>* (opened_run s w) y" and idle: "sr_waiting y = None" "next_segment_id (sr_store y) < UINT32_MAX"
    and cl: "blob_close env (sr_store y, sr_world y) = (s1, w1)" and op2: "blob_open env (blob_store_create cfg, w1) = (st, s2, w2)"
  shows "st = kOk"
proof -
  from blob_open_run [OF rel cfg none] op have "run_inv cfg opened contents (opened_run s w)" by (metis prod.inject)
  from store_steps_inv [OF run rel cfg this] idle(1) obtain E where conf: "bs_config (sr_store y) = cfg" and
    inv: "store_inv (block_capacity cfg) False (opened (sr_world y)) (contents (sr_world y)) E (sr_store y)" by (auto simp: run_inv_def)
  note S = blob_close_saves [OF rel inv cl, unfolded conf]
  from blob_open_inv [OF rel cfg S(1) idle(2) S(2)] op2 show ?thesis by (metis prod.inject)
qed

section \<open>A waiting writer is served\<close>

lemma write_append_returns: "write_append key data checksum d p s = (r, s') \<Longrightarrow> r \<noteq> Waiting"
  by (auto simp: write_append_def Let_def split: option.splits)

lemma write_acquire_waits:
  "write_acquire env key data checksum d (s, w) = (Waiting, s', w') \<Longrightarrow> free_pool s = [] \<and> s' = s"
  by (auto simp: write_acquire_def Let_def split: if_splits prod.splits option.splits dest: write_append_returns)

lemma blob_write_waits:
  "blob_write env key data checksum (s, w) = (Waiting, s', w') \<Longrightarrow> flush_queue s' \<noteq> []"
  by (auto simp: blob_write_def write_direct_def Let_def split: if_splits prod.splits option.splits
      dest: write_append_returns write_acquire_waits)

text \<open>While a writer waits, some block is on its way to the free pool and the write can go ahead.\<close>

definition waits_ok :: "NvmeStoreConfig \<Rightarrow> 'w store_run \<Rightarrow> bool" where
  "waits_ok cfg x \<longleftrightarrow> (case sr_waiting x of None \<Rightarrow> True
     | Some (key, data, checksum) \<Rightarrow> writable (block_capacity cfg) (sr_store x) data \<and> owners True (sr_store x) \<noteq> [])"

lemma flush_take_keeps:
  "flushing_block s = None \<Longrightarrow> set (owners True (flush_take s)) = set (owners True s)"
  "next_segment_id (flush_take s) = next_segment_id s"
  by (auto simp: flush_take_def Let_def owners_def opt_list_def split: list.splits)

lemma flush_write_keeps:
  assumes "flush_write env (s, w) = (s', w')"
  shows "set (owners True s') = set (owners True s)" and "next_segment_id s' = next_segment_id s"
    and "flushing_block s' = None" and "flushing_block s \<noteq> None \<Longrightarrow> free_pool s' \<noteq> []"
    and "set (free_pool s) \<subseteq> set (free_pool s')"
  using assms by (auto simp: flush_write_def Let_def owners_def opt_list_def split: option.splits prod.splits if_splits)

lemma store_step_waits_ok:
  assumes rel: "reliable env contents opened" and set: "sane_config cfg" "readable_dirs env cfg" and "store_step env cfg x y" and "run_inv cfg opened contents x" and ok: "waits_ok cfg x"
  shows "waits_ok cfg y"
  using assms(4)
proof cases
  case (write_wait data key checksum s w)
  from assms(5) write_wait(2) obtain E where inv: "store_inv (block_capacity cfg) False (opened (sr_world x)) (contents (sr_world x)) E (sr_store x)"
    by (auto simp: run_inv_def)
  have len: "length data \<le> UINT32_MAX - 64" "entry_disk_size (length data) \<le> block_capacity cfg"
    "next_segment_id (sr_store x) < UINT32_MAX" using write_wait(3) by (simp_all add: writable_def)
  have "next_segment_id s = next_segment_id (sr_store x)"
    by (cases rule: blob_write_inv [OF rel inv len(3,1,2) write_wait(4), case_names stored waits]) simp_all
  moreover have "owners True s \<noteq> []" using blob_write_waits [OF write_wait(4)] by (simp add: owners_def)
  ultimately show ?thesis using write_wait(1,3) by (simp add: waits_ok_def writable_def)
next
  case flush_begin
  then show ?thesis
    using ok flush_take_keeps [of "sr_store x"]
    by (auto simp: waits_ok_def writable_def simp flip: set_empty split: option.splits)
next
  case (flush_end s w)
  then show ?thesis
    using ok flush_write_keeps(1,2) [OF flush_end(2)]
    by (auto simp: waits_ok_def writable_def simp flip: set_empty split: option.splits)
qed (auto simp: waits_ok_def)

lemma store_steps_waits_ok:
  assumes "(store_step env cfg)\<^sup>*\<^sup>* x y" and "reliable env contents opened"
    and "sane_config cfg" "readable_dirs env cfg" and "run_inv cfg opened contents x" and "waits_ok cfg x"
  shows "run_inv cfg opened contents y \<and> waits_ok cfg y"
  using assms(1,5,6)
  by (induction rule: rtranclp_induct) (use assms(2-4) in \<open>auto intro: store_step_inv store_step_waits_ok\<close>)

text \<open>
  One turn of the flush thread: it takes the next queued block, unless it already holds one,
  and writes it.
\<close>

definition flush_turn :: "'w store_env \<Rightarrow> BlobStore \<times> 'w \<Rightarrow> BlobStore \<times> 'w" where
  "flush_turn env st =
     (case st of (s, w) \<Rightarrow> flush_write env (if flushing_block s = None then flush_take s else s, w))"

lemma flush_turn_steps:
  assumes "flush_turn env (sr_store x, sr_world x) = (t, v)"
  shows "(store_step env cfg)\<^sup>*\<^sup>* x (x\<lparr>sr_store := t, sr_world := v\<rparr>)"
proof (cases "flushing_block (sr_store x) = None")
  case True
  let ?y = "x\<lparr>sr_store := flush_take (sr_store x)\<rparr>"
  have "store_step env cfg x ?y" using True by (rule store_step.flush_begin)
  moreover have "store_step env cfg ?y (?y\<lparr>sr_store := t, sr_world := v\<rparr>)"
    using assms True by (intro store_step.flush_end) (simp add: flush_turn_def)
  ultimately show ?thesis by (auto intro: converse_rtranclp_into_rtranclp)
next
  case False
  have "store_step env cfg x (x\<lparr>sr_store := t, sr_world := v\<rparr>)"
    using assms False by (intro store_step.flush_end) (simp add: flush_turn_def)
  then show ?thesis by (rule r_into_rtranclp)
qed

text \<open>It frees a block whenever one is queued.\<close>

lemma flush_turn_frees:
  assumes "flush_turn env (s, w) = (t, v)" and "flush_queue s \<noteq> []"
  shows "free_pool t \<noteq> []"
proof -
  obtain s1 where s1: "s1 = (if flushing_block s = None then flush_take s else s)" and fw: "flush_write env (s1, w) = (t, v)"
    using assms(1) by (simp add: flush_turn_def)
  have "flushing_block s1 \<noteq> None \<or> free_pool s1 \<noteq> []"
    using assms(2) by (auto simp: s1 flush_take_def Let_def split: list.splits)
  then show ?thesis using flush_write_keeps(4,5) [OF fw] by auto
qed

text \<open>A stored blob can be read.\<close>

lemma acked_reads:
  assumes rel: "reliable env contents opened" and inv: "run_inv cfg opened contents y" and ack: "(loc, data) \<in> sr_acked y"
    and buf: "length data \<le> buf_len"
  shows "\<exists>w'. blob_read env loc buf_len (sr_store y, sr_world y) = ((kOk, data), w')"
proof -
  from inv ack obtain E where
    inv: "store_inv (block_capacity cfg) (sr_waiting y \<noteq> None) (opened (sr_world y)) (contents (sr_world y)) E (sr_store y)"
    and "logged E (loc, data)" by (auto simp: run_inv_def)
  then obtain sid off key checksum sequence reserved where
    loc: "loc = make_location sid off (length data) (entry_disk_size (length data))"
    and e: "(sid, off, entry_image key data checksum sequence (entry_disk_size (length data)) reserved) \<in> E"
    and L: "length reserved = 10" "data \<noteq> []" "length data \<le> UINT32_MAX - 64" "entry_disk_size (length data) < 2 ^ 32"
    by (auto simp: logged_def)
  have "length data + 4160 \<le> 2 ^ 64" using L(3) by simp
  from blob_read_stored [OF rel inv e L(1) entry_disk_size_bounds(1) [OF this] L(4,2), of buf_len] buf
  show ?thesis unfolding loc by simp
qed

text \<open>The writer that has to wait goes on after one turn.\<close>

lemma waiting_write_completes:
  assumes rel: "reliable env contents opened" and set: "sane_config cfg" "readable_dirs env cfg" and inv: "run_inv cfg opened contents x" and ok: "waits_ok cfg x"
    and wait: "sr_waiting x = Some (key, data, checksum)" and queued: "flush_queue (sr_store x) \<noteq> []"
    and turn: "flush_turn env (sr_store x, sr_world x) = (t, v)"
  obtains loc s w where "write_acquire env key data checksum (entry_disk_size (length data)) (t, v) = (Returned kOk (Some loc), s, w)"
    "(store_step env cfg)\<^sup>*\<^sup>* x (x\<lparr>sr_store := s, sr_world := w, sr_waiting := None, sr_acked := insert (loc, data) (sr_acked x)\<rparr>)"
proof -
  let ?y = "x\<lparr>sr_store := t, sr_world := v\<rparr>"
  note y = flush_turn_steps [OF turn, of cfg] and free = flush_turn_frees [OF turn queued]
  from store_steps_waits_ok [OF y rel set inv ok] obtain E where
    inv': "store_inv (block_capacity cfg) True (opened v) (contents v) E t"
    and wr: "writable (block_capacity cfg) t data" using wait by (auto simp: run_inv_def waits_ok_def)
  have len: "length data \<le> UINT32_MAX - 64" "entry_disk_size (length data) \<le> block_capacity cfg"
    "next_segment_id t < UINT32_MAX" using wr by (simp_all add: writable_def)
  have "length data + 4160 \<le> 2 ^ 64" using len(1) by simp
  note d = entry_disk_size_bounds(1,3) [OF this]
  obtain r s w where wa: "write_acquire env key data checksum (entry_disk_size (length data)) (t, v) = (r, s, w)"
    by (metis prod_cases3)
  show thesis
  proof (rule write_acquire_inv [OF rel inv' free len(3) d len(2) wa])
    fix sid off reserved
    let ?loc = "make_location sid off (length data) (entry_disk_size (length data))"
    assume "r = Returned kOk (Some ?loc)"
    with wa have wa': "write_acquire env key data checksum (entry_disk_size (length data)) (t, v) = (Returned kOk (Some ?loc), s, w)" by simp
    have "store_step env cfg ?y (?y\<lparr>sr_store := s, sr_world := w, sr_waiting := None, sr_acked := insert (?loc, data) (sr_acked ?y)\<rparr>)"
      by (rule store_step.write_wake) (use wait free wr wa' in simp_all)
    with wa' y show thesis by (intro that [of ?loc s w]) (auto intro: rtranclp.rtrancl_into_rtrancl)
  qed
qed

text \<open>A write from an idle state: it returns at once or after one turn of the flush thread.\<close>

definition written :: "'w store_env \<Rightarrow> StorageKey \<Rightarrow> bytes \<Rightarrow> 32 word \<Rightarrow> BlobStore \<times> 'w \<Rightarrow> BlobLocation \<Rightarrow> BlobStore \<times> 'w \<Rightarrow> bool" where
  "written env key data checksum st loc st' \<longleftrightarrow>
     blob_write env key data checksum st = (Returned kOk (Some loc), st') \<or>
     (\<exists>st1. blob_write env key data checksum st = (Waiting, st1) \<and>
        write_acquire env key data checksum (entry_disk_size (length data)) (flush_turn env st1) = (Returned kOk (Some loc), st'))"

lemma write_completes_from:
  assumes rel: "reliable env contents opened" and set: "sane_config cfg" "readable_dirs env cfg" and inv: "run_inv cfg opened contents y" and ok: "waits_ok cfg y"
    and idle: "sr_waiting y = None" and wr: "writable (block_capacity cfg) (sr_store y) data"
  obtains loc z where "written env key data checksum (sr_store y, sr_world y) loc (sr_store z, sr_world z)"
    "(store_step env cfg)\<^sup>*\<^sup>* y z" "sr_waiting z = None" "sr_acked z = insert (loc, data) (sr_acked y)"
proof -
  from inv idle obtain E where E: "store_inv (block_capacity cfg) False (opened (sr_world y)) (contents (sr_world y)) E (sr_store y)"
    by (auto simp: run_inv_def)
  have len: "length data \<le> UINT32_MAX - 64" "entry_disk_size (length data) \<le> block_capacity cfg"
    "next_segment_id (sr_store y) < UINT32_MAX" using wr by (simp_all add: writable_def)
  obtain r s' w' where bw: "blob_write env key data checksum (sr_store y, sr_world y) = (r, s', w')" by (metis prod_cases3)
  show thesis
  proof (cases rule: blob_write_inv [OF rel E len(3,1,2) bw, case_names stored waits])
    case (stored sid off reserved)
    let ?loc = "make_location sid off (length data) (entry_disk_size (length data))"
    let ?z = "y\<lparr>sr_store := s', sr_world := w', sr_acked := insert (?loc, data) (sr_acked y)\<rparr>"
    have "store_step env cfg y ?z" using idle wr bw [unfolded stored(1)] by (rule store_step.write_ack)
    with idle bw stored(1) show thesis by (intro that [of ?loc ?z]) (auto simp: written_def)
  next
    case waits
    let ?y = "y\<lparr>sr_store := s', sr_world := w', sr_waiting := Some (key, data, checksum)\<rparr>"
    note bw' = bw [unfolded waits(1)]
    have st: "store_step env cfg y ?y" using idle wr bw' by (rule store_step.write_wait)
    note inv' = store_step_inv [OF rel set st inv] and ok' = store_step_waits_ok [OF rel set st inv ok]
    obtain t v where turn: "flush_turn env (sr_store ?y, sr_world ?y) = (t, v)" by fastforce
    show thesis
    proof (rule waiting_write_completes [OF rel set inv' ok' _ _ turn])
      show "sr_waiting ?y = Some (key, data, checksum)" "flush_queue (sr_store ?y) \<noteq> []"
        using blob_write_waits [OF bw'] by simp_all
      fix loc s w
      let ?z = "?y\<lparr>sr_store := s, sr_world := w, sr_waiting := None, sr_acked := insert (loc, data) (sr_acked ?y)\<rparr>"
      assume "write_acquire env key data checksum (entry_disk_size (length data)) (t, v) = (Returned kOk (Some loc), s, w)"
        and steps: "(store_step env cfg)\<^sup>*\<^sup>* ?y ?z"
      then have "written env key data checksum (sr_store y, sr_world y) loc (s, w)"
        using bw' turn by (auto simp: written_def)
      with converse_rtranclp_into_rtranclp [of "store_step env cfg", OF st steps] show thesis by (intro that [of loc ?z]) simp_all
    qed
  qed
qed

definition mem_config :: NvmeStoreConfig where
  "mem_config = default_nvme_store\<lparr>nv_paths := [''d''], nv_write_block_size_mb := 1,
     nv_write_block_pool_size := 2, nv_segment_size := 4194304\<rparr>"

lemma mem_config_ok: "sane_config mem_config" "readable_dirs mem_env mem_config"
  "no_segments_yet mem_config (mem_files ([], [], 0))"
  by (simp_all add: sane_config_def readable_dirs_def own_files_def mem_files_def mem_config_def mem_env_def)

lemma mem_store_opens:
  obtains s w where "blob_open mem_env (blob_store_create mem_config, [], [], 0) = (kOk, s, w)"
    "run_inv mem_config mem_opened mem_files (opened_run s w)"
    "writable (block_capacity mem_config) s [1, 2, 3]" "next_segment_id s \<le> 1"
    "\<exists>p q. active_block s = Some p \<and> active_segment s = Some q \<and> wb_pos (all_blocks s ! p) = 0 \<and>
       si_write_offset (seg_of s q) = 4096 \<and> bs_config s = mem_config"
proof (rule blob_open_run [OF mem_env_reliable mem_config_ok])
  fix s w
  assume A: "next_segment_id s \<le> 1" "run_inv mem_config mem_opened mem_files (opened_run s w)"
    "blob_open mem_env (blob_store_create mem_config, [], [], 0) = (kOk, s, w)"
    "\<exists>p q. active_block s = Some p \<and> active_segment s = Some q \<and> wb_pos (all_blocks s ! p) = 0 \<and>
       si_write_offset (seg_of s q) = 4096 \<and> bs_config s = mem_config"
  have "entry_disk_size (length [1, 2, 3 :: byte]) = 4096" by (simp add: entry_disk_size_eq)
  with A(1) have "writable (block_capacity mem_config) s [1, 2, 3]"
    unfolding writable_def by (simp add: mem_config_def)
  with A(3,2) show thesis using A(1,4) by (rule that)
qed

lemma mem_store_writes:
  obtains s w y loc where "blob_open mem_env (blob_store_create mem_config, [], [], 0) = (kOk, s, w)"
    "(store_step mem_env mem_config)\<^sup>*\<^sup>* (opened_run s w) y" "(loc, [1, 2, 3]) \<in> sr_acked y" "sr_waiting y = None"
    "next_segment_id (sr_store y) < UINT32_MAX"
proof (rule mem_store_opens)
  fix s w
  assume A: "blob_open mem_env (blob_store_create mem_config, [], [], 0) = (kOk, s, w)"
    "run_inv mem_config mem_opened mem_files (opened_run s w)" "writable (block_capacity mem_config) s [1, 2, 3]"
    "next_segment_id s \<le> 1"
    "\<exists>p q. active_block s = Some p \<and> active_segment s = Some q \<and> wb_pos (all_blocks s ! p) = 0 \<and>
       si_write_offset (seg_of s q) = 4096 \<and> bs_config s = mem_config"
  from A(2) obtain E where inv: "store_inv (block_capacity mem_config) False (mem_opened w) (mem_files w) E s"
    by (auto simp: run_inv_def opened_run_def)
  note B = blocks_invD [OF store_invD(3) [OF inv]]
  from A(5) obtain p where act: "active_block s = Some p" "wb_pos (all_blocks s ! p) = 0" by auto
  have caps: "\<forall>b \<in> set (all_blocks s). wb_capacity b = block_capacity mem_config" using B(4) by (simp add: block_ok_def)
  have pl: "\<forall>p. active_block s = Some p \<longrightarrow> p < length (all_blocks s)" using B(3) by (simp add: pending_blocks_alt opt_list_def)
  obtain r s' w' where bw: "blob_write mem_env (key_of_bytes []) [1, 2, 3] 0 (s, w) = (r, s', w')" by (metis prod_cases3)
  have len: "length [1, 2, 3 :: byte] \<le> UINT32_MAX - 64" "entry_disk_size (length [1, 2, 3 :: byte]) \<le> block_capacity mem_config"
    "next_segment_id s < UINT32_MAX" using A(3) by (simp_all add: writable_def)
  have "r \<noteq> Waiting"
    using bw len act caps pl nth_mem write_append_returns unfolding blob_write_def Let_def
    by (auto split: prod.splits if_splits)
  moreover have "next_segment_id s' < UINT32_MAX" using blob_write_loc(2) [OF bw len(2) caps pl] A(4) by simp
  moreover have idle: "sr_waiting (opened_run s w) = None" "sr_store (opened_run s w) = s" "sr_world (opened_run s w) = w"
    by (simp_all add: opened_run_def)
  ultimately show thesis
  proof (cases rule: blob_write_inv [OF mem_env_reliable inv len(3,1,2) bw, case_names stored waits])
    case (stored sid off reserved)
    let ?loc = "make_location sid off (length [1, 2, 3 :: byte]) (entry_disk_size (length [1, 2, 3 :: byte]))"
    let ?y = "(opened_run s w)\<lparr>sr_store := s', sr_world := w', sr_acked := insert (?loc, [1, 2, 3]) (sr_acked (opened_run s w))\<rparr>"
    have "store_step mem_env mem_config (opened_run s w) ?y"
      by (rule store_step.write_ack) (use idle A(3) bw stored(1) in simp_all)
    then show thesis using A(1) idle \<open>next_segment_id s' < UINT32_MAX\<close> by (intro that [of s w ?y ?loc]) auto
  qed simp
qed

section \<open>Properties\<close>

text \<open>
  C15. Every acknowledged write is readable. A store opened on directories without segment
  files, over a file system that works, is used by one writer at a time and the flush thread:
  writes of blobs that fit a block are appended or wait for a free block, blocks are taken
  from the queue and written, the store is closed and opened again, in any order of these
  steps. Then for every write that returned \<open>kOk\<close>, a read of the location it returned yields
  \<open>kOk\<close> and exactly the bytes written, whether they are still in a block or on disk.
\<close>

theorem acknowledged_readable:
  assumes rel: "reliable env contents opened" and cfg: "sane_config cfg" "readable_dirs env cfg"
    and none: "no_segments_yet cfg (contents w0)" and op: "blob_open env (blob_store_create cfg, w0) = (status, s, w)"
    and run: "(store_step env cfg)\<^sup>*\<^sup>* (opened_run s w) y"
    and ack: "(loc, data) \<in> sr_acked y" and buf: "length data \<le> buf_len"
  shows "\<exists>w'. blob_read env loc buf_len (sr_store y, sr_world y) = ((kOk, data), w')"
proof -
  from blob_open_run [OF rel cfg none] op
  have "run_inv cfg opened contents (opened_run s w)" by (metis prod.inject)
  from acked_reads [OF rel store_steps_inv [OF run rel cfg this] ack buf] show ?thesis .
qed

theorem acknowledged_readable_witness:
  "\<exists>s w y loc s1 w1 s2 w2 w'. blob_open mem_env (blob_store_create mem_config, [], [], 0) = (kOk, s, w) \<and>
     (store_step mem_env mem_config)\<^sup>*\<^sup>* (opened_run s w) y \<and> (loc, [1, 2, 3]) \<in> sr_acked y \<and>
     blob_close mem_env (sr_store y, sr_world y) = (s1, w1) \<and>
     blob_open mem_env (blob_store_create mem_config, w1) = (kOk, s2, w2) \<and>
     blob_read mem_env loc 3 (s2, w2) = ((kOk, [1, 2, 3]), w')"
proof (rule mem_store_writes)
  fix s w y loc
  assume op: "blob_open mem_env (blob_store_create mem_config, [], [], 0) = (kOk, s, w)"
    and run: "(store_step mem_env mem_config)\<^sup>*\<^sup>* (opened_run s w) y" and ack: "(loc, [1, 2, 3]) \<in> sr_acked y"
    and idle: "sr_waiting y = None" "next_segment_id (sr_store y) < UINT32_MAX"
  obtain s1 w1 where cl: "blob_close mem_env (sr_store y, sr_world y) = (s1, w1)" by (rule prod.exhaust)
  obtain st s2 w2 where op2: "blob_open mem_env (blob_store_create mem_config, w1) = (st, s2, w2)" by (metis prod_cases3)
  let ?z = "y\<lparr>sr_store := s2, sr_world := w2\<rparr>"
  have "(store_step mem_env mem_config)\<^sup>*\<^sup>* (opened_run s w) ?z"
    using run store_step.restart [OF idle cl op2] by (rule rtranclp.rtrancl_into_rtrancl)
  from acknowledged_readable [OF mem_env_reliable mem_config_ok op this, of loc "[1, 2, 3]" 3] ack
  obtain w' where "blob_read mem_env loc 3 (s2, w2) = ((kOk, [1, 2, 3]), w')" by (auto simp del: split_paired_Ex)
  moreover have "st = kOk" using restart_opens [OF mem_env_reliable mem_config_ok op run idle cl op2] .
  ultimately show ?thesis using op run ack cl op2 by blast
qed

text \<open>
  C16. No write is lost or refused. In every state such a store reaches with no writer waiting, a
  write of a non-empty blob that fits a block either returns \<open>kOk\<close> at once or waits, and in
  that case one turn of the flush thread is enough: the writer then gets a block and returns
  \<open>kOk\<close>. The blob can be read at the location that was returned, the writes acknowledged before
  still stand, and the new state is one the store reaches.
\<close>

theorem write_completes:
  assumes rel: "reliable env contents opened" and cfg: "sane_config cfg" "readable_dirs env cfg"
    and none: "no_segments_yet cfg (contents w0)" and op: "blob_open env (blob_store_create cfg, w0) = (status, s, w)"
    and run: "(store_step env cfg)\<^sup>*\<^sup>* (opened_run s w) y"
    and idle: "sr_waiting y = None" and wr: "writable (block_capacity cfg) (sr_store y) data"
  shows "\<exists>loc z w'. (blob_write env key data checksum (sr_store y, sr_world y) = (Returned kOk (Some loc), sr_store z, sr_world z) \<or>
      (\<exists>st. blob_write env key data checksum (sr_store y, sr_world y) = (Waiting, st) \<and>
        write_acquire env key data checksum (entry_disk_size (length data)) (flush_turn env st) =
          (Returned kOk (Some loc), sr_store z, sr_world z))) \<and>
    blob_read env loc (length data) (sr_store z, sr_world z) = ((kOk, data), w') \<and>
    (store_step env cfg)\<^sup>*\<^sup>* (opened_run s w) z \<and> sr_waiting z = None \<and> sr_acked z = insert (loc, data) (sr_acked y)"
proof -
  from blob_open_run [OF rel cfg none] op
  have inv0: "run_inv cfg opened contents (opened_run s w)" by (metis prod.inject)
  moreover have "waits_ok cfg (opened_run s w)" by (simp add: waits_ok_def opened_run_def)
  ultimately have "run_inv cfg opened contents y" "waits_ok cfg y" using store_steps_waits_ok [OF run rel cfg] by blast+
  then obtain loc z where z: "written env key data checksum (sr_store y, sr_world y) loc (sr_store z, sr_world z)"
    "(store_step env cfg)\<^sup>*\<^sup>* y z" "sr_waiting z = None" "sr_acked z = insert (loc, data) (sr_acked y)"
    by (rule write_completes_from [OF rel cfg _ _ idle wr])
  from run z(2) have all: "(store_step env cfg)\<^sup>*\<^sup>* (opened_run s w) z" by (rule rtranclp_trans)
  obtain w' where "blob_read env loc (length data) (sr_store z, sr_world z) = ((kOk, data), w')"
    using acked_reads [OF rel store_steps_inv [OF all rel cfg inv0], of loc data "length data"] z(4) by auto
  with z all show ?thesis unfolding written_def by blast
qed

theorem write_completes_witness:
  "\<exists>s w z loc w'. blob_open mem_env (blob_store_create mem_config, [], [], 0) = (kOk, s, w) \<and>
     (store_step mem_env mem_config)\<^sup>*\<^sup>* (opened_run s w) z \<and> sr_acked z = {(loc, [1, 2, 3])} \<and>
     blob_read mem_env loc 3 (sr_store z, sr_world z) = ((kOk, [1, 2, 3]), w')"
proof -
  obtain s w where op: "blob_open mem_env (blob_store_create mem_config, [], [], 0) = (kOk, s, w)"
    and wr: "writable (block_capacity mem_config) s [1, 2, 3]" by (rule mem_store_opens)
  from write_completes [OF mem_env_reliable mem_config_ok op rtranclp.rtrancl_refl, of "[1, 2, 3]" "key_of_bytes []" 0] wr
  obtain loc z w' where "blob_read mem_env loc (length [1, 2, 3 :: byte]) (sr_store z, sr_world z) = ((kOk, [1, 2, 3]), w')"
    "(store_step mem_env mem_config)\<^sup>*\<^sup>* (opened_run s w) z" "sr_acked z = insert (loc, [1, 2, 3]) (sr_acked (opened_run s w))"
    unfolding opened_run_def store_run.simps by blast
  moreover have "length [1, 2, 3 :: byte] = 3" "sr_acked (opened_run s w) = {}" by (simp_all add: opened_run_def)
  ultimately show ?thesis using op by metis
qed

end
