(* ===== verification/Cw_Slru.thy ===== *)
theory Cw_Slru
  imports Core_Types Float64 "HOL-Library.Product_Lexorder"
begin

text \<open>
  \<open>src/eviction/cw_slru.{h,cpp}\<close>: the cost-weighted segmented LRU. A \<open>std::list\<close> is a list
  of nodes, each with an identity that never changes; an iterator is the identity of its
  node, so that \<open>splice\<close> keeps iterators valid and \<open>erase\<close> invalidates exactly one. The two
  hash maps hold iterators. The first part of the theory is the code; the second shows that
  the maps and the lists stay in step and that the four operations implement a policy on
  two plain sequences of entries (\<open>policy\<close>), in which nothing but the order of the entries is
  left.
\<close>

section \<open>Node lists\<close>

record EvictionEntry =
  ev_key :: StorageKey
  ev_recompute_cost :: "32 word"
  ev_chunk_index :: "32 word"
  ev_last_access_us :: "64 word"

type_synonym iter = nat
type_synonym node_list = "(iter \<times> EvictionEntry) list"

definition list_deref :: "iter \<Rightarrow> node_list \<Rightarrow> EvictionEntry option" where
  "list_deref it xs = map_of xs it"

definition list_modify :: "iter \<Rightarrow> (EvictionEntry \<Rightarrow> EvictionEntry) \<Rightarrow> node_list \<Rightarrow> node_list" where
  "list_modify it f xs = map (\<lambda>(i, e). (i, if i = it then f e else e)) xs"

definition list_erase :: "iter \<Rightarrow> node_list \<Rightarrow> node_list" where
  "list_erase it xs = filter (\<lambda>(i, _). i \<noteq> it) xs"

definition splice_front :: "iter \<Rightarrow> node_list \<Rightarrow> node_list" where
  "splice_front it xs = filter (\<lambda>(i, _). i = it) xs @ filter (\<lambda>(i, _). i \<noteq> it) xs"

section \<open>The structure\<close>

record SlruConfig =
  sc_protected_ratio :: double
  sc_protection_threshold :: "32 word"
  sc_max_entries :: nat

definition default_slru_config :: SlruConfig where
  "default_slru_config =
     \<lparr>sc_protected_ratio = fl (25 / 100), sc_protection_threshold = 100, sc_max_entries = 0\<rparr>"

record CwSlru =
  slru_config :: SlruConfig
  protected_list :: node_list
  probationary_list :: node_list
  protected_map :: "StorageKey \<rightharpoonup> iter"
  probationary_map :: "StorageKey \<rightharpoonup> iter"
  next_node :: nat

definition slru_create :: "SlruConfig \<Rightarrow> CwSlru" where
  "slru_create cfg = \<lparr>slru_config = cfg, protected_list = [], probationary_list = [],
     protected_map = Map.empty, probationary_map = Map.empty, next_node = 0\<rparr>"

definition refresh :: "32 word \<Rightarrow> 64 word \<Rightarrow> EvictionEntry \<Rightarrow> EvictionEntry" where
  "refresh cost now e = e\<lparr>ev_recompute_cost := cost, ev_last_access_us := now\<rparr>"

text \<open>
  \<open>push_front\<close> allocates a new node; the map entry is set to \<open>begin()\<close>, the new node.
\<close>

definition push_front_protected :: "EvictionEntry \<Rightarrow> CwSlru \<Rightarrow> CwSlru" where
  "push_front_protected e s = s\<lparr>protected_list := (next_node s, e) # protected_list s,
     protected_map := (protected_map s)(ev_key e \<mapsto> next_node s),
     next_node := Suc (next_node s)\<rparr>"

definition push_front_probationary :: "EvictionEntry \<Rightarrow> CwSlru \<Rightarrow> CwSlru" where
  "push_front_probationary e s = s\<lparr>probationary_list := (next_node s, e) # probationary_list s,
     probationary_map := (probationary_map s)(ev_key e \<mapsto> next_node s),
     next_node := Suc (next_node s)\<rparr>"

definition max_protected :: "CwSlru \<Rightarrow> nat" where
  "max_protected s =
     (if sc_max_entries (slru_config s) > 0
      then d_trunc (d_mult (d_of_nat (sc_max_entries (slru_config s)))
             (sc_protected_ratio (slru_config s)))
      else d_trunc (d_mult (d_of_nat (wrap64 (length (protected_list s) + length (probationary_list s))))
             (sc_protected_ratio (slru_config s))))"

text \<open>The demotion loop: the back of Protected moves to the front of Probationary.\<close>

function demote_loop :: "nat \<Rightarrow> CwSlru \<Rightarrow> CwSlru" where
  "demote_loop mx s =
     (if length (protected_list s) > mx \<and> protected_list s \<noteq> [] then
        let entry = snd (last (protected_list s));
            s = s\<lparr>protected_map := (protected_map s)(ev_key entry := None)\<rparr>;
            s = s\<lparr>protected_list := butlast (protected_list s)\<rparr>
        in demote_loop mx (push_front_probationary entry s)
      else s)"
  by pat_completeness auto
termination
  by (relation "measure (\<lambda>(mx, s). length (protected_list s))")
    (auto simp: push_front_probationary_def)

definition demote_protected_overflow :: "CwSlru \<Rightarrow> CwSlru" where
  "demote_protected_overflow s = demote_loop (max_protected s) s"

definition on_access :: "64 word \<Rightarrow> StorageKey \<Rightarrow> 32 word \<Rightarrow> 32 word \<Rightarrow> CwSlru \<Rightarrow> CwSlru" where
  "on_access now key cost chunk s =
     (case protected_map s key of
        Some pit \<Rightarrow>
          s\<lparr>protected_list := splice_front pit (list_modify pit (refresh cost now) (protected_list s))\<rparr>
      | None \<Rightarrow>
          (case probationary_map s key of
             None \<Rightarrow> s
           | Some qit \<Rightarrow>
               let s = s\<lparr>probationary_list := list_modify qit (refresh cost now) (probationary_list s)\<rparr>
               in if cost \<ge> sc_protection_threshold (slru_config s) then
                    (case list_deref qit (probationary_list s) of
                       None \<Rightarrow> s
                     | Some entry \<Rightarrow>
                         let s = s\<lparr>probationary_list := list_erase qit (probationary_list s)\<rparr>;
                             s = s\<lparr>probationary_map := (probationary_map s)(key := None)\<rparr>
                         in demote_protected_overflow (push_front_protected entry s))
                  else s\<lparr>probationary_list := splice_front qit (probationary_list s)\<rparr>))"

definition on_insert :: "64 word \<Rightarrow> StorageKey \<Rightarrow> 32 word \<Rightarrow> 32 word \<Rightarrow> CwSlru \<Rightarrow> CwSlru" where
  "on_insert now key cost chunk s =
     (case protected_map s key of
        Some pit \<Rightarrow>
          s\<lparr>protected_list := splice_front pit (list_modify pit (refresh cost now) (protected_list s))\<rparr>
      | None \<Rightarrow>
          (case probationary_map s key of
             Some qit \<Rightarrow>
               s\<lparr>probationary_list :=
                   splice_front qit (list_modify qit (refresh cost now) (probationary_list s))\<rparr>
           | None \<Rightarrow>
               push_front_probationary
                 \<lparr>ev_key = key, ev_recompute_cost = cost, ev_chunk_index = chunk,
                  ev_last_access_us = now\<rparr> s))"

definition on_remove :: "StorageKey \<Rightarrow> CwSlru \<Rightarrow> CwSlru" where
  "on_remove key s =
     (case protected_map s key of
        Some pit \<Rightarrow>
          s\<lparr>protected_list := list_erase pit (protected_list s),
            protected_map := (protected_map s)(key := None)\<rparr>
      | None \<Rightarrow>
          (case probationary_map s key of
             Some qit \<Rightarrow>
               s\<lparr>probationary_list := list_erase qit (probationary_list s),
                 probationary_map := (probationary_map s)(key := None)\<rparr>
           | None \<Rightarrow> s))"

text \<open>
  The victim scan walks from the back (the least recently used end) over at most
  \<open>kScanWindow\<close> nodes; \<open>rest\<close> is the remaining walk, \<open>best\<close> the best node so far.
\<close>

abbreviation (input) kScanWindow :: nat where
  "kScanWindow \<equiv> 8"

fun victim_loop :: "nat \<Rightarrow> iter \<times> EvictionEntry \<Rightarrow> node_list \<Rightarrow> iter \<times> EvictionEntry" where
  "victim_loop scanned best [] = best"
| "victim_loop scanned best (it # rest) =
     (if scanned < kScanWindow then
        let best =
          (if ev_chunk_index (snd it) > ev_chunk_index (snd best) then it
           else if ev_chunk_index (snd it) = ev_chunk_index (snd best) \<and>
                   ev_recompute_cost (snd it) < ev_recompute_cost (snd best) then it
           else best)
        in victim_loop (Suc scanned) best rest
      else best)"

definition find_best_victim :: "node_list \<Rightarrow> (iter \<times> EvictionEntry) option" where
  "find_best_victim segment =
     (case rev segment of [] \<Rightarrow> None | back # _ \<Rightarrow> Some (victim_loop 0 back (rev segment)))"

definition evict :: "CwSlru \<Rightarrow> StorageKey option \<times> CwSlru" where
  "evict s =
     (case find_best_victim (probationary_list s) of
        Some victim \<Rightarrow>
          let key = ev_key (snd victim);
              s = s\<lparr>probationary_map := (probationary_map s)(key := None)\<rparr>;
              s = s\<lparr>probationary_list := list_erase (fst victim) (probationary_list s)\<rparr>
          in (Some key, s)
      | None \<Rightarrow>
          (case find_best_victim (protected_list s) of
             Some victim \<Rightarrow>
               let key = ev_key (snd victim);
                   s = s\<lparr>protected_map := (protected_map s)(key := None)\<rparr>;
                   s = s\<lparr>protected_list := list_erase (fst victim) (protected_list s)\<rparr>
               in (Some key, s)
           | None \<Rightarrow> (None, s)))"

definition protected_size :: "CwSlru \<Rightarrow> nat" where
  "protected_size s = length (protected_list s)"

definition probationary_size :: "CwSlru \<Rightarrow> nat" where
  "probationary_size s = length (probationary_list s)"

definition total_size :: "CwSlru \<Rightarrow> nat" where
  "total_size s = wrap64 (length (protected_list s) + length (probationary_list s))"

declare demote_loop.simps [simp del]

section \<open>Maps and lists stay in step\<close>

definition seg_ok :: "(StorageKey \<rightharpoonup> iter) \<Rightarrow> node_list \<Rightarrow> bool" where
  "seg_ok m xs \<longleftrightarrow> distinct (map fst xs) \<and> distinct (map (ev_key \<circ> snd) xs) \<and>
     (\<forall>k i. m k = Some i \<longleftrightarrow> (\<exists>e. (i, e) \<in> set xs \<and> ev_key e = k))"

definition seg_keys :: "node_list \<Rightarrow> StorageKey set" where
  "seg_keys xs = ev_key ` snd ` set xs"

definition ids_below :: "nat \<Rightarrow> node_list \<Rightarrow> bool" where
  "ids_below n xs \<longleftrightarrow> (\<forall>x \<in> set xs. fst x < n)"

definition slru_inv :: "CwSlru \<Rightarrow> bool" where
  "slru_inv s \<longleftrightarrow>
     seg_ok (protected_map s) (protected_list s) \<and>
     seg_ok (probationary_map s) (probationary_list s) \<and>
     seg_keys (protected_list s) \<inter> seg_keys (probationary_list s) = {} \<and>
     ids_below (next_node s) (protected_list s) \<and> ids_below (next_node s) (probationary_list s)"

definition tracked :: "CwSlru \<Rightarrow> StorageKey set" where
  "tracked s = seg_keys (protected_list s) \<union> seg_keys (probationary_list s)"

lemma seg_okD:
  assumes "seg_ok m xs"
  shows "distinct (map fst xs)" and "distinct (map (ev_key \<circ> snd) xs)"
    and "m k = Some i \<longleftrightarrow> (\<exists>e. (i, e) \<in> set xs \<and> ev_key e = k)"
  using assms by (auto simp: seg_ok_def)

lemma seg_keys_iff: "k \<in> seg_keys xs \<longleftrightarrow> (\<exists>i e. (i, e) \<in> set xs \<and> ev_key e = k)"
  by (force simp: seg_keys_def)

lemma seg_ok_None: "seg_ok m xs \<Longrightarrow> m k = None \<longleftrightarrow> k \<notin> seg_keys xs"
  by (cases "m k") (force simp: seg_ok_def seg_keys_def)+

lemma seg_ok_dom: "seg_ok m xs \<Longrightarrow> dom m = seg_keys xs"
  using seg_ok_None [of m xs] by (auto simp: dom_def)

text \<open>An iterator of the map selects exactly the node of its key.\<close>

lemma seg_ok_iter:
  assumes ok: "seg_ok m xs" and "m k = Some i" and "(j, e) \<in> set xs"
  shows "j = i \<longleftrightarrow> ev_key e = k"
proof -
  from assms obtain e' where e': "(i, e') \<in> set xs" "ev_key e' = k"
    by (auto simp: seg_ok_def)
  from seg_okD(1,2) [OF ok] have inj: "inj_on fst (set xs)" "inj_on (ev_key \<circ> snd) (set xs)"
    by (simp_all add: distinct_map)
  have "(j, e) = (i, e')" if "j = i"
    by (rule inj_onD [OF inj(1) _ assms(3) e'(1)]) (simp add: that)
  moreover have "(j, e) = (i, e')" if "ev_key e = k"
    by (rule inj_onD [OF inj(2) _ assms(3) e'(1)]) (simp add: that e'(2))
  ultimately show ?thesis using e'(2) by (metis prod.inject)
qed

lemma list_modify_id_keys:
  "fst ` set (list_modify it f xs) = fst ` set xs"
  "map fst (list_modify it f xs) = map fst xs"
  by (force simp: list_modify_def)+

lemma set_splice_front [simp]: "set (splice_front it xs) = set xs"
  by (auto simp: splice_front_def)

lemma length_splice_front [simp]: "length (splice_front it xs) = length xs"
  using sum_length_filter_compl [of "\<lambda>x. fst x = it" xs]
  by (simp add: splice_front_def case_prod_beta')

lemma distinct_splice_front:
  "distinct (map (g :: _ \<Rightarrow> 'c) (splice_front it xs)) \<longleftrightarrow> distinct (map g xs)"
proof -
  have "distinct zs \<longleftrightarrow> card (set zs) = length zs" for zs :: "'c list"
    by (auto simp: distinct_card card_distinct)
  from this [of "map g xs"] this [of "map g (splice_front it xs)"] show ?thesis by simp
qed

lemma list_modify_refresh_keys:
  "map (ev_key \<circ> snd) (list_modify it (refresh c now) xs) = map (ev_key \<circ> snd) xs"
  by (auto simp: list_modify_def refresh_def)

lemma seg_keys_list: "seg_keys xs = set (map (ev_key \<circ> snd) xs)"
  by (auto simp: seg_keys_def image_image)

lemma seg_ok_modify:
  assumes "seg_ok m xs"
  shows "seg_ok m (list_modify it (refresh c now) xs)"
proof -
  have "(\<exists>e. (i, e) \<in> set (list_modify it (refresh c now) xs) \<and> ev_key e = k) \<longleftrightarrow>
      (\<exists>e. (i, e) \<in> set xs \<and> ev_key e = k)" for i k
    by (force simp: list_modify_def refresh_def)
  with assms show ?thesis
    by (simp add: seg_ok_def list_modify_refresh_keys list_modify_id_keys)
qed

lemma seg_keys_modify [simp]: "seg_keys (list_modify it (refresh c now) xs) = seg_keys xs"
  by (simp add: seg_keys_list list_modify_refresh_keys del: set_map)

lemma seg_ok_splice: "seg_ok m xs \<Longrightarrow> seg_ok m (splice_front it xs)"
  by (simp add: seg_ok_def distinct_splice_front)

lemma seg_keys_splice [simp]: "seg_keys (splice_front it xs) = seg_keys xs"
  by (simp add: seg_keys_def)

lemma seg_ok_erase:
  assumes ok: "seg_ok m xs" and k: "m k = Some i"
  shows "seg_ok (m(k := None)) (list_erase i xs)"
    and "seg_keys (list_erase i xs) = seg_keys xs - {k}"
proof -
  note iter = seg_ok_iter [OF ok k]
  have "(m(k := None)) k' = Some j \<longleftrightarrow>
      (\<exists>e. (j, e) \<in> set (list_erase i xs) \<and> ev_key e = k')" for k' j
    using iter seg_okD(3) [OF ok, of k' j] by (auto simp: list_erase_def)
  then show "seg_ok (m(k := None)) (list_erase i xs)"
    using seg_okD(1,2) [OF ok] by (simp add: seg_ok_def list_erase_def distinct_map_filter)
  show "seg_keys (list_erase i xs) = seg_keys xs - {k}"
    using iter by (force simp: seg_keys_def list_erase_def)
qed

lemma seg_ok_push:
  assumes "seg_ok m xs" and "ev_key e \<notin> seg_keys xs" and "n \<notin> fst ` set xs"
  shows "seg_ok (m(ev_key e \<mapsto> n)) ((n, e) # xs)"
proof -
  have "(m(ev_key e \<mapsto> n)) k = Some j \<longleftrightarrow> (\<exists>e'. (j, e') \<in> set ((n, e) # xs) \<and> ev_key e' = k)" for k j
  proof (cases "k = ev_key e")
    case True
    with assms(2) have "(j, e') \<in> set xs \<longrightarrow> ev_key e' \<noteq> k" for e'
      by (metis seg_keys_iff)
    with True show ?thesis by auto
  next
    case False
    then show ?thesis using seg_okD(3) [OF assms(1), of k j] by auto
  qed
  moreover have "distinct (map fst ((n, e) # xs))"
    using assms(3) seg_okD(1) [OF assms(1)] by simp
  moreover have "distinct (map (ev_key \<circ> snd) ((n, e) # xs))"
    using assms(2) seg_okD(2) [OF assms(1)] by (simp add: seg_keys_list del: set_map) 
  ultimately show ?thesis unfolding seg_ok_def by blast
qed

lemma seg_keys_Cons [simp]: "seg_keys ((n, e) # xs) = insert (ev_key e) (seg_keys xs)"
  by (simp add: seg_keys_def)

lemma seg_ok_append_last:
  assumes ok: "seg_ok m (xs @ [(n, e)])"
  shows "seg_ok (m(ev_key e := None)) xs" and "ev_key e \<notin> seg_keys xs"
proof -
  have n: "m (ev_key e) = Some n" using seg_okD(3) [OF ok] by auto
  have "n \<notin> fst ` set xs" using seg_okD(1) [OF ok] by auto
  then have "list_erase n (xs @ [(n, e)]) = xs"
    by (force simp: list_erase_def filter_id_conv)
  with seg_ok_erase [OF ok n] show "seg_ok (m(ev_key e := None)) xs" and "ev_key e \<notin> seg_keys xs"
    by auto
qed

lemma ids_below_simps [simp]:
  "ids_below n []"
  "ids_below n (x # xs) \<longleftrightarrow> fst x < n \<and> ids_below n xs"
  "ids_below n (xs @ ys) \<longleftrightarrow> ids_below n xs \<and> ids_below n ys"
  "ids_below n (splice_front it xs) \<longleftrightarrow> ids_below n xs"
  "ids_below n (list_modify it f xs) \<longleftrightarrow> ids_below n xs"
  by (auto simp: ids_below_def list_modify_def)

lemma ids_below_mono:
  "ids_below n xs \<Longrightarrow> ids_below (Suc n) xs"
  "ids_below n xs \<Longrightarrow> ids_below n (list_erase it xs)"
  by (auto simp: ids_below_def list_erase_def)

lemma ids_below_fresh: "ids_below n xs \<Longrightarrow> n \<notin> fst ` set xs"
  by (auto simp: ids_below_def)

section \<open>The policy on plain sequences\<close>

type_synonym policy = "EvictionEntry list \<times> EvictionEntry list"

definition slru_abs :: "CwSlru \<Rightarrow> policy" where
  "slru_abs s = (map snd (protected_list s), map snd (probationary_list s))"

definition has_key :: "StorageKey \<Rightarrow> EvictionEntry list \<Rightarrow> bool" where
  "has_key k es \<longleftrightarrow> (\<exists>e \<in> set es. ev_key e = k)"

definition without_key :: "StorageKey \<Rightarrow> EvictionEntry list \<Rightarrow> EvictionEntry list" where
  "without_key k es = filter (\<lambda>e. ev_key e \<noteq> k) es"

definition to_front :: "StorageKey \<Rightarrow> (EvictionEntry \<Rightarrow> EvictionEntry) \<Rightarrow> EvictionEntry list \<Rightarrow>
    EvictionEntry list" where
  "to_front k f es = map f (filter (\<lambda>e. ev_key e = k) es) @ without_key k es"

definition pol_capacity :: "SlruConfig \<Rightarrow> nat \<Rightarrow> nat" where
  "pol_capacity cfg n =
     d_trunc (d_mult (d_of_nat (if sc_max_entries cfg > 0 then sc_max_entries cfg else n))
       (sc_protected_ratio cfg))"

definition pol_insert :: "64 word \<Rightarrow> StorageKey \<Rightarrow> 32 word \<Rightarrow> 32 word \<Rightarrow> policy \<Rightarrow> policy" where
  "pol_insert now k c ch p =
     (case p of (P, Q) \<Rightarrow>
        if has_key k P then (to_front k (refresh c now) P, Q)
        else if has_key k Q then (P, to_front k (refresh c now) Q)
        else (P, \<lparr>ev_key = k, ev_recompute_cost = c, ev_chunk_index = ch,
                  ev_last_access_us = now\<rparr> # Q))"

definition pol_access :: "SlruConfig \<Rightarrow> 64 word \<Rightarrow> StorageKey \<Rightarrow> 32 word \<Rightarrow> policy \<Rightarrow> policy" where
  "pol_access cfg now k c p =
     (case p of (P, Q) \<Rightarrow>
        if has_key k P then (to_front k (refresh c now) P, Q)
        else if has_key k Q then
          (if c \<ge> sc_protection_threshold cfg then
             let P' = map (refresh c now) (filter (\<lambda>e. ev_key e = k) Q) @ P;
                 Q' = without_key k Q;
                 mx = pol_capacity cfg (wrap64 (length P' + length Q'))
             in (take mx P', drop mx P' @ Q')
           else (P, to_front k (refresh c now) Q))
        else (P, Q))"

definition pol_remove :: "StorageKey \<Rightarrow> policy \<Rightarrow> policy" where
  "pol_remove k p = (case p of (P, Q) \<Rightarrow> (without_key k P, without_key k Q))"

text \<open>
  Among the (at most eight) least recently used entries, the victim is the first one, from
  the cold end, that no other entry of the window beats: a larger chunk index wins, on
  equal chunk index a smaller recompute cost.
\<close>

definition victim_rank :: "EvictionEntry \<Rightarrow> 32 word \<times> int" where
  "victim_rank e = (ev_chunk_index e, - uint (ev_recompute_cost e))"

definition cold_window :: "EvictionEntry list \<Rightarrow> EvictionEntry list" where
  "cold_window es = take 8 (rev es)"

definition pol_victim :: "EvictionEntry list \<Rightarrow> EvictionEntry option" where
  "pol_victim es =
     List.find (\<lambda>v. \<forall>e \<in> set (cold_window es). victim_rank e \<le> victim_rank v) (cold_window es)"

definition pol_evict :: "policy \<Rightarrow> StorageKey option \<times> policy" where
  "pol_evict p =
     (case p of (P, Q) \<Rightarrow>
        (case pol_victim Q of
           Some v \<Rightarrow> (Some (ev_key v), (P, without_key (ev_key v) Q))
         | None \<Rightarrow>
             (case pol_victim P of
                Some v \<Rightarrow> (Some (ev_key v), (without_key (ev_key v) P, Q))
              | None \<Rightarrow> (None, (P, Q)))))"

lemma has_key_seg: "has_key k (map snd xs) \<longleftrightarrow> k \<in> seg_keys xs"
  by (auto simp: has_key_def seg_keys_def)

lemma seg_ok_Some: "seg_ok m xs \<Longrightarrow> m k = Some i \<Longrightarrow> k \<in> seg_keys xs"
  using seg_ok_None [of m xs k] by auto

lemma without_key_id: "\<not> has_key k es \<Longrightarrow> without_key k es = es"
  by (auto simp: has_key_def without_key_def filter_id_conv)

lemma seg_filter_iter:
  assumes "seg_ok m xs" and "m k = Some i"
  shows "filter (\<lambda>(j, _). j \<noteq> i) xs = filter (\<lambda>x. ev_key (snd x) \<noteq> k) xs"
    and "filter (\<lambda>(j, _). j = i) xs = filter (\<lambda>x. ev_key (snd x) = k) xs"
proof -
  have it: "fst x = i \<longleftrightarrow> ev_key (snd x) = k" if "x \<in> set xs" for x
    using seg_ok_iter [OF assms, of "fst x" "snd x"] that by simp
  show "filter (\<lambda>(j, _). j \<noteq> i) xs = filter (\<lambda>x. ev_key (snd x) \<noteq> k) xs"
    and "filter (\<lambda>(j, _). j = i) xs = filter (\<lambda>x. ev_key (snd x) = k) xs"
    by (rule filter_cong; simp add: case_prod_beta' it)+
qed

lemma seg_abs_erase:
  assumes "seg_ok m xs" and "m k = Some i"
  shows "map snd (list_erase i xs) = without_key k (map snd xs)"
  by (simp add: list_erase_def without_key_def filter_map comp_def seg_filter_iter [OF assms])

lemma seg_abs_front:
  assumes "seg_ok m xs" and "m k = Some i"
  shows "map snd (splice_front i (list_modify i f xs)) = to_front k f (map snd xs)"
proof -
  note eq = seg_filter_iter(2) [OF assms]
  have hit: "filter (\<lambda>(j, _). j = i) (list_modify i f xs) =
      map (\<lambda>(j, e). (j, f e)) (filter (\<lambda>(j, _). j = i) xs)"
    by (induction xs) (auto simp: list_modify_def)
  have miss: "filter (\<lambda>(j, _). j \<noteq> i) (list_modify i f xs) = list_erase i xs"
    by (induction xs) (auto simp: list_modify_def list_erase_def)
  have "map snd (map (\<lambda>(j, e). (j, f e)) ys) = map f (map snd ys)" for ys :: node_list
    by auto
  then show ?thesis
    by (simp only: splice_front_def hit miss eq map_append seg_abs_erase [OF assms] to_front_def
        filter_map comp_def)
qed

lemma seg_deref:
  assumes ok: "seg_ok m xs" and k: "m k = Some i"
  shows "\<exists>e. list_deref i xs = Some e \<and> ev_key e = k \<and> filter (\<lambda>e. ev_key e = k) (map snd xs) = [e]"
proof -
  from ok k obtain e where e: "(i, e) \<in> set xs" "ev_key e = k" by (auto simp: seg_ok_def)
  then have "list_deref i xs = Some e"
    using seg_okD(1) [OF ok] by (simp add: list_deref_def)
  moreover have "filter (\<lambda>e. ev_key e = k) (map snd xs) = [e]"
  proof -
    from e(1) obtain us vs where xs: "xs = us @ (i, e) # vs" by (meson split_list)
    with seg_okD(2) [OF ok] e(2) have "k \<notin> ev_key ` snd ` set us" and "k \<notin> ev_key ` snd ` set vs"
      by (force simp: image_image)+
    then show ?thesis using e(2) by (auto simp: xs filter_empty_conv append_eq_Cons_conv image_iff)
  qed
  ultimately show ?thesis using e(2) by blast
qed

section \<open>Every operation keeps the invariant and implements the policy\<close>

lemma slru_invD:
  assumes "slru_inv s"
  shows "seg_ok (protected_map s) (protected_list s)"
    and "seg_ok (probationary_map s) (probationary_list s)"
    and "seg_keys (protected_list s) \<inter> seg_keys (probationary_list s) = {}"
    and "next_node s \<notin> fst ` set (protected_list s)"
    and "next_node s \<notin> fst ` set (probationary_list s)"
  using assms by (auto simp: slru_inv_def dest: ids_below_fresh)

lemma slru_inv_create: "slru_inv (slru_create cfg)"
  by (simp add: slru_inv_def slru_create_def seg_ok_def seg_keys_def)

lemma tracked_create [simp]: "tracked (slru_create cfg) = {}"
  by (simp add: tracked_def slru_create_def seg_keys_def)

lemma push_front_probationary_ok:
  assumes inv: "slru_inv s" and e: "ev_key e \<notin> tracked s"
  shows "slru_inv (push_front_probationary e s)"
    and "tracked (push_front_probationary e s) = insert (ev_key e) (tracked s)"
    and "slru_abs (push_front_probationary e s) = (fst (slru_abs s), e # snd (slru_abs s))"
proof -
  have "seg_ok ((probationary_map s)(ev_key e \<mapsto> next_node s))
      ((next_node s, e) # probationary_list s)"
    using e slru_invD [OF inv] by (intro seg_ok_push) (auto simp: tracked_def)
  then show "slru_inv (push_front_probationary e s)"
    using inv e by (auto simp: slru_inv_def push_front_probationary_def tracked_def ids_below_mono)
qed (simp_all add: push_front_probationary_def tracked_def slru_abs_def)

lemma push_front_protected_ok:
  assumes inv: "slru_inv s" and e: "ev_key e \<notin> tracked s"
  shows "slru_inv (push_front_protected e s)"
    and "tracked (push_front_protected e s) = insert (ev_key e) (tracked s)"
    and "slru_abs (push_front_protected e s) = (e # fst (slru_abs s), snd (slru_abs s))"
proof -
  have "seg_ok ((protected_map s)(ev_key e \<mapsto> next_node s))
      ((next_node s, e) # protected_list s)"
    using e slru_invD [OF inv] by (intro seg_ok_push) (auto simp: tracked_def)
  then show "slru_inv (push_front_protected e s)"
    using inv e by (auto simp: slru_inv_def push_front_protected_def tracked_def ids_below_mono)
qed (simp_all add: push_front_protected_def tracked_def slru_abs_def)

text \<open>One turn of the demotion loop.\<close>

definition demote_one :: "CwSlru \<Rightarrow> CwSlru" where
  "demote_one s = push_front_probationary (snd (last (protected_list s)))
     (s\<lparr>protected_map := (protected_map s)(ev_key (snd (last (protected_list s))) := None),
        protected_list := butlast (protected_list s)\<rparr>)"

lemma demote_loop_step:
  "mx < length (protected_list s) \<Longrightarrow> demote_loop mx s = demote_loop mx (demote_one s)"
  by (subst demote_loop.simps) (auto simp: demote_one_def Let_def)

lemma demote_loop_stop: "length (protected_list s) \<le> mx \<Longrightarrow> demote_loop mx s = s"
  by (subst demote_loop.simps) simp

lemma demote_one_ok:
  assumes inv: "slru_inv s" and ne: "protected_list s \<noteq> []"
  shows "slru_inv (demote_one s)" and "tracked (demote_one s) = tracked s"
    and "slru_abs (demote_one s) =
      (butlast (fst (slru_abs s)), last (fst (slru_abs s)) # snd (slru_abs s))"
    and "length (protected_list (demote_one s)) = length (protected_list s) - 1"
proof -
  from ne obtain ys n e where P: "protected_list s = ys @ [(n, e)]"
    by (metis prod.exhaust rev_exhaust)
  note ok = seg_ok_append_last [of "protected_map s" ys n e]
  let ?t = "s\<lparr>protected_map := (protected_map s)(ev_key e := None), protected_list := ys\<rparr>"
  have keys: "seg_keys (protected_list s) = insert (ev_key e) (seg_keys ys)"
    by (simp add: P seg_keys_def)
  have t: "slru_inv ?t"
    using inv ok slru_invD(1,3) [OF inv] unfolding keys by (auto simp: slru_inv_def P)
  have e: "ev_key e \<notin> tracked ?t"
    using ok(2) slru_invD(1,3) [OF inv] unfolding keys by (auto simp: tracked_def P)
  have d: "demote_one s = push_front_probationary e ?t"
    by (simp add: demote_one_def P)
  show "slru_inv (demote_one s)"
    unfolding d using t e by (rule push_front_probationary_ok)
  show "tracked (demote_one s) = tracked s"
    unfolding d push_front_probationary_ok(2) [OF t e] using keys by (auto simp: tracked_def)
  show "slru_abs (demote_one s) =
      (butlast (fst (slru_abs s)), last (fst (slru_abs s)) # snd (slru_abs s))"
    unfolding d push_front_probationary_ok(3) [OF t e] by (simp add: slru_abs_def P)
  show "length (protected_list (demote_one s)) = length (protected_list s) - 1"
    by (simp add: d push_front_probationary_def P)
qed

lemma demote_one_config [simp]: "slru_config (demote_one s) = slru_config s"
  by (simp add: demote_one_def push_front_probationary_def)

text \<open>The loop in closed form: Protected keeps its first \<open>mx\<close> entries.\<close>

lemma demote_loop_ok:
  assumes "slru_inv s"
  shows "slru_inv (demote_loop mx s) \<and> tracked (demote_loop mx s) = tracked s \<and>
    slru_config (demote_loop mx s) = slru_config s \<and>
    slru_abs (demote_loop mx s) =
      (take mx (fst (slru_abs s)), drop mx (fst (slru_abs s)) @ snd (slru_abs s))"
  using assms
proof (induction "length (protected_list s)" arbitrary: s)
  case 0
  then show ?case by (simp add: demote_loop_stop slru_abs_def)
next
  case (Suc n)
  show ?case
  proof (cases "mx < length (protected_list s)")
    case False
    then show ?thesis using Suc.prems by (simp add: demote_loop_stop slru_abs_def)
  next
    case True
    then have ne: "protected_list s \<noteq> []" by auto
    note one = demote_one_ok [OF Suc.prems ne]
    let ?P = "fst (slru_abs s)"
    have P: "?P = butlast ?P @ [last ?P]" and len: "mx \<le> length (butlast ?P)"
      using ne True by (auto simp: slru_abs_def)
    have "take mx ?P = take mx (butlast ?P)" and "drop mx ?P = drop mx (butlast ?P) @ [last ?P]"
      using len by (subst P, simp)+
    moreover have "n = length (protected_list (demote_one s))" using one(4) Suc.hyps(2) by simp
    ultimately show ?thesis
      using Suc.hyps(1) [OF _ one(1)] one(2,3) by (simp add: demote_loop_step [OF True])
  qed
qed

lemmas demote_ok = demote_loop_ok [THEN conjunct1] demote_loop_ok [THEN conjunct2, THEN conjunct1]
  demote_loop_ok [THEN conjunct2, THEN conjunct2, THEN conjunct1]
  demote_loop_ok [THEN conjunct2, THEN conjunct2, THEN conjunct2]

lemma max_protected_pol:
  "max_protected s = pol_capacity (slru_config s)
     (wrap64 (length (fst (slru_abs s)) + length (snd (slru_abs s))))"
  by (simp add: max_protected_def pol_capacity_def slru_abs_def)

lemma slru_hit_protected:
  fixes c :: "32 word" and now :: "64 word"
  assumes inv: "slru_inv s" and k: "protected_map s k = Some it"
  defines "s' \<equiv> s\<lparr>protected_list :=
    splice_front it (list_modify it (refresh c now) (protected_list s))\<rparr>"
  shows "slru_inv s'" and "tracked s' = tracked s"
    and "slru_abs s' = (to_front k (refresh c now) (fst (slru_abs s)), snd (slru_abs s))"
  using inv seg_ok_modify [OF slru_invD(1) [OF inv], THEN seg_ok_splice]
    seg_abs_front [OF slru_invD(1) [OF inv] k]
  by (simp_all add: s'_def slru_inv_def tracked_def slru_abs_def)

lemma slru_hit_probationary:
  fixes c :: "32 word" and now :: "64 word"
  assumes inv: "slru_inv s" and k: "probationary_map s k = Some it"
  defines "s' \<equiv> s\<lparr>probationary_list :=
    splice_front it (list_modify it (refresh c now) (probationary_list s))\<rparr>"
  shows "slru_inv s'" and "tracked s' = tracked s"
    and "slru_abs s' = (fst (slru_abs s), to_front k (refresh c now) (snd (slru_abs s)))"
  using inv seg_ok_modify [OF slru_invD(2) [OF inv], THEN seg_ok_splice]
    seg_abs_front [OF slru_invD(2) [OF inv] k]
  by (simp_all add: s'_def slru_inv_def tracked_def slru_abs_def)

lemma slru_miss:
  assumes "slru_inv s"
  shows "protected_map s k = None \<longleftrightarrow> \<not> has_key k (fst (slru_abs s))"
    and "probationary_map s k = None \<longleftrightarrow> \<not> has_key k (snd (slru_abs s))"
  using seg_ok_None [OF slru_invD(1) [OF assms]] seg_ok_None [OF slru_invD(2) [OF assms]]
  by (simp_all add: slru_abs_def has_key_seg)

lemma tracked_iff:
  "k \<in> tracked s \<longleftrightarrow> has_key k (fst (slru_abs s)) \<or> has_key k (snd (slru_abs s))"
  by (simp add: tracked_def slru_abs_def has_key_seg)

lemma on_insert_ok:
  assumes inv: "slru_inv s"
  shows "slru_inv (on_insert now k c ch s)"
    and "tracked (on_insert now k c ch s) = insert k (tracked s)"
    and "slru_abs (on_insert now k c ch s) = pol_insert now k c ch (slru_abs s)"
proof -
  let ?e = "\<lparr>ev_key = k, ev_recompute_cost = c, ev_chunk_index = ch, ev_last_access_us = now\<rparr>"
  have "slru_inv (on_insert now k c ch s) \<and> tracked (on_insert now k c ch s) = insert k (tracked s) \<and>
    slru_abs (on_insert now k c ch s) = pol_insert now k c ch (slru_abs s)"
  proof (cases "protected_map s k")
    case (Some it)
    with slru_hit_protected [OF inv this, of c now] slru_miss(1) [OF inv, of k] show ?thesis
      by (simp add: on_insert_def pol_insert_def case_prod_beta' insert_absorb tracked_iff)
  next
    case P: None
    show ?thesis
    proof (cases "probationary_map s k")
      case (Some it)
      with P slru_hit_probationary [OF inv this, of c now] slru_miss [OF inv, of k] show ?thesis
        by (simp add: on_insert_def pol_insert_def case_prod_beta' insert_absorb tracked_iff)
    next
      case None
      then have nt: "k \<notin> tracked s" and "\<not> has_key k (fst (slru_abs s))"
        and "\<not> has_key k (snd (slru_abs s))"
        using P slru_miss [OF inv, of k] by (auto simp: tracked_iff)
      with P None push_front_probationary_ok [OF inv, of ?e] show ?thesis
        by (simp add: on_insert_def pol_insert_def case_prod_beta')
    qed
  qed
  then show "slru_inv (on_insert now k c ch s)"
    and "tracked (on_insert now k c ch s) = insert k (tracked s)"
    and "slru_abs (on_insert now k c ch s) = pol_insert now k c ch (slru_abs s)" by auto
qed

text \<open>Promotion: the refreshed node leaves Probationary and becomes the front of Protected.\<close>

definition promote :: "iter \<Rightarrow> StorageKey \<Rightarrow> EvictionEntry \<Rightarrow> CwSlru \<Rightarrow> CwSlru" where
  "promote it k e s = push_front_protected e
     (s\<lparr>probationary_list := list_erase it (probationary_list s),
        probationary_map := (probationary_map s)(k := None)\<rparr>)"

lemma promote_ok:
  assumes inv: "slru_inv s" and k: "probationary_map s k = Some it"
    and e: "list_deref it (probationary_list s) = Some e"
  shows "slru_inv (promote it k e s)" and "tracked (promote it k e s) = tracked s"
    and "slru_abs (promote it k e s) = (e # fst (slru_abs s), without_key k (snd (slru_abs s)))"
    and "slru_config (promote it k e s) = slru_config s"
proof -
  note Q = slru_invD(2) [OF inv]
  let ?t = "s\<lparr>probationary_list := list_erase it (probationary_list s),
        probationary_map := (probationary_map s)(k := None)\<rparr>"
  have ek: "ev_key e = k" using seg_deref [OF Q k] e by auto
  have kt: "k \<in> seg_keys (probationary_list s)" using seg_ok_Some [OF Q k] .
  have t: "slru_inv ?t"
    using inv seg_ok_erase [OF Q k] by (auto simp: slru_inv_def ids_below_mono)
  have nt: "ev_key e \<notin> tracked ?t"
    using seg_ok_erase(2) [OF Q k] slru_invD(3) [OF inv] kt by (auto simp: tracked_def ek)
  note push = push_front_protected_ok [OF t nt]
  show "slru_inv (promote it k e s)" using push(1) by (simp add: promote_def)
  show "tracked (promote it k e s) = tracked s"
    using push(2) seg_ok_erase(2) [OF Q k] kt by (auto simp: promote_def tracked_def ek)
  show "slru_abs (promote it k e s) = (e # fst (slru_abs s), without_key k (snd (slru_abs s)))"
    using push(3) seg_abs_erase [OF Q k] by (simp add: promote_def slru_abs_def)
  show "slru_config (promote it k e s) = slru_config s"
    by (simp add: promote_def push_front_protected_def)
qed

lemma map_refresh_at_key:
  defines "g c now k \<equiv> (\<lambda>e. if ev_key e = k then refresh c now e else e)"
  shows "without_key k (map (g c now k) es) = without_key k es"
    and "filter (\<lambda>e. ev_key e = k) (map (g c now k) es) =
      map (refresh c now) (filter (\<lambda>e. ev_key e = k) es)"
  by (induction es) (simp_all add: g_def without_key_def refresh_def)

lemma without_key_modify:
  assumes "seg_ok m xs" and "m k = Some it"
  shows "without_key k (map snd (list_modify it (refresh c now) xs)) = without_key k (map snd xs)"
    and "filter (\<lambda>e. ev_key e = k) (map snd (list_modify it (refresh c now) xs)) =
      map (refresh c now) (filter (\<lambda>e. ev_key e = k) (map snd xs))"
proof -
  have it: "fst x = it \<longleftrightarrow> ev_key (snd x) = k" if "x \<in> set xs" for x
    using seg_ok_iter [OF assms, of "fst x" "snd x"] that by simp
  have "map snd (list_modify it (refresh c now) xs) =
      map (\<lambda>e. if ev_key e = k then refresh c now e else e) (map snd xs)"
    by (simp add: list_modify_def case_prod_beta' it)
  then show "without_key k (map snd (list_modify it (refresh c now) xs)) = without_key k (map snd xs)"
    and "filter (\<lambda>e. ev_key e = k) (map snd (list_modify it (refresh c now) xs)) =
      map (refresh c now) (filter (\<lambda>e. ev_key e = k) (map snd xs))"
    by (simp_all only: map_refresh_at_key)
qed

lemma on_access_promote:
  assumes inv: "slru_inv s" and P: "protected_map s k = None" and Q: "probationary_map s k = Some it"
    and c: "c \<ge> sc_protection_threshold (slru_config s)"
  shows "slru_inv (on_access now k c ch s) \<and> tracked (on_access now k c ch s) = tracked s \<and>
    slru_abs (on_access now k c ch s) = pol_access (slru_config s) now k c (slru_abs s)"
proof -
  let ?s1 = "s\<lparr>probationary_list := list_modify it (refresh c now) (probationary_list s)\<rparr>"
  note ok = slru_invD(2) [OF inv]
  have s1: "slru_inv ?s1"
    using inv seg_ok_modify [OF ok] by (simp add: slru_inv_def)
  have k1: "probationary_map ?s1 k = Some it" using Q by simp
  obtain e where e: "list_deref it (probationary_list ?s1) = Some e"
    and es: "filter (\<lambda>e. ev_key e = k) (map snd (probationary_list ?s1)) = [e]"
    using seg_deref [OF slru_invD(2) [OF s1] k1] by blast
  note pr = promote_ok [OF s1 k1 e]
  let ?s2 = "promote it k e ?s1"
  have acc: "on_access now k c ch s = demote_loop (max_protected ?s2) ?s2"
    using P Q c e by (simp add: on_access_def promote_def demote_protected_overflow_def Let_def)
  have has: "\<not> has_key k (fst (slru_abs s))" "has_key k (snd (slru_abs s))"
    using slru_miss [OF inv, of k] P Q by simp_all
  have abs2: "slru_abs ?s2 = (map (refresh c now) (filter (\<lambda>e. ev_key e = k) (snd (slru_abs s))) @
      fst (slru_abs s), without_key k (snd (slru_abs s)))"
    using pr(3) es without_key_modify [OF ok Q, of c now] by (simp add: slru_abs_def)
  have "slru_abs (on_access now k c ch s) = pol_access (slru_config s) now k c (slru_abs s)"
    unfolding acc demote_ok(4) [OF pr(1)] max_protected_pol pr(4) abs2
    using has c by (simp add: pol_access_def case_prod_beta' Let_def)
  moreover have "tracked ?s1 = tracked s" by (simp add: tracked_def)
  ultimately show ?thesis
    using demote_ok(1,2) [OF pr(1)] pr(2) by (simp add: acc)
qed

lemma on_access_ok:
  assumes inv: "slru_inv s"
  shows "slru_inv (on_access now k c ch s)"
    and "tracked (on_access now k c ch s) = tracked s"
    and "slru_abs (on_access now k c ch s) = pol_access (slru_config s) now k c (slru_abs s)"
proof -
  have "slru_inv (on_access now k c ch s) \<and> tracked (on_access now k c ch s) = tracked s \<and>
    slru_abs (on_access now k c ch s) = pol_access (slru_config s) now k c (slru_abs s)"
  proof (cases "protected_map s k")
    case (Some it)
    with slru_hit_protected [OF inv this, of c now] slru_miss(1) [OF inv, of k] show ?thesis
      by (simp add: on_access_def pol_access_def case_prod_beta')
  next
    case P: None
    show ?thesis
    proof (cases "probationary_map s k")
      case None
      with P inv slru_miss [OF inv, of k] show ?thesis
        by (simp add: on_access_def pol_access_def case_prod_beta')
    next
      case (Some it)
      show ?thesis
      proof (cases "c \<ge> sc_protection_threshold (slru_config s)")
        case True
        with on_access_promote [OF inv P Some] show ?thesis by simp
      next
        case False
        with P Some slru_hit_probationary [OF inv Some, of c now] slru_miss [OF inv, of k]
        show ?thesis by (simp add: on_access_def pol_access_def case_prod_beta')
      qed
    qed
  qed
  then show "slru_inv (on_access now k c ch s)"
    and "tracked (on_access now k c ch s) = tracked s"
    and "slru_abs (on_access now k c ch s) = pol_access (slru_config s) now k c (slru_abs s)"
    by auto
qed

lemma on_remove_ok:
  assumes inv: "slru_inv s"
  shows "slru_inv (on_remove k s)"
    and "tracked (on_remove k s) = tracked s - {k}"
    and "slru_abs (on_remove k s) = pol_remove k (slru_abs s)"
proof -
  note ok = slru_invD(1,2) [OF inv] and dj = slru_invD(3) [OF inv]
  have "slru_inv (on_remove k s) \<and> tracked (on_remove k s) = tracked s - {k} \<and>
    slru_abs (on_remove k s) = pol_remove k (slru_abs s)"
  proof (cases "protected_map s k")
    case (Some it)
    note er = seg_ok_erase [OF ok(1) Some]
    have "k \<notin> seg_keys (probationary_list s)" using seg_ok_Some [OF ok(1) Some] dj by auto
    then have "without_key k (map snd (probationary_list s)) = map snd (probationary_list s)"
      by (simp add: without_key_id has_key_seg)
    moreover have "slru_inv (on_remove k s)"
      using Some inv er by (auto simp: on_remove_def slru_inv_def ids_below_mono)
    ultimately show ?thesis
      using Some er(2) seg_abs_erase [OF ok(1) Some] \<open>k \<notin> seg_keys (probationary_list s)\<close>
      by (auto simp: on_remove_def tracked_def slru_abs_def pol_remove_def)
  next
    case P: None
    then have p: "k \<notin> seg_keys (protected_list s)" using seg_ok_None [OF ok(1)] by simp
    then have p': "without_key k (map snd (protected_list s)) = map snd (protected_list s)"
      by (simp add: without_key_id has_key_seg)
    show ?thesis
    proof (cases "probationary_map s k")
      case (Some it)
      note er = seg_ok_erase [OF ok(2) Some]
      have "slru_inv (on_remove k s)"
        using P Some inv er by (auto simp: on_remove_def slru_inv_def ids_below_mono)
      then show ?thesis
        using P Some er(2) seg_abs_erase [OF ok(2) Some] p p'
        by (auto simp: on_remove_def tracked_def slru_abs_def pol_remove_def)
    next
      case None
      then have q: "k \<notin> seg_keys (probationary_list s)" using seg_ok_None [OF ok(2)] by simp
      then have "without_key k (map snd (probationary_list s)) = map snd (probationary_list s)"
        by (simp add: without_key_id has_key_seg)
      then show ?thesis
        using P None inv p p' q
        by (simp add: on_remove_def tracked_def slru_abs_def pol_remove_def)
    qed
  qed
  then show "slru_inv (on_remove k s)" and "tracked (on_remove k s) = tracked s - {k}"
    and "slru_abs (on_remove k s) = pol_remove k (slru_abs s)" by auto
qed

subsection \<open>The victim scan\<close>

text \<open>Keeping a strictly better candidate on the way finds the first best element.\<close>

lemma foldl_first_best:
  fixes f :: "'a \<Rightarrow> 'b::linorder"
  shows "List.find (\<lambda>v. \<forall>e \<in> set (b # ys). f e \<le> f v) (b # ys) =
    Some (foldl (\<lambda>b x. if f b < f x then x else b) b ys)"
proof (induction ys arbitrary: b)
  case Nil
  show ?case by simp
next
  case (Cons x ys)
  show ?case
  proof (cases "f b < f x")
    case True
    then have "(\<forall>e \<in> set (b # x # ys). f e \<le> f v) \<longleftrightarrow> (\<forall>e \<in> set (x # ys). f e \<le> f v)" for v
      by auto
    moreover from True have "\<not> f x \<le> f b" by simp
    ultimately show ?thesis using True Cons.IH [of x] by simp
  next
    case False
    then have "(\<forall>e \<in> set (b # x # ys). f e \<le> f v) \<longleftrightarrow> (\<forall>e \<in> set (b # ys). f e \<le> f v)" for v
      by auto
    with False Cons.IH [of b] show ?thesis by (force split: if_splits)
  qed
qed

definition better :: "iter \<times> EvictionEntry \<Rightarrow> iter \<times> EvictionEntry \<Rightarrow> iter \<times> EvictionEntry" where
  "better b x = (if victim_rank (snd b) < victim_rank (snd x) then x else b)"

lemma victim_loop_Cons:
  "victim_loop n b (x # xs) = (if n < 8 then victim_loop (Suc n) (better b x) xs else b)"
  by (auto simp: better_def victim_rank_def less_prod_def' word_less_def)

declare victim_loop.simps(2) [simp del]

lemma victim_loop_foldl: "victim_loop n b xs = foldl better b (take (8 - n) xs)"
proof (induction xs arbitrary: n b)
  case (Cons x xs)
  have "take (8 - n) (x # xs) = (if n < 8 then x # take (8 - Suc n) xs else [])"
    by (auto simp: take_Cons')
  then show ?case by (simp add: victim_loop_Cons Cons.IH)
qed simp

lemma find_map: "List.find P (map f xs) = map_option f (List.find (P \<circ> f) xs)"
  by (induction xs) auto

lemma find_best_victim_pol:
  "map_option snd (find_best_victim seg) = pol_victim (map snd seg)"
proof (cases "rev seg")
  case Nil
  then show ?thesis by (simp add: find_best_victim_def pol_victim_def cold_window_def)
next
  case (Cons b ys)
  have w: "cold_window (map snd seg) = map snd (b # take 7 ys)"
    by (simp add: cold_window_def rev_map Cons flip: take_map)
  have "find_best_victim seg = Some (foldl better b (b # take 7 ys))"
    by (simp add: find_best_victim_def Cons victim_loop_foldl)
  also have "foldl better b (b # take 7 ys) = foldl better b (take 7 ys)"
    by (simp add: better_def)
  also have "Some (foldl better b (take 7 ys)) =
      List.find (\<lambda>v. \<forall>e \<in> set (b # take 7 ys). victim_rank (snd e) \<le> victim_rank (snd v)) (b # take 7 ys)"
    unfolding foldl_first_best [of b "take 7 ys" "victim_rank \<circ> snd", unfolded comp_def]
    by (simp only: better_def [abs_def])
  finally show ?thesis
    unfolding pol_victim_def w find_map by (simp add: comp_def)
qed

lemma find_best_victim_in:
  assumes "find_best_victim seg = Some v"
  shows "v \<in> set seg"
proof -
  from assms obtain b ys where b: "rev seg = b # ys" and v: "v = foldl better b (take 8 (b # ys))"
    by (auto simp: find_best_victim_def victim_loop_foldl split: list.splits)
  have "foldl better b xs \<in> insert b (set xs)" for b xs
    by (induction xs arbitrary: b) (force simp: better_def)+
  then have "v \<in> insert b (set (take 8 (b # ys)))" unfolding v .
  also have "\<dots> \<subseteq> set (rev seg)" using b set_take_subset [of 8 "b # ys"] by auto
  finally show ?thesis by simp
qed

lemma without_key_victim:
  assumes "seg_ok m seg" and "find_best_victim seg = Some v"
  shows "m (ev_key (snd v)) = Some (fst v)"
  using find_best_victim_in [OF assms(2)] seg_okD(3) [OF assms(1)] by (metis prod.collapse)

lemma pol_victim_Some:
  "find_best_victim seg = Some v \<Longrightarrow> pol_victim (map snd seg) = Some (snd v)"
  "find_best_victim seg = None \<longleftrightarrow> pol_victim (map snd seg) = None"
  using find_best_victim_pol [of seg] by (auto simp flip: find_best_victim_pol)

lemma victim_rank_le_iff:
  "victim_rank e \<le> victim_rank v \<longleftrightarrow> ev_chunk_index e < ev_chunk_index v \<or>
     ev_chunk_index e = ev_chunk_index v \<and> ev_recompute_cost v \<le> ev_recompute_cost e"
  by (auto simp: victim_rank_def less_eq_prod_def
      word_le_def [of "ev_recompute_cost v" "ev_recompute_cost e"])

lemma find_best_victim_None: "find_best_victim seg = None \<longleftrightarrow> seg = []"
  by (auto simp: find_best_victim_def split: list.splits)

lemma evict_ok:
  assumes inv: "slru_inv s"
  shows "slru_inv (snd (evict s))"
    and "(fst (evict s), slru_abs (snd (evict s))) = pol_evict (slru_abs s)"
    and "fst (evict s) = Some k \<Longrightarrow> k \<in> tracked s \<and> tracked (snd (evict s)) = tracked s - {k}"
    and "fst (evict s) = None \<longleftrightarrow> tracked s = {}"
proof -
  note ok = slru_invD(1,2) [OF inv] and dj = slru_invD(3) [OF inv]
  have "slru_inv (snd (evict s)) \<and>
    (fst (evict s), slru_abs (snd (evict s))) = pol_evict (slru_abs s) \<and>
    (\<forall>k. fst (evict s) = Some k \<longrightarrow> k \<in> tracked s \<and> tracked (snd (evict s)) = tracked s - {k}) \<and>
    (fst (evict s) = None \<longleftrightarrow> tracked s = {})"
  proof (cases "find_best_victim (probationary_list s)")
    case (Some v)
    note it = without_key_victim [OF ok(2) Some]
    note er = seg_ok_erase [OF ok(2) it]
    have k: "ev_key (snd v) \<in> seg_keys (probationary_list s)" using seg_ok_Some [OF ok(2) it] .
    have "slru_inv (snd (evict s))"
      using Some inv er by (auto simp: evict_def slru_inv_def ids_below_mono Let_def)
    moreover have "(fst (evict s), slru_abs (snd (evict s))) = pol_evict (slru_abs s)"
      using Some pol_victim_Some(1) [OF Some] seg_abs_erase [OF ok(2) it]
      by (simp add: evict_def pol_evict_def slru_abs_def Let_def)
    ultimately show ?thesis
      using Some er(2) k dj by (auto simp: evict_def tracked_def Let_def)
  next
    case Q: None
    then have q: "probationary_list s = []" by (simp add: find_best_victim_None)
    have qv: "pol_victim (map snd (probationary_list s)) = None" using Q pol_victim_Some(2) by blast
    show ?thesis
    proof (cases "find_best_victim (protected_list s)")
      case (Some v)
      note it = without_key_victim [OF ok(1) Some]
      note er = seg_ok_erase [OF ok(1) it]
      have k: "ev_key (snd v) \<in> seg_keys (protected_list s)" using seg_ok_Some [OF ok(1) it] .
      have "slru_inv (snd (evict s))"
        using Q Some inv er by (auto simp: evict_def slru_inv_def ids_below_mono Let_def)
      moreover have "(fst (evict s), slru_abs (snd (evict s))) = pol_evict (slru_abs s)"
        using Q Some qv pol_victim_Some(1) [OF Some] seg_abs_erase [OF ok(1) it]
        by (simp add: evict_def pol_evict_def slru_abs_def Let_def)
      ultimately show ?thesis
        using Q Some er(2) k dj q by (auto simp: evict_def tracked_def Let_def seg_keys_def)
    next
      case None
      then have p: "protected_list s = []" by (simp add: find_best_victim_None)
      have pv: "pol_victim (map snd (protected_list s)) = None" using None pol_victim_Some(2) by blast
      show ?thesis
        using Q None inv p q pv qv
        by (simp add: evict_def pol_evict_def slru_abs_def tracked_def seg_keys_def)
    qed
  qed
  then show "slru_inv (snd (evict s))"
    and "(fst (evict s), slru_abs (snd (evict s))) = pol_evict (slru_abs s)"
    and "fst (evict s) = Some k \<Longrightarrow> k \<in> tracked s \<and> tracked (snd (evict s)) = tracked s - {k}"
    and "fst (evict s) = None \<longleftrightarrow> tracked s = {}" by auto
qed

lemma evict_length:
  assumes "evict s = (Some k, s')"
  shows "length (protected_list s') + length (probationary_list s') <
    length (protected_list s) + length (probationary_list s)"
proof -
  have "length (list_erase (fst v) xs) < length xs" if "v \<in> set xs" for v xs
    using that unfolding list_erase_def by (intro length_filter_less) auto
  with assms show ?thesis
    by (auto simp: evict_def Let_def split: option.splits dest!: find_best_victim_in)
qed

section \<open>The eviction interface\<close>

text \<open>
  What the engine relies on: an invariant, the set of tracked keys, and what each operation
  does to that set.
\<close>

locale eviction_policy =
  fixes invar :: "'s \<Rightarrow> bool"
    and keys :: "'s \<Rightarrow> StorageKey set"
    and ins :: "64 word \<Rightarrow> StorageKey \<Rightarrow> 32 word \<Rightarrow> 32 word \<Rightarrow> 's \<Rightarrow> 's"
    and acc :: "64 word \<Rightarrow> StorageKey \<Rightarrow> 32 word \<Rightarrow> 32 word \<Rightarrow> 's \<Rightarrow> 's"
    and rem :: "StorageKey \<Rightarrow> 's \<Rightarrow> 's"
    and evi :: "'s \<Rightarrow> StorageKey option \<times> 's"
  assumes invar_ins: "invar s \<Longrightarrow> invar (ins now k c ch s)"
    and invar_acc: "invar s \<Longrightarrow> invar (acc now k c ch s)"
    and invar_rem: "invar s \<Longrightarrow> invar (rem k s)"
    and invar_evi: "invar s \<Longrightarrow> invar (snd (evi s))"
    and keys_finite: "invar s \<Longrightarrow> finite (keys s)"
    and keys_ins: "invar s \<Longrightarrow> keys (ins now k c ch s) = insert k (keys s)"
    and keys_acc: "invar s \<Longrightarrow> keys (acc now k c ch s) = keys s"
    and keys_rem: "invar s \<Longrightarrow> keys (rem k s) = keys s - {k}"
    and evi_Some: "invar s \<Longrightarrow> fst (evi s) = Some k \<Longrightarrow> k \<in> keys s \<and> keys (snd (evi s)) = keys s - {k}"
    and evi_None: "invar s \<Longrightarrow> fst (evi s) = None \<longleftrightarrow> keys s = {}"
begin

lemma evi_card:
  assumes "invar s" and "evi s = (Some k, s')"
  shows "card (keys s) = Suc (card (keys s'))"
proof -
  have "k \<in> keys s" and "keys s' = keys s - {k}"
    using evi_Some [OF assms(1), of k] assms(2) by auto
  then show ?thesis
    using keys_finite [OF assms(1)] by (metis card_Suc_Diff1)
qed

text \<open>Evicting as often as there are keys leaves nothing, and yields every key once.\<close>

lemma drain:
  assumes "invar s"
  shows "keys (((snd \<circ> evi) ^^ card (keys s)) s) = {}"
  using assms
proof (induction "card (keys s)" arbitrary: s)
  case 0
  then show ?case using keys_finite [OF 0(2)] by simp
next
  case (Suc n)
  then have "keys s \<noteq> {}" by auto
  then obtain k where k: "evi s = (Some k, snd (evi s))"
    using evi_None [OF Suc.prems] by (metis option.exhaust prod.collapse)
  then have "n = card (keys (snd (evi s)))" using evi_card [OF Suc.prems k] Suc.hyps(2) by simp
  with Suc.hyps(1) [OF this invar_evi [OF Suc.prems]] Suc.hyps(2) show ?case
    by (metis comp_apply funpow.simps(2) funpow_swap1)
qed

lemma reinsert: "invar s \<Longrightarrow> keys (ins now k c ch (rem k s)) = insert k (keys s)"
  by (simp add: keys_ins invar_rem keys_rem)

end

interpretation slru: eviction_policy slru_inv tracked on_insert on_access on_remove evict
proof
  show "finite (tracked s)" for s
    by (simp add: tracked_def seg_keys_def)
qed (auto simp: on_insert_ok on_access_ok on_remove_ok evict_ok dest: evict_ok(3))

section \<open>Runs\<close>

datatype slru_op =
    OpInsert "64 word" StorageKey "32 word" "32 word"
  | OpAccess "64 word" StorageKey "32 word" "32 word"
  | OpRemove StorageKey
  | OpEvict

fun slru_apply :: "slru_op \<Rightarrow> CwSlru \<Rightarrow> CwSlru" where
  "slru_apply (OpInsert now k c ch) s = on_insert now k c ch s"
| "slru_apply (OpAccess now k c ch) s = on_access now k c ch s"
| "slru_apply (OpRemove k) s = on_remove k s"
| "slru_apply OpEvict s = snd (evict s)"

inductive slru_reachable :: "SlruConfig \<Rightarrow> CwSlru \<Rightarrow> bool" for cfg where
  create: "slru_reachable cfg (slru_create cfg)"
| apply_op: "slru_reachable cfg s \<Longrightarrow> slru_reachable cfg (slru_apply op s)"

lemma slru_apply_inv: "slru_inv s \<Longrightarrow> slru_inv (slru_apply op s)"
  by (cases op) (simp_all add: on_insert_ok on_access_ok on_remove_ok evict_ok)

lemma slru_reachable_inv_aux: "slru_reachable cfg s \<Longrightarrow> slru_inv s"
  by (induction rule: slru_reachable.induct) (simp_all add: slru_inv_create slru_apply_inv)

lemma slru_apply_config: "slru_config (slru_apply op s) = slru_config s"
proof (cases op)
  case (OpAccess now k c ch)
  have "slru_config (demote_loop mx t) = slru_config t" for mx t
    by (induction mx t rule: demote_loop.induct)
      (subst demote_loop.simps, simp add: Let_def push_front_probationary_def)
  with OpAccess show ?thesis
    by (simp add: on_access_def demote_protected_overflow_def push_front_protected_def Let_def
        split: option.splits)
qed (auto simp: on_insert_def push_front_probationary_def on_remove_def evict_def Let_def
      split: option.splits)

lemma slru_reachable_config: "slru_reachable cfg s \<Longrightarrow> slru_config s = cfg"
  by (induction rule: slru_reachable.induct) (simp_all add: slru_create_def slru_apply_config)

lemma length_to_front [simp]: "length (to_front k f es) = length es"
  using sum_length_filter_compl [of "\<lambda>e. ev_key e = k" es]
  by (simp add: to_front_def without_key_def)

lemma length_without_key: "length (without_key k es) \<le> length es"
  by (simp add: without_key_def)

lemma pol_length_bounds:
  "length (fst (pol_insert now k c ch p)) = length (fst p)"
  "length (fst (pol_remove k p)) \<le> length (fst p)"
  "length (fst (snd (pol_evict p))) \<le> length (fst p)"
  by (auto simp: pol_insert_def pol_remove_def pol_evict_def length_without_key
      split: prod.splits option.splits)

lemma pol_access_bound:
  assumes "sc_max_entries cfg > 0" and "length (fst p) \<le> pol_capacity cfg 0"
  shows "length (fst (pol_access cfg now k c p)) \<le> pol_capacity cfg 0"
  using assms by (auto simp: pol_access_def pol_capacity_def Let_def split: prod.splits)

lemma slru_apply_protected_bound:
  assumes inv: "slru_inv s" and mx: "sc_max_entries (slru_config s) > 0"
    and le: "protected_size s \<le> pol_capacity (slru_config s) 0"
  shows "protected_size (slru_apply op s) \<le> pol_capacity (slru_config s) 0"
proof -
  have len: "protected_size t = length (fst (slru_abs t))" for t
    by (simp add: protected_size_def slru_abs_def)
  have ev: "slru_abs (snd (evict s)) = snd (pol_evict (slru_abs s))"
    using evict_ok(2) [OF inv] by (metis snd_conv)
  have rem: "length (fst (pol_remove k (slru_abs s))) \<le> pol_capacity (slru_config s) 0" for k
    using pol_length_bounds(2) [of k "slru_abs s"] le by (simp add: len)
  show ?thesis
    using le pol_length_bounds(1) [of _ _ _ _ "slru_abs s"] rem
      pol_length_bounds(3) [of "slru_abs s"] pol_access_bound [OF mx, of "slru_abs s"]
    by (cases op)
      (auto simp: len ev on_insert_ok [OF inv] on_access_ok [OF inv] on_remove_ok [OF inv])
qed

text \<open>
  C31. Whatever sequence of inserts, accesses, removals and evictions runs, the hash maps and
  the lists stay in step: a map entry exists exactly for the keys of its list and its iterator
  denotes a live node holding that key, and no key is in both segments.
\<close>

theorem slru_maps_lists_in_step:
  assumes "slru_reachable cfg s"
  shows "(protected_map s k = Some it \<longleftrightarrow>
        (\<exists>e. list_deref it (protected_list s) = Some e \<and> ev_key e = k)) \<and>
    (probationary_map s k = Some it \<longleftrightarrow>
        (\<exists>e. list_deref it (probationary_list s) = Some e \<and> ev_key e = k)) \<and>
    \<not> (k \<in> dom (protected_map s) \<and> k \<in> dom (probationary_map s))"
  using slru_invD [OF slru_reachable_inv_aux [OF assms]] seg_okD seg_ok_dom
  by (auto simp: list_deref_def map_of_eq_Some_iff disjoint_iff)

definition wkey :: "64 word \<Rightarrow> 32 word \<Rightarrow> StorageKey" where
  "wkey m ci = \<lparr>model_id = m, tenant_id = 0, chunk_hash = 0, layer_group_id = 0, chunk_index = ci\<rparr>"

definition wslru :: CwSlru where
  "wslru = slru_apply (OpInsert 7 (wkey 2 9) 60 9)
     (slru_apply (OpInsert 5 (wkey 1 0) 50 0) (slru_create default_slru_config))"

lemma wslru_reachable: "slru_reachable default_slru_config wslru"
  unfolding wslru_def by (intro slru_reachable.intros)

theorem slru_maps_lists_in_step_witness:
  "probationary_map wslru (wkey 1 0) = Some 0 \<and>
   (\<exists>e. list_deref 0 (probationary_list wslru) = Some e \<and> ev_key e = wkey 1 0)"
  using slru_maps_lists_in_step [OF wslru_reachable, of "wkey 1 0" 0]
  by (simp add: wslru_def slru_create_def on_insert_def push_front_probationary_def wkey_def)

text \<open>
  C30. Refinement: read as two plain sequences of entries, the structure behaves exactly as the
  policy. An insert or access moves the entry to the front of its segment with its cost
  refreshed, an access with a cost at or above the threshold moves it to the front of Protected
  and cuts Protected to its capacity, the cut entries keeping their order in front of
  Probationary; a removal drops the key; an eviction drops the policy's victim.
\<close>

theorem slru_refines_policy:
  assumes "slru_reachable cfg s"
  shows "slru_abs (on_insert now k c ch s) = pol_insert now k c ch (slru_abs s) \<and>
    slru_abs (on_access now k c ch s) = pol_access cfg now k c (slru_abs s) \<and>
    slru_abs (on_remove k s) = pol_remove k (slru_abs s) \<and>
    (fst (evict s), slru_abs (snd (evict s))) = pol_evict (slru_abs s)"
  using slru_reachable_inv_aux [OF assms] slru_reachable_config [OF assms]
  by (simp add: on_insert_ok on_access_ok on_remove_ok evict_ok(2))

theorem slru_refines_policy_witness:
  "fst (evict wslru) = Some (wkey 2 9)"
  using slru_refines_policy [OF wslru_reachable]
  by (simp add: wslru_def slru_create_def on_insert_def push_front_probationary_def wkey_def
      slru_abs_def pol_evict_def pol_victim_def cold_window_def victim_rank_def)

text \<open>
  C32. Eviction prefers Probationary; within the segment the victim is among its eight coldest
  entries and no entry of that window has a larger chunk index, or the same chunk index and a
  smaller recompute cost (suffix chunks and cheap entries go first).
\<close>

theorem evict_victim_optimal:
  assumes "slru_reachable cfg s" and "fst (evict s) = Some k"
  defines "seg \<equiv> (if probationary_list s \<noteq> [] then probationary_list s else protected_list s)"
  shows "\<exists>v \<in> set (take 8 (rev (map snd seg))). ev_key v = k \<and>
    (\<forall>e \<in> set (take 8 (rev (map snd seg))).
       ev_chunk_index e < ev_chunk_index v \<or>
       ev_chunk_index e = ev_chunk_index v \<and> ev_recompute_cost v \<le> ev_recompute_cost e)"
proof -
  have ab: "pol_evict (slru_abs s) = (Some k, slru_abs (snd (evict s)))"
    using evict_ok(2) [OF slru_reachable_inv_aux [OF assms(1)]] assms(2) by simp
  have "pol_victim (map snd (probationary_list s)) = None \<longleftrightarrow> probationary_list s = []"
    using pol_victim_Some(2) find_best_victim_None by blast
  with ab obtain v where v: "pol_victim (map snd seg) = Some v" and k: "ev_key v = k"
    by (auto simp: pol_evict_def slru_abs_def seg_def split: option.splits if_splits)
  have "v \<in> set (cold_window (map snd seg))"
    and "\<forall>e \<in> set (cold_window (map snd seg)). victim_rank e \<le> victim_rank v"
    using v unfolding pol_victim_def find_Some_iff by (auto intro: nth_mem)
  then show ?thesis
    using k by (auto simp: cold_window_def victim_rank_le_iff intro!: bexI [of _ v])
qed

theorem evict_victim_optimal_witness:
  "fst (evict wslru) = Some (wkey 2 9) \<and>
   (\<exists>v \<in> set (take 8 (rev (map snd (probationary_list wslru)))). ev_key v = wkey 2 9)"
proof -
  have ev: "fst (evict wslru) = Some (wkey 2 9)" and ne: "probationary_list wslru \<noteq> []"
    by (simp_all add: wslru_def slru_create_def on_insert_def push_front_probationary_def wkey_def
        evict_def find_best_victim_def victim_loop.simps Let_def)
  from evict_victim_optimal [OF wslru_reachable ev] ne ev show ?thesis by auto
qed

text \<open>
  With a configured capacity (\<open>max_entries > 0\<close>) the Protected segment never holds more
  than \<open>max_entries * protected_ratio\<close> entries, rounded down, in any reachable state.
\<close>

lemma protected_capacity:
  assumes "slru_reachable cfg s" and "sc_max_entries cfg > 0"
  shows "protected_size s \<le>
    d_trunc (d_mult (d_of_nat (sc_max_entries cfg)) (sc_protected_ratio cfg))"
proof -
  have "protected_size s \<le> pol_capacity cfg 0"
    using assms
  proof (induction rule: slru_reachable.induct)
    case create
    then show ?case by (simp add: protected_size_def slru_create_def)
  next
    case (apply_op s op)
    then show ?case
      using slru_apply_protected_bound [of s op] slru_reachable_inv_aux slru_reachable_config by auto
  qed
  then show ?thesis using assms(2) by (simp add: pol_capacity_def)
qed

text \<open>What a promotion does to the sizes, on the policy.\<close>

lemma pol_access_sizes:
  assumes has: "\<not> has_key k P" and one: "length (filter (\<lambda>e. ev_key e = k) Q) = 1" and c: "c \<ge> sc_protection_threshold cfg"
  shows "length (fst (pol_access cfg now k c (P, Q))) = min (Suc (length P)) (pol_capacity cfg (wrap64 (length P + length Q)))"
    and "length (fst (pol_access cfg now k c (P, Q))) + length (snd (pol_access cfg now k c (P, Q))) = length P + length Q"
proof -
  have "filter (\<lambda>e. ev_key e = k) Q \<noteq> []" using one by auto
  then have hasQ: "has_key k Q" by (auto simp: has_key_def filter_empty_conv)
  have len: "length Q = Suc (length (without_key k Q))"
    using sum_length_filter_compl [of "\<lambda>e. ev_key e = k" Q] one by (simp add: without_key_def)
  show "length (fst (pol_access cfg now k c (P, Q))) = min (Suc (length P)) (pol_capacity cfg (wrap64 (length P + length Q)))"
    "length (fst (pol_access cfg now k c (P, Q))) + length (snd (pol_access cfg now k c (P, Q))) = length P + length Q"
    using has hasQ c one len by (simp_all add: pol_access_def Let_def)
qed

text \<open>
  C37. An access that promotes an entry respects the share of the Protected segment. In every
  reachable state, an access to a key of the Probationary segment with at least the threshold's
  cost adds one entry to the Protected segment and then demotes exactly those beyond the
  capacity, the configured ratio, rounded down, of \<open>max_entries\<close> or, when that is 0 as in the
  engine, of the number of tracked entries; no entry is lost.
\<close>

theorem protected_size_bounded:
  assumes "slru_reachable cfg s" and "probationary_map s k = Some it" and "cost \<ge> sc_protection_threshold cfg"
    and "protected_size s + probationary_size s < 2 ^ 64"
  shows "protected_size (on_access now k cost chunk s) = min (Suc (protected_size s))
      (d_trunc (d_mult (d_of_nat (if sc_max_entries cfg > 0 then sc_max_entries cfg else protected_size s + probationary_size s))
        (sc_protected_ratio cfg))) \<and>
    protected_size (on_access now k cost chunk s) + probationary_size (on_access now k cost chunk s) =
      protected_size s + probationary_size s"
proof -
  note inv = slru_reachable_inv_aux [OF assms(1)] and cfg = slru_reachable_config [OF assms(1)]
  have sz: "protected_size t = length (fst (slru_abs t))" "probationary_size t = length (snd (slru_abs t))" for t
    by (simp_all add: protected_size_def probationary_size_def slru_abs_def)
  have "k \<in> seg_keys (probationary_list s)" using slru_invD(2) [OF inv] assms(2) by (force simp: seg_ok_def seg_keys_def)
  then have "k \<notin> seg_keys (protected_list s)" using inv by (auto simp: slru_inv_def)
  then have P: "\<not> has_key k (fst (slru_abs s))" by (simp add: slru_abs_def has_key_seg)
  obtain e where "filter (\<lambda>e. ev_key e = k) (map snd (probationary_list s)) = [e]"
    using seg_deref [OF slru_invD(2) [OF inv] assms(2)] by blast
  then have Q: "length (filter (\<lambda>e. ev_key e = k) (snd (slru_abs s))) = 1" by (simp add: slru_abs_def)
  note A = pol_access_sizes [OF P Q assms(3), of now, unfolded prod.collapse]
  show ?thesis
    using A assms(4) unfolding sz on_access_ok(3) [OF inv] cfg by (simp add: pol_capacity_def wrap64_id)
qed

text \<open>Four entries under the engine's settings: one of them may be protected.\<close>

definition four_keys :: CwSlru where
  "four_keys = fold (\<lambda>n. slru_apply (OpInsert 1 (wkey n 0) 200 0)) [1, 2, 3, 4] (slru_create default_slru_config)"

theorem protected_size_bounded_witness:
  "protected_size (on_access 2 (wkey 1 0) 200 0 four_keys) = 1 \<and>
   (\<exists>k it. probationary_map (on_access 2 (wkey 1 0) 200 0 four_keys) k = Some it \<and>
      protected_size (on_access 3 k 200 0 (on_access 2 (wkey 1 0) 200 0 four_keys)) = 1)"
proof -
  let ?t = "on_access 2 (wkey 1 0) 200 0 four_keys"
  have cap: "d_trunc (d_mult (d_of_nat 4) (fl (25 / 100))) = 1" by code_simp
  have r: "slru_reachable default_slru_config four_keys" "slru_reachable default_slru_config ?t"
    unfolding four_keys_def fold.simps comp_apply id_apply slru_apply.simps(2) [symmetric] by (intro slru_reachable.intros)+
  have "probationary_map four_keys (wkey 1 0) = Some 0" "protected_size four_keys = 0" "probationary_size four_keys = 4"
    by (simp_all add: four_keys_def slru_create_def on_insert_def push_front_probationary_def wkey_def
        protected_size_def probationary_size_def)
  with protected_size_bounded [OF r(1), of "wkey 1 0" 0 200 2 0] cap have t: "protected_size ?t = 1" "probationary_size ?t = 3"
    by (simp_all add: default_slru_config_def)
  then obtain i e where "(i, e) \<in> set (probationary_list ?t)"
    by (cases "probationary_list ?t") (auto simp: probationary_size_def)
  then have k: "probationary_map ?t (ev_key e) = Some i"
    using slru_invD(2) [OF slru_reachable_inv_aux [OF r(2)]] by (auto simp: seg_ok_def)
  from protected_size_bounded [OF r(2) this, of 200 3 0] t cap
  have "protected_size (on_access 3 (ev_key e) 200 0 ?t) = 1" by (simp add: default_slru_config_def)
  with k t(1) show ?thesis by blast
qed

end
