(* ===== verification/Admission.thy ===== *)
theory Admission
  imports Config
begin

text \<open>
  \<open>src/admission/admission.{h,cpp}\<close>: the put options, the three admission rules with the
  utilization-dependent threshold, and the evaluation counters.
\<close>

record PutOpts =
  po_num_tokens :: "32 word"
  po_recompute_cost :: "32 word"
  po_entry_type :: EntryType
  po_ttl_seconds :: "32 word"

datatype AdmissionResult = kAdmit | kRejectLowCost | kRejectDynamicThreshold

record AdmissionControl =
  ad_config :: AdmissionConfig
  total_evaluated :: nat
  total_rejected :: nat

definition admission_create :: "AdmissionConfig \<Rightarrow> AdmissionControl" where
  "admission_create cfg = \<lparr>ad_config = cfg, total_evaluated = 0, total_rejected = 0\<rparr>"

definition dynamic_threshold :: "AdmissionControl \<Rightarrow> double \<Rightarrow> 32 word" where
  "dynamic_threshold a utilization =
     (if utilization < fl (7 / 10) then 0
      else if utilization > fl (9 / 10) then ac_base_threshold (ad_config a) * 2
      else
        let fraction = d_div (d_sub utilization (fl (7 / 10))) (fl (2 / 10))
        in of_nat (d_trunc (d_mult (d_of_nat (unat (ac_base_threshold (ad_config a)))) fraction)))"

definition evaluate :: "AdmissionControl \<Rightarrow> PutOpts \<Rightarrow> double \<Rightarrow> AdmissionResult" where
  "evaluate a opts storage_utilization =
     (if po_entry_type opts = kSystemPrompt then kAdmit
      else if po_recompute_cost opts < ac_min_recompute_cost (ad_config a) then kRejectLowCost
      else
        let threshold = dynamic_threshold a storage_utilization
        in if threshold > 0 \<and> po_recompute_cost opts < threshold then kRejectDynamicThreshold
           else kAdmit)"

definition record_evaluation :: "AdmissionResult \<Rightarrow> AdmissionControl \<Rightarrow> AdmissionControl" where
  "record_evaluation result a =
     (let a = a\<lparr>total_evaluated := wrap64 (total_evaluated a + 1)\<rparr>
      in if result \<noteq> kAdmit then a\<lparr>total_rejected := wrap64 (total_rejected a + 1)\<rparr> else a)"

section \<open>The threshold\<close>

lemma threshold_constants:
  "fl (7 / 10) = 3152519739159347 / 4503599627370496"
  "fl (2 / 10) = 3602879701896397 / 18014398509481984"
  "d_div (d_sub (fl (9 / 10)) (fl (7 / 10))) (fl (2 / 10)) = 4503599627370497 / 4503599627370496"
  by code_simp+

lemma fraction_mono: "u \<le> v \<Longrightarrow> d_div (d_sub u (fl (7 / 10))) (fl (2 / 10)) \<le>
    d_div (d_sub v (fl (7 / 10))) (fl (2 / 10))"
  unfolding d_div_def d_sub_def
  by (intro fl_mono divide_right_mono) (simp_all add: fl_nonneg)

lemma fraction_bounds:
  assumes "fl (7 / 10) \<le> u" and "u \<le> fl (9 / 10)"
  shows "0 \<le> d_div (d_sub u (fl (7 / 10))) (fl (2 / 10))"
    and "d_div (d_sub u (fl (7 / 10))) (fl (2 / 10)) \<le> 4503599627370497 / 4503599627370496"
proof -
  show "0 \<le> d_div (d_sub u (fl (7 / 10))) (fl (2 / 10))"
    unfolding d_div_def d_sub_def
    using assms(1) by (intro fl_nonneg divide_nonneg_nonneg) (simp_all add: fl_nonneg)
  show "d_div (d_sub u (fl (7 / 10))) (fl (2 / 10)) \<le> 4503599627370497 / 4503599627370496"
    using fraction_mono [OF assms(2)] unfolding threshold_constants(3) .
qed

text \<open>The linear branch as a natural number.\<close>

definition linear_threshold :: "nat \<Rightarrow> double \<Rightarrow> nat" where
  "linear_threshold b u = d_trunc (d_mult (d_of_nat b) (d_div (d_sub u (fl (7 / 10))) (fl (2 / 10))))"

lemma d_of_nat_32: "b < 2 ^ 32 \<Longrightarrow> d_of_nat b = of_nat b"
  unfolding d_of_nat_def by (rule fl_of_nat) simp

lemma linear_threshold_le:
  assumes u: "fl (7 / 10) \<le> u" "u \<le> fl (9 / 10)" and b: "b < 2 ^ 32"
  shows "linear_threshold b u \<le> b"
proof -
  let ?f = "d_div (d_sub u (fl (7 / 10))) (fl (2 / 10))"
  have b': "(of_nat b :: rat) \<le> 4294967296"
    using b of_nat_mono [of b "2 ^ 32", where 'a = rat] by simp
  have "of_nat b * ?f \<le> of_nat b * (4503599627370497 / 4503599627370496 :: rat)"
    using fraction_bounds(2) [OF u] by (intro mult_left_mono) simp_all
  also have "\<dots> \<le> of_nat b + 1 / 2" using b' by (simp add: field_simps)
  finally have "d_mult (d_of_nat b) ?f \<le> fl (of_nat b + 1 / 2)"
    unfolding d_mult_def d_of_nat_32 [OF b] by (rule fl_mono)
  also have "of_nat b + 1 / 2 = of_int (2 * int b + 1) * (2 :: rat) powi (-1)"
    by (simp add: field_simps power_int_minus)
  also have "fl \<dots> = \<dots>" using b by (intro fl_scaled) auto
  also have "\<dots> < of_nat b + 1" by (simp add: field_simps power_int_minus)
  finally show ?thesis unfolding linear_threshold_def by (rule d_trunc_le)
qed

lemma linear_threshold_mono:
  "u \<le> v \<Longrightarrow> linear_threshold b u \<le> linear_threshold b v"
  unfolding linear_threshold_def d_mult_def
  by (intro d_trunc_mono fl_mono mult_left_mono fraction_mono d_of_nat_nonneg)

lemma unat_dynamic_threshold_linear:
  assumes "fl (7 / 10) \<le> u" "u \<le> fl (9 / 10)"
  shows "unat (dynamic_threshold a u) = linear_threshold (unat (ac_base_threshold (ad_config a))) u"
proof -
  let ?b = "unat (ac_base_threshold (ad_config a))"
  have b: "?b < 2 ^ 32" by (rule unat_less_32)
  have "linear_threshold ?b u < 2 ^ 32"
    using linear_threshold_le [OF assms b] b by (rule le_less_trans)
  moreover have "dynamic_threshold a u = of_nat (linear_threshold ?b u)"
    using assms by (simp add: dynamic_threshold_def linear_threshold_def Let_def)
  ultimately show ?thesis by (simp only: unat_word_32)
qed

text \<open>
  The dynamic threshold: nothing below 70\% utilization, between 70\% and 90\% it grows
  with the utilization and never passes the base threshold, and above 90\% it is twice the
  base threshold (in 32-bit arithmetic).
\<close>

lemma dynamic_threshold_shape:
  "(u < fl (7 / 10) \<longrightarrow> dynamic_threshold a u = 0) \<and>
   (fl (7 / 10) \<le> u \<and> u \<le> v \<and> v \<le> fl (9 / 10) \<longrightarrow>
      dynamic_threshold a u \<le> dynamic_threshold a v \<and>
      dynamic_threshold a v \<le> ac_base_threshold (ad_config a)) \<and>
   (fl (9 / 10) < v \<longrightarrow> dynamic_threshold a v = ac_base_threshold (ad_config a) * 2)"
proof (intro conjI impI)
  assume uv: "fl (7 / 10) \<le> u \<and> u \<le> v \<and> v \<le> fl (9 / 10)"
  then have u: "unat (dynamic_threshold a u) = linear_threshold (unat (ac_base_threshold (ad_config a))) u"
    and v: "unat (dynamic_threshold a v) = linear_threshold (unat (ac_base_threshold (ad_config a))) v"
    by (auto intro!: unat_dynamic_threshold_linear)
  show "dynamic_threshold a u \<le> dynamic_threshold a v"
    using uv by (simp add: word_le_nat_alt u v linear_threshold_mono)
  show "dynamic_threshold a v \<le> ac_base_threshold (ad_config a)"
    using uv unfolding word_le_nat_alt v by (intro linear_threshold_le unat_less_32) auto
next
  assume v: "fl (9 / 10) < v"
  have "fl (7 / 10) \<le> fl (9 / 10)" by (intro fl_mono) simp
  with v show "dynamic_threshold a v = ac_base_threshold (ad_config a) * 2"
    by (simp add: dynamic_threshold_def)
qed (simp add: dynamic_threshold_def)

definition wadm :: AdmissionControl where
  "wadm = admission_create \<lparr>ac_min_recompute_cost = 64, ac_base_threshold = 1000\<rparr>"

text \<open>
  The scale between 70\% and 90\% starts at zero, not at the base threshold: at 70\% the
  threshold is 0 for every configuration, and with a base of 1000 it is 500 at 80\%.
\<close>

lemma dynamic_threshold_starts_at_zero:
  "dynamic_threshold a (fl (7 / 10)) = 0 \<and> dynamic_threshold wadm (fl (8 / 10)) = 500"
proof
  have "fl (7 / 10) \<le> fl (9 / 10)" by (intro fl_mono) simp
  then show "dynamic_threshold a (fl (7 / 10)) = 0"
    by (simp add: dynamic_threshold_def d_sub_def d_div_def d_mult_def d_trunc_def)
  have "fl (7 / 10) \<le> fl (8 / 10)" and "fl (8 / 10) \<le> fl (9 / 10)" by (intro fl_mono; simp)+
  moreover have "d_trunc (d_mult 1000 (d_div (d_sub (fl (8 / 10)) (fl (7 / 10))) (fl (2 / 10)))) = 500"
    by code_simp
  moreover have "d_of_nat 1000 = 1000" by (simp add: d_of_nat_def fl_of_nat [of 1000, simplified])
  ultimately show "dynamic_threshold wadm (fl (8 / 10)) = 500"
    by (simp add: dynamic_threshold_def wadm_def admission_create_def)
qed

text \<open>
  A put is admitted exactly when it is a system prompt, or its recompute cost reaches both
  the configured minimum and the dynamic threshold; of the two rejections the low-cost one is
  reported first.
\<close>

lemma evaluate_characterisation:
  "(evaluate a opts u = kAdmit \<longleftrightarrow>
      po_entry_type opts = kSystemPrompt \<or>
      ac_min_recompute_cost (ad_config a) \<le> po_recompute_cost opts \<and>
      dynamic_threshold a u \<le> po_recompute_cost opts) \<and>
   (evaluate a opts u = kRejectLowCost \<longleftrightarrow>
      po_entry_type opts \<noteq> kSystemPrompt \<and>
      po_recompute_cost opts < ac_min_recompute_cost (ad_config a))"
proof -
  have "0 < dynamic_threshold a u" if "po_recompute_cost opts < dynamic_threshold a u"
    using that by (rule le_less_trans [OF word_zero_le])
  then show ?thesis
    by (auto simp: evaluate_def Let_def not_less)
qed

text \<open>
  The counters: every evaluation is counted, every rejection is, and rejections never
  outnumber evaluations as long as the 64-bit counter has not wrapped.
\<close>

lemma record_evaluation_counts:
  assumes "total_evaluated a + 1 < 2 ^ 64" and "total_rejected a \<le> total_evaluated a"
  shows "total_evaluated (record_evaluation r a) = total_evaluated a + 1"
    and "total_rejected (record_evaluation r a) = total_rejected a + (if r = kAdmit then 0 else 1)"
    and "total_rejected (record_evaluation r a) \<le> total_evaluated (record_evaluation r a)"
proof -
  have "total_rejected a + 1 < 2 ^ 64" using assms by linarith
  note w = wrap64_id [OF this] wrap64_id [OF assms(1)]
  show "total_evaluated (record_evaluation r a) = total_evaluated a + 1"
    and "total_rejected (record_evaluation r a) = total_rejected a + (if r = kAdmit then 0 else 1)"
    and "total_rejected (record_evaluation r a) \<le> total_evaluated (record_evaluation r a)"
    using assms(2) w by (simp_all add: record_evaluation_def Let_def)
qed

lemma record_evaluation_config [simp]: "ad_config (record_evaluation r a) = ad_config a"
  by (simp add: record_evaluation_def Let_def)

lemma dynamic_threshold_mono:
  assumes base: "ac_base_threshold (ad_config a) < 2 ^ 31" and "u \<le> v"
  shows "dynamic_threshold a u \<le> dynamic_threshold a v"
proof -
  let ?b = "ac_base_threshold (ad_config a)"
  have double: "unat (?b * 2) = 2 * unat ?b"
    using base by (simp add: unat_mult_lem [THEN iffD1] word_less_nat_alt)
  note low = dynamic_threshold_shape [THEN conjunct1]
    and mid = dynamic_threshold_shape [THEN conjunct2, THEN conjunct1]
    and high = dynamic_threshold_shape [THEN conjunct2, THEN conjunct2]
  consider "u < fl (7 / 10)" | "fl (7 / 10) \<le> u" "v \<le> fl (9 / 10)" | "fl (7 / 10) \<le> u" "u \<le> fl (9 / 10)" "fl (9 / 10) < v"
    | "fl (9 / 10) < u" by linarith
  then show ?thesis
  proof cases
    case 1
    then show ?thesis using low [of u a] by simp
  next
    case 2
    then show ?thesis using mid [of u v a] assms(2) by simp
  next
    case 3
    then have "dynamic_threshold a u \<le> ?b" "dynamic_threshold a v = ?b * 2" using mid [of u u a] high [of v a] by simp_all
    moreover have "?b \<le> ?b * 2" by (simp add: word_le_nat_alt double)
    ultimately show ?thesis by simp
  next
    case 4
    then have "fl (9 / 10) < v" using assms(2) by simp
    with 4 show ?thesis using high [of u a] high [of v a] by simp
  qed
qed

text \<open>
  C38. Admission gets stricter as the storage fills, and only by cost. With a base threshold
  below \<open>2 ^ 31\<close> (twice of which fits the threshold's 32 bits), a put that is admitted at some
  utilization is admitted at every lower one, as is every put of its entry type that costs
  more to recompute, in double arithmetic. The ends of the scale are exact: below 70\% a put is
  admitted if it is a system prompt or has the minimum cost, above 90\% if it is a system
  prompt or has the minimum cost and twice the base threshold.
\<close>

theorem admission_monotone:
  assumes base: "ac_base_threshold (ad_config a) < 2 ^ 31"
    and "u \<le> v" and "po_entry_type opts' = po_entry_type opts" and "po_recompute_cost opts \<le> po_recompute_cost opts'"
  shows "(evaluate a opts v = kAdmit \<longrightarrow> evaluate a opts' u = kAdmit) \<and>
    (u < fl (7 / 10) \<longrightarrow> (evaluate a opts u = kAdmit \<longleftrightarrow>
       po_entry_type opts = kSystemPrompt \<or> ac_min_recompute_cost (ad_config a) \<le> po_recompute_cost opts)) \<and>
    (fl (9 / 10) < v \<longrightarrow> (evaluate a opts v = kAdmit \<longleftrightarrow>
       po_entry_type opts = kSystemPrompt \<or> ac_min_recompute_cost (ad_config a) \<le> po_recompute_cost opts \<and>
         2 * unat (ac_base_threshold (ad_config a)) \<le> unat (po_recompute_cost opts)))"
proof -
  let ?b = "ac_base_threshold (ad_config a)"
  have double: "unat (?b * 2) = 2 * unat ?b"
    using base by (simp add: unat_mult_lem [THEN iffD1] word_less_nat_alt)
  note admits = evaluate_characterisation [THEN conjunct1]
  have "dynamic_threshold a u \<le> dynamic_threshold a v" using base assms(2) by (rule dynamic_threshold_mono)
  then have mono: "evaluate a opts v = kAdmit \<longrightarrow> evaluate a opts' u = kAdmit" using assms(3,4) unfolding admits by auto
  show ?thesis
    using mono dynamic_threshold_shape [of u a v] unfolding admits by (auto simp: word_le_nat_alt double)
qed

theorem admission_monotone_witness:
  "evaluate wadm \<lparr>po_num_tokens = 8, po_recompute_cost = 2500, po_entry_type = kRagContext, po_ttl_seconds = 0\<rparr> (8 / 10) = kAdmit"
proof -
  let ?o = "\<lambda>c. \<lparr>po_num_tokens = 8, po_recompute_cost = c, po_entry_type = kRagContext, po_ttl_seconds = 0\<rparr>"
  have "fl (9 / 10) < 1" by code_simp
  with admission_monotone [of wadm "8 / 10" 1 "?o 2500" "?o 2000"] show ?thesis
    by (simp add: wadm_def admission_create_def word_le_nat_alt word_less_nat_alt)
qed

end
