(* ===== verification/Slab_Allocator.thy ===== *)
theory Slab_Allocator
  imports Config
begin

text \<open>
  \<open>src/memory/slab_allocator.{h,cpp}\<close>: the T1 slab allocator. Each size class owns one backing
  region of equal slots and a free list of slot numbers used as a stack. The operating
  system's allocation calls (\<open>mmap\<close>, \<open>aligned_alloc\<close>) are parameters; the build without
  \<open>ATTENTIONDB_CUDA\<close>, on Linux, is the one modelled.
\<close>

section \<open>State\<close>

record SlabHandle =
  class_index :: nat
  slot_index :: nat

definition handle_valid :: "SlabHandle \<Rightarrow> bool" where
  "handle_valid h \<longleftrightarrow> class_index h \<noteq> UINT32_MAX"

definition Invalid :: SlabHandle where
  "Invalid = \<lparr>class_index = UINT32_MAX, slot_index = UINT32_MAX\<rparr>"

record SizeClass =
  slot_size :: nat
  num_slots :: nat
  base :: ptr
  free_list :: "nat list"

datatype AllocMethod = kAlignedAlloc | kHugepages | kCudaPinned

record SlabAllocator =
  classes :: "SizeClass list"
  backing_allocations :: "ptr list"
  backing_methods :: "AllocMethod list"
  backing_sizes :: "nat list"
  total_bytes :: nat
  use_hugepages :: bool
  use_pinned :: bool

datatype slab_exn = InvalidArgument | BadAlloc | DivideByZero

section \<open>Construction\<close>

text \<open>
  The system's allocators: \<open>mmap\<close> of huge pages returns \<open>None\<close> on failure, \<open>aligned_alloc\<close>
  the null pointer. \<open>'w\<close> is the state of the system.
\<close>

record 'w alloc_env =
  sys_mmap_huge :: "'w \<Rightarrow> nat \<Rightarrow> ptr option \<times> 'w"
  sys_aligned_alloc :: "'w \<Rightarrow> nat \<Rightarrow> nat \<Rightarrow> ptr \<times> 'w"
  sys_munmap :: "'w \<Rightarrow> ptr \<Rightarrow> nat \<Rightarrow> 'w"
  sys_free :: "'w \<Rightarrow> ptr \<Rightarrow> 'w"

definition alloc_aligned :: "'w alloc_env \<Rightarrow> nat \<Rightarrow> 'w \<times> memory \<Rightarrow>
    slab_exn + (ptr \<times> AllocMethod) \<times> 'w \<times> memory" where
  "alloc_aligned A bytes wm =
     (case sys_aligned_alloc A (fst wm) 4096 bytes of (p, w) \<Rightarrow>
        if p = nullptr then Inl BadAlloc
        else Inr ((p, kAlignedAlloc), w, mem_write (snd wm) p (replicate bytes 0)))"

definition alloc_backing :: "'w alloc_env \<Rightarrow> bool \<Rightarrow> nat \<Rightarrow> 'w \<times> memory \<Rightarrow>
    slab_exn + (ptr \<times> AllocMethod) \<times> 'w \<times> memory" where
  "alloc_backing A hugepages bytes wm =
     (if hugepages then
        (case sys_mmap_huge A (fst wm) bytes of
           (Some p, w) \<Rightarrow> Inr ((p, kHugepages), w, snd wm)
         | (None, w) \<Rightarrow> alloc_aligned A bytes (w, snd wm))
      else alloc_aligned A bytes wm)"

definition free_backing :: "'w alloc_env \<Rightarrow> ptr \<Rightarrow> nat \<Rightarrow> AllocMethod \<Rightarrow> 'w \<Rightarrow> 'w" where
  "free_backing A p bytes method w =
     (if p = nullptr then w
      else case method of kHugepages \<Rightarrow> sys_munmap A w p bytes | _ \<Rightarrow> sys_free A w p)"

definition destroy :: "'w alloc_env \<Rightarrow> SlabAllocator \<Rightarrow> 'w \<Rightarrow> 'w" where
  "destroy A s w =
     fold (\<lambda>i w. free_backing A (backing_allocations s ! i) (backing_sizes s ! i)
             (backing_methods s ! i) w) [0..<length (backing_allocations s)] w"

text \<open>One turn of the construction loop, for one slot size.\<close>

definition add_class :: "'w alloc_env \<Rightarrow> nat \<Rightarrow> nat \<Rightarrow> SlabAllocator \<times> 'w \<times> memory \<Rightarrow>
    slab_exn + SlabAllocator \<times> 'w \<times> memory" where
  "add_class A bytes_per_class sz st =
     (case st of (s, wm) \<Rightarrow>
        if sz = 0 then Inl DivideByZero
        else
          let n = bytes_per_class div sz;
              n = (if n = 0 then 1 else n);
              region_size = wrap64 (sz * n)
          in case alloc_backing A (use_hugepages s) region_size wm of
               Inl e \<Rightarrow> Inl e
             | Inr ((p, method), wm) \<Rightarrow>
                 Inr (s\<lparr>classes := classes s @ [\<lparr>slot_size = sz, num_slots = n, base = p,
                                                free_list = map wrap32 [0..<n]\<rparr>],
                        backing_allocations := backing_allocations s @ [p],
                        backing_methods := backing_methods s @ [method],
                        backing_sizes := backing_sizes s @ [region_size],
                        total_bytes := wrap64 (total_bytes s + region_size)\<rparr>, wm))"

fun add_classes :: "'w alloc_env \<Rightarrow> nat \<Rightarrow> nat list \<Rightarrow> SlabAllocator \<times> 'w \<times> memory \<Rightarrow>
    slab_exn + SlabAllocator \<times> 'w \<times> memory" where
  "add_classes A bpc [] st = Inr st"
| "add_classes A bpc (sz # sizes) st =
     (case add_class A bpc sz st of Inl e \<Rightarrow> Inl e | Inr st \<Rightarrow> add_classes A bpc sizes st)"

definition slab_create :: "'w alloc_env \<Rightarrow> DramCacheConfig \<Rightarrow> 'w \<times> memory \<Rightarrow>
    slab_exn + SlabAllocator \<times> 'w \<times> memory" where
  "slab_create A cfg wm =
     (let size_classes = sort (dc_size_classes cfg);
          s = \<lparr>classes = [], backing_allocations = [], backing_methods = [], backing_sizes = [],
               total_bytes = 0, use_hugepages = dc_hugepages cfg, use_pinned = dc_pinned_memory cfg\<rparr>
      in if size_classes = [] then Inl InvalidArgument
         else add_classes A (dc_size_bytes cfg div length size_classes) size_classes (s, wm))"

section \<open>Operations\<close>

definition slot_ptr :: "SizeClass \<Rightarrow> nat \<Rightarrow> ptr" where
  "slot_ptr c slot = base c + wrap64 (slot * slot_size c)"

text \<open>The index of the first class that is large enough and has a free slot.\<close>

fun find_class :: "nat \<Rightarrow> nat \<Rightarrow> SizeClass list \<Rightarrow> nat option" where
  "find_class sz i [] = None"
| "find_class sz i (c # cs) =
     (if slot_size c \<ge> sz then
        (if free_list c = [] then find_class sz (Suc i) cs else Some i)
      else find_class sz (Suc i) cs)"

definition allocate :: "nat \<Rightarrow> SlabAllocator \<Rightarrow> SlabHandle \<times> ptr \<times> SlabAllocator" where
  "allocate sz s =
     (case find_class sz 0 (classes s) of
        Some i \<Rightarrow>
          let c = classes s ! i;
              slot = last (free_list c);
              s = s\<lparr>classes := (classes s)[i := c\<lparr>free_list := butlast (free_list c)\<rparr>]\<rparr>
          in (\<lparr>class_index = i, slot_index = slot\<rparr>, slot_ptr c slot, s)
      | None \<Rightarrow> (Invalid, nullptr, s))"

definition push_free :: "nat \<Rightarrow> nat \<Rightarrow> SlabAllocator \<Rightarrow> SlabAllocator" where
  "push_free i slot s =
     s\<lparr>classes := (classes s)[i := (classes s ! i)\<lparr>free_list := free_list (classes s ! i) @ [slot]\<rparr>]\<rparr>"

text \<open>\<open>free\<close>; the two assertions make it undefined on a foreign handle (\<open>None\<close>).\<close>

definition slab_free :: "SlabHandle \<Rightarrow> SlabAllocator \<Rightarrow> SlabAllocator option" where
  "slab_free h s =
     (if \<not> handle_valid h then Some s
      else if class_index h < length (classes s) \<and>
              slot_index h < num_slots (classes s ! class_index h)
           then Some (push_free (class_index h) (slot_index h) s)
           else None)"

definition in_region :: "ptr \<Rightarrow> SizeClass \<Rightarrow> bool" where
  "in_region p c \<longleftrightarrow> base c \<le> p \<and> p < base c + wrap64 (slot_size c * num_slots c)"

fun find_region :: "ptr \<Rightarrow> nat \<Rightarrow> SizeClass list \<Rightarrow> nat option" where
  "find_region p i [] = None"
| "find_region p i (c # cs) = (if in_region p c then Some i else find_region p (Suc i) cs)"

definition free_by_ptr :: "ptr \<Rightarrow> SlabAllocator \<Rightarrow> SlabAllocator" where
  "free_by_ptr p s =
     (if p = nullptr then s
      else case find_region p 0 (classes s) of
             None \<Rightarrow> s
           | Some i \<Rightarrow>
               let offset = p - base (classes s ! i)
               in push_free i (wrap32 (offset div slot_size (classes s ! i))) s)"

definition get_ptr :: "SlabHandle \<Rightarrow> SlabAllocator \<Rightarrow> ptr option" where
  "get_ptr h s =
     (if \<not> handle_valid h then Some nullptr
      else if class_index h < length (classes s)
           then Some (slot_ptr (classes s ! class_index h) (slot_index h))
           else None)"

fun first_fit :: "nat \<Rightarrow> SizeClass list \<Rightarrow> nat" where
  "first_fit sz [] = 0"
| "first_fit sz (c # cs) = (if slot_size c \<ge> sz then slot_size c else first_fit sz cs)"

definition slot_size_for :: "nat \<Rightarrow> SlabAllocator \<Rightarrow> nat" where
  "slot_size_for sz s = first_fit sz (classes s)"

definition used_slots :: "SizeClass \<Rightarrow> nat" where
  "used_slots c = sub64 (num_slots c) (length (free_list c))"

definition used_bytes :: "SlabAllocator \<Rightarrow> nat" where
  "used_bytes s = foldl (\<lambda>t c. wrap64 (t + wrap64 (used_slots c * slot_size c))) 0 (classes s)"

definition total_capacity :: "SlabAllocator \<Rightarrow> nat" where
  "total_capacity s = total_bytes s"

record ClassStats =
  cs_slot_size :: nat
  cs_total_slots :: nat
  cs_used_slots :: nat

record SlabStats =
  ss_total_bytes :: nat
  ss_used_bytes :: nat
  ss_num_classes :: nat
  ss_classes :: "ClassStats list"

definition slab_stats :: "SlabAllocator \<Rightarrow> SlabStats" where
  "slab_stats s =
     \<lparr>ss_total_bytes = total_bytes s,
      ss_used_bytes = foldl (\<lambda>t c. wrap64 (t + wrap64 (used_slots c * slot_size c))) 0 (classes s),
      ss_num_classes = length (classes s),
      ss_classes = map (\<lambda>c. \<lparr>cs_slot_size = slot_size c, cs_total_slots = num_slots c,
                              cs_used_slots = used_slots c\<rparr>) (classes s)\<rparr>"

section \<open>Invariant\<close>

definition region :: "SizeClass \<Rightarrow> ptr set" where
  "region c = {base c..<base c + slot_size c * num_slots c}"

definition class_ok :: "SizeClass \<Rightarrow> bool" where
  "class_ok c \<longleftrightarrow> 0 < slot_size c \<and> num_slots c \<le> 2 ^ 32 \<and> 0 < base c \<and>
     base c + slot_size c * num_slots c \<le> 2 ^ 64 \<and>
     distinct (free_list c) \<and> set (free_list c) \<subseteq> {..<num_slots c}"

definition slab_inv :: "SlabAllocator \<Rightarrow> bool" where
  "slab_inv s \<longleftrightarrow> (\<forall>c \<in> set (classes s). class_ok c) \<and>
     (\<forall>i < length (classes s). \<forall>j < length (classes s). i \<noteq> j \<longrightarrow>
        region (classes s ! i) \<inter> region (classes s ! j) = {}) \<and>
     sorted (map slot_size (classes s)) \<and> length (classes s) < UINT32_MAX \<and>
     total_bytes s = (\<Sum>c \<leftarrow> classes s. slot_size c * num_slots c) \<and> total_bytes s < 2 ^ 64"

definition allocated :: "SlabAllocator \<Rightarrow> (nat \<times> nat) set" where
  "allocated s = {(i, j). i < length (classes s) \<and> j < num_slots (classes s ! i) \<and>
     j \<notin> set (free_list (classes s ! i))}"

definition live :: "SlabAllocator \<Rightarrow> ptr set" where
  "live s = (\<lambda>(i, j). slot_ptr (classes s ! i) j) ` allocated s"

definition room :: "SlabAllocator \<Rightarrow> ptr \<Rightarrow> nat" where
  "room s p = (case find_region p 0 (classes s) of None \<Rightarrow> 0 | Some i \<Rightarrow> slot_size (classes s ! i))"

definition set_free :: "nat \<Rightarrow> nat list \<Rightarrow> SlabAllocator \<Rightarrow> SlabAllocator" where
  "set_free i fs s = s\<lparr>classes := (classes s)[i := (classes s ! i)\<lparr>free_list := fs\<rparr>]\<rparr>"

lemma push_free_set_free: "push_free i slot s = set_free i (free_list (classes s ! i) @ [slot]) s"
  by (simp add: push_free_def set_free_def)

lemma set_free_frame [simp]:
  "length (classes (set_free i fs s)) = length (classes s)"
  "total_bytes (set_free i fs s) = total_bytes s"
  "slot_size (classes (set_free i fs s) ! k) = slot_size (classes s ! k)"
  "num_slots (classes (set_free i fs s) ! k) = num_slots (classes s ! k)"
  "base (classes (set_free i fs s) ! k) = base (classes s ! k)"
  by (cases "i < length (classes s)"; simp add: set_free_def nth_list_update list_update_beyond)+

lemma set_free_list:
  "i < length (classes s) \<Longrightarrow>
     free_list (classes (set_free i fs s) ! k) = (if k = i then fs else free_list (classes s ! k))"
  by (simp add: set_free_def nth_list_update)

lemma set_free_maps [simp]:
  "map slot_size (classes (set_free i fs s)) = map slot_size (classes s)"
  "map (\<lambda>c. slot_size c * num_slots c) (classes (set_free i fs s)) =
     map (\<lambda>c. slot_size c * num_slots c) (classes s)"
  by (rule nth_equalityI; simp)+

lemma region_set_free [simp]: "region (classes (set_free i fs s) ! k) = region (classes s ! k)"
  by (simp add: region_def)

lemma slab_invD:
  assumes "slab_inv s" and "i < length (classes s)"
  shows "class_ok (classes s ! i)"
    and "j < length (classes s) \<Longrightarrow> i \<noteq> j \<Longrightarrow> region (classes s ! i) \<inter> region (classes s ! j) = {}"
  using assms unfolding slab_inv_def by auto

lemma slab_inv_set_free:
  assumes inv: "slab_inv s" and i: "i < length (classes s)"
    and fs: "distinct fs" "set fs \<subseteq> {..<num_slots (classes s ! i)}"
  shows "slab_inv (set_free i fs s)"
proof -
  have "class_ok (classes (set_free i fs s) ! k)" if "k < length (classes s)" for k
    using slab_invD(1) [OF inv that] fs i by (simp add: class_ok_def set_free_list)
  then have "\<forall>c \<in> set (classes (set_free i fs s)). class_ok c"
    by (simp add: all_set_conv_all_nth)
  then show ?thesis
    using inv unfolding slab_inv_def set_free_maps set_free_frame region_set_free by blast
qed

lemma class_ok_arith:
  assumes "class_ok c"
  shows "slot_size c * num_slots c < 2 ^ 64" and "wrap64 (slot_size c * num_slots c) = slot_size c * num_slots c"
    and "length (free_list c) \<le> num_slots c" and "used_slots c = num_slots c - length (free_list c)"
    and "j < num_slots c \<Longrightarrow> slot_ptr c j = base c + j * slot_size c"
    and "j < num_slots c \<Longrightarrow> j * slot_size c + slot_size c \<le> slot_size c * num_slots c"
proof -
  show lt: "slot_size c * num_slots c < 2 ^ 64" using assms unfolding class_ok_def by linarith
  then show "wrap64 (slot_size c * num_slots c) = slot_size c * num_slots c" by (rule wrap64_id)
  have "card (set (free_list c)) \<le> card {..<num_slots c}"
    using assms unfolding class_ok_def by (intro card_mono) auto
  then show le: "length (free_list c) \<le> num_slots c"
    using assms by (simp add: class_ok_def distinct_card)
  have "num_slots c < 2 ^ 64"
    using assms unfolding class_ok_def by (elim conjE) (rule le_less_trans, assumption, simp)
  with le show "used_slots c = num_slots c - length (free_list c)"
    unfolding used_slots_def by (rule sub64_id)
  assume j: "j < num_slots c"
  have "j * slot_size c + slot_size c = Suc j * slot_size c" by simp
  also have "\<dots> \<le> num_slots c * slot_size c" using j by (intro mult_le_mono1) simp
  finally show jl: "j * slot_size c + slot_size c \<le> slot_size c * num_slots c" by (simp add: mult.commute)
  then have "j * slot_size c < 2 ^ 64" using lt by linarith
  then show "slot_ptr c j = base c + j * slot_size c" by (simp only: slot_ptr_def wrap64_id)
qed

text \<open>A slot lies in the region of its class, and the reverse lookup finds class and slot.\<close>

lemma slot_in_region:
  assumes "class_ok c" and "j < num_slots c"
  shows "{slot_ptr c j..<slot_ptr c j + slot_size c} \<subseteq> region c" and "slot_ptr c j \<in> region c"
    and "(slot_ptr c j - base c) div slot_size c = j" and "0 < slot_ptr c j"
proof -
  have pos: "0 < slot_size c" "0 < base c" using assms(1) by (simp_all add: class_ok_def)
  note ar = class_ok_arith(5,6) [OF assms]
  show "{slot_ptr c j..<slot_ptr c j + slot_size c} \<subseteq> region c" and "slot_ptr c j \<in> region c"
    using ar pos assms(2) by (auto simp: region_def)
  show "(slot_ptr c j - base c) div slot_size c = j" and "0 < slot_ptr c j" using ar pos by simp_all
qed

lemma in_region_iff: "class_ok c \<Longrightarrow> in_region p c \<longleftrightarrow> p \<in> region c"
  by (simp add: in_region_def region_def class_ok_arith)

lemma find_region_unique:
  assumes "i < length cs" and "\<And>j. j < length cs \<Longrightarrow> in_region p (cs ! j) \<longleftrightarrow> j = i"
  shows "find_region p k cs = Some (k + i)"
  using assms
proof (induction cs arbitrary: k i)
  case (Cons c cs)
  show ?case
  proof (cases i)
    case 0
    with Cons.prems(2) [of 0] show ?thesis by simp
  next
    case (Suc i')
    have "\<not> in_region p c" using Cons.prems(2) [of 0] Suc by simp
    moreover have "find_region p (Suc k) cs = Some (Suc k + i')"
      using Cons.prems Suc by (intro Cons.IH) (force dest: Cons.prems(2) [of "Suc _"])+
    ultimately show ?thesis using Suc by simp
  qed
qed simp

lemma find_region_slot:
  assumes inv: "slab_inv s" and i: "i < length (classes s)" and p: "p \<in> region (classes s ! i)"
  shows "find_region p 0 (classes s) = Some i"
proof -
  have "in_region p (classes s ! j) \<longleftrightarrow> j = i" if "j < length (classes s)" for j
    using slab_invD [OF inv that] slab_invD(2) [OF inv that i] p
    by (auto simp: in_region_iff)
  then show ?thesis using find_region_unique [OF i, of p 0] by simp
qed

section \<open>Allocating and freeing\<close>

definition fits :: "nat \<Rightarrow> SizeClass \<Rightarrow> bool" where
  "fits n c \<longleftrightarrow> n \<le> slot_size c \<and> free_list c \<noteq> []"

lemma find_class_Some:
  "find_class n k cs = Some m \<Longrightarrow>
     k \<le> m \<and> m - k < length cs \<and> fits n (cs ! (m - k)) \<and> (\<forall>j < m - k. \<not> fits n (cs ! j))"
proof (induction n k cs rule: find_class.induct)
  case (2 n k c cs)
  show ?case
  proof (cases "fits n c")
    case True
    then show ?thesis using 2 by (auto simp: fits_def)
  next
    case False
    then have f: "find_class n (Suc k) cs = Some m"
      using 2 by (auto simp: fits_def split: if_splits)
    then have "Suc k \<le> m \<and> m - Suc k < length cs \<and> fits n (cs ! (m - Suc k)) \<and>
        (\<forall>j < m - Suc k. \<not> fits n (cs ! j))"
      using 2 False by (auto simp: fits_def split: if_splits)
    moreover have "m - k = Suc (m - Suc k)" using calculation by linarith
    ultimately show ?thesis using False by (auto simp: less_Suc_eq_0_disj)
  qed
qed simp

lemma find_class_None: "find_class n k cs = None \<longleftrightarrow> (\<forall>c \<in> set cs. \<not> fits n c)"
  by (induction n k cs rule: find_class.induct) (auto simp: fits_def)

lemma allocated_set_free:
  assumes "i < length (classes s)"
  shows "allocated (set_free i fs s) =
    {(k, j) \<in> allocated s. k \<noteq> i} \<union> {(i, j) |j. j < num_slots (classes s ! i) \<and> j \<notin> set fs}"
  using assms by (auto simp: allocated_def set_free_list split: if_splits)

lemma slot_ptr_set_free [simp]:
  "slot_ptr (classes (set_free i fs s) ! k) j = slot_ptr (classes s ! k) j"
  by (simp add: slot_ptr_def)

lemma find_region_cong:
  assumes "length cs = length cs'" and "\<And>j. j < length cs \<Longrightarrow> in_region p (cs ! j) = in_region p (cs' ! j)"
  shows "find_region p k cs = find_region p k cs'"
  using assms
proof (induction cs cs' arbitrary: k rule: list_induct2)
  case (Cons c cs c' cs')
  from Cons.prems [of 0] have "in_region p c = in_region p c'" by simp
  moreover have "find_region p (Suc k) cs = find_region p (Suc k) cs'"
  proof (rule Cons.IH)
    show "in_region p (cs ! j) = in_region p (cs' ! j)" if "j < length cs" for j
      using Cons.prems [of "Suc j"] that by simp
  qed
  ultimately show ?case by simp
qed simp

lemma find_region_set_free [simp]:
  "find_region p k (classes (set_free i fs s)) = find_region p k (classes s)"
  by (rule find_region_cong) (simp_all only: in_region_def set_free_frame)

lemma room_set_free [simp]: "room (set_free i fs s) p = room s p"
  by (simp add: room_def split: option.splits)

lemma room_slot:
  assumes "slab_inv s" and "i < length (classes s)" and "j < num_slots (classes s ! i)"
  shows "room s (slot_ptr (classes s ! i) j) = slot_size (classes s ! i)"
  using find_region_slot [OF assms(1,2) slot_in_region(2) [OF slab_invD(1) [OF assms(1,2)] assms(3)]]
  by (simp add: room_def)

lemma slot_ptr_inject:
  assumes inv: "slab_inv s" and a: "(i, j) \<in> allocated s \<or> i < length (classes s) \<and> j < num_slots (classes s ! i)"
    and b: "i' < length (classes s)" "j' < num_slots (classes s ! i')"
    and eq: "slot_ptr (classes s ! i) j = slot_ptr (classes s ! i') j'"
  shows "i = i' \<and> j = j'"
proof -
  from a have a: "i < length (classes s)" "j < num_slots (classes s ! i)" by (auto simp: allocated_def)
  note A = slot_in_region [OF slab_invD(1) [OF inv a(1)] a(2)]
    and B = slot_in_region [OF slab_invD(1) [OF inv b(1)] b(2)]
  from B(2) have "slot_ptr (classes s ! i) j \<in> region (classes s ! i')" unfolding eq .
  with A(2) have "region (classes s ! i) \<inter> region (classes s ! i') \<noteq> {}" by blast
  then have "i = i'" using slab_invD(2) [OF inv a(1) b(1)] by blast
  moreover have "j = j'"
    using A(3) B(3) unfolding \<open>i = i'\<close> eq [unfolded \<open>i = i'\<close>] by (rule trans [OF sym])
  ultimately show ?thesis ..
qed

text \<open>What a successful allocation does, as a \<open>set_free\<close>.\<close>

lemma allocate_cases:
  assumes inv: "slab_inv s"
  obtains (fail) "allocate n s = (Invalid, nullptr, s)" "\<forall>c \<in> set (classes s). \<not> fits n c"
  | (hit) i where "i < length (classes s)" "fits n (classes s ! i)" "\<forall>k < i. \<not> fits n (classes s ! k)"
      "allocate n s = (\<lparr>class_index = i, slot_index = last (free_list (classes s ! i))\<rparr>,
         slot_ptr (classes s ! i) (last (free_list (classes s ! i))),
         set_free i (butlast (free_list (classes s ! i))) s)"
proof (cases "find_class n 0 (classes s)")
  case None
  then show ?thesis
    using find_class_None [of n 0 "classes s"] by (intro fail) (simp_all add: allocate_def)
next
  case (Some i)
  with find_class_Some [OF Some] show ?thesis
    by (intro hit [of i]) (simp_all add: allocate_def Let_def set_free_def)
qed

lemma handle_valid_class: "slab_inv s \<Longrightarrow> i < length (classes s) \<Longrightarrow>
    handle_valid \<lparr>class_index = i, slot_index = j\<rparr>"
  by (auto simp: handle_valid_def slab_inv_def)

lemma not_valid_Invalid [simp]: "\<not> handle_valid Invalid"
  by (simp add: handle_valid_def Invalid_def)

lemma free_last:
  assumes "class_ok c" and "free_list c \<noteq> []"
  shows "last (free_list c) < num_slots c" and "distinct (butlast (free_list c))"
    and "set (butlast (free_list c)) \<subseteq> {..<num_slots c}"
    and "last (free_list c) \<notin> set (butlast (free_list c))"
    and "set (free_list c) = insert (last (free_list c)) (set (butlast (free_list c)))"
proof -
  from assms have d: "distinct (free_list c)" and sub: "set (free_list c) \<subseteq> {..<num_slots c}"
    by (simp_all add: class_ok_def)
  show "last (free_list c) < num_slots c" using last_in_set [OF assms(2)] sub by blast
  show "set (butlast (free_list c)) \<subseteq> {..<num_slots c}" using sub by (auto dest: in_set_butlastD)
  show "distinct (butlast (free_list c))" using d by (rule distinct_butlast)
  show "last (free_list c) \<notin> set (butlast (free_list c))"
    using d assms(2) by (rule distinct_last_butlast)
  show "set (free_list c) = insert (last (free_list c)) (set (butlast (free_list c)))"
    using assms(2) by (rule last_butlast_split)
qed

lemma live_iff: "p \<in> live s \<longleftrightarrow> (\<exists>i j. (i, j) \<in> allocated s \<and> p = slot_ptr (classes s ! i) j)"
  by (auto simp: live_def)

lemma allocatedD: "(i, j) \<in> allocated s \<Longrightarrow> i < length (classes s) \<and> j < num_slots (classes s ! i)"
  by (simp add: allocated_def)

lemma slot_ptr_inj_on: "slab_inv s \<Longrightarrow> inj_on (\<lambda>(i, j). slot_ptr (classes s ! i) j) (allocated s)"
  using slot_ptr_inject allocatedD by (auto simp: inj_on_def) blast+

lemma live_set_free: "live (set_free i fs s) = (\<lambda>(k, j). slot_ptr (classes s ! k) j) ` allocated (set_free i fs s)"
  by (simp add: live_def)

text \<open>Popping the last free slot, and pushing an allocated one back.\<close>

lemma allocated_pop:
  assumes "class_ok (classes s ! i)" and "i < length (classes s)" and "free_list (classes s ! i) \<noteq> []"
  shows "allocated (set_free i (butlast (free_list (classes s ! i))) s) =
    insert (i, last (free_list (classes s ! i))) (allocated s)"
  using free_last [OF assms(1,3)] assms(2) unfolding allocated_set_free [OF assms(2)]
  by (auto simp: allocated_def)

lemma allocated_push:
  assumes "(i, j) \<in> allocated s"
  shows "allocated (set_free i (free_list (classes s ! i) @ [j]) s) = allocated s - {(i, j)}"
  using assms allocated_set_free [of i s] by (auto simp: allocated_def)

lemma allocate_hit:
  assumes inv: "slab_inv s" and al: "allocate n s = (h, p, s')" and p: "p \<noteq> nullptr"
  obtains i where "i < length (classes s)" "fits n (classes s ! i)" "\<forall>k < i. \<not> fits n (classes s ! k)"
    "h = \<lparr>class_index = i, slot_index = last (free_list (classes s ! i))\<rparr>"
    "p = slot_ptr (classes s ! i) (last (free_list (classes s ! i)))"
    "s' = set_free i (butlast (free_list (classes s ! i))) s"
  using inv
proof (cases rule: allocate_cases [of s n, consumes 1, case_names fail hit])
  case fail
  then show ?thesis using al p by simp
next
  case (hit i)
  then show ?thesis using al by (intro that [of i]) simp_all
qed

lemma allocate_miss:
  assumes inv: "slab_inv s" and al: "allocate n s = (h, p, s')" and p: "p = nullptr"
  shows "s' = s" and "h = Invalid" and "\<forall>c \<in> set (classes s). \<not> fits n c"
proof -
  from inv have "allocate n s = (Invalid, nullptr, s) \<and> (\<forall>c \<in> set (classes s). \<not> fits n c)"
  proof (cases rule: allocate_cases [of s n, consumes 1, case_names fail hit])
    case (hit i)
    have "last (free_list (classes s ! i)) < num_slots (classes s ! i)"
      using free_last(1) [OF slab_invD(1) [OF inv hit(1)]] hit(2) by (simp add: fits_def)
    from slot_in_region(4) [OF slab_invD(1) [OF inv hit(1)] this] hit(4) al p show ?thesis by simp
  qed simp
  with al show "s' = s" "h = Invalid" "\<forall>c \<in> set (classes s). \<not> fits n c" by simp_all
qed

lemma allocate_ok:
  assumes inv: "slab_inv s" and al: "allocate n s = (h, p, s')" and p: "p \<noteq> nullptr"
  shows "slab_inv s'" and "p \<notin> live s" and "live s' = insert p (live s)"
    and "n \<le> room s p" and "room s' = room s" and "get_ptr h s' = Some p"
proof -
  obtain i where i: "i < length (classes s)" "fits n (classes s ! i)"
    and h: "h = \<lparr>class_index = i, slot_index = last (free_list (classes s ! i))\<rparr>"
    and p: "p = slot_ptr (classes s ! i) (last (free_list (classes s ! i)))"
    and s': "s' = set_free i (butlast (free_list (classes s ! i))) s"
    using inv al p by (rule allocate_hit)
  note ok = slab_invD(1) [OF inv i(1)]
  from i(2) have ne: "free_list (classes s ! i) \<noteq> []" by (simp add: fits_def)
  note fl' = free_last [OF ok ne]
  show "slab_inv s'" unfolding s' using inv i(1) fl'(2,3) by (rule slab_inv_set_free)
  show "p \<notin> live s"
  proof
    assume "p \<in> live s"
    then obtain k j where kj: "(k, j) \<in> allocated s" and pk: "p = slot_ptr (classes s ! k) j"
      by (auto simp: live_iff)
    have "k = i \<and> j = last (free_list (classes s ! i))"
      using inv disjI1 [OF kj] i(1) fl'(1) pk [symmetric, unfolded p] by (rule slot_ptr_inject)
    with kj last_in_set [OF ne] show False by (simp add: allocated_def)
  qed
  show "live s' = insert p (live s)"
    unfolding s' live_set_free allocated_pop [OF ok i(1) ne] by (simp add: live_def p)
  show "n \<le> room s p" unfolding p room_slot [OF inv i(1) fl'(1)] using i(2) by (simp add: fits_def)
  show "room s' = room s" unfolding s' by (rule ext) simp
  show "get_ptr h s' = Some p"
    using handle_valid_class [OF inv i(1)] i(1) by (simp add: get_ptr_def h s' p)
qed

text \<open>Freeing an address puts its slot on the free list, whether the slot is in use or not.\<close>

lemma free_by_ptr_slot:
  assumes inv: "slab_inv s" and i: "i < length (classes s)" and j: "j < num_slots (classes s ! i)"
  shows "free_by_ptr (slot_ptr (classes s ! i) j) s = set_free i (free_list (classes s ! i) @ [j]) s"
proof -
  note ok = slab_invD(1) [OF inv i]
  note sl = slot_in_region [OF ok j]
  from ok j have "j < 2 ^ 32" unfolding class_ok_def by linarith
  then have w: "wrap32 j = j" by (rule wrap32_id)
  show ?thesis
    unfolding free_by_ptr_def find_region_slot [OF inv i sl(2)] option.case Let_def sl(3) w
      push_free_set_free using sl(4) by simp
qed

lemma free_by_ptr_live:
  assumes "slab_inv s" and "(i, j) \<in> allocated s"
  shows "free_by_ptr (slot_ptr (classes s ! i) j) s = set_free i (free_list (classes s ! i) @ [j]) s"
  using assms by (intro free_by_ptr_slot) (auto dest: allocatedD)

lemma free_by_ptr_ok:
  assumes inv: "slab_inv s" and p: "p \<in> live s"
  shows "slab_inv (free_by_ptr p s)" and "live (free_by_ptr p s) = live s - {p}"
    and "room (free_by_ptr p s) = room s"
proof -
  obtain i j where kj: "(i, j) \<in> allocated s" and p: "p = slot_ptr (classes s ! i) j"
    using p by (auto simp: live_iff)
  note fb = free_by_ptr_live [OF inv kj, folded p]
  from kj have i: "i < length (classes s)" by (auto dest: allocatedD)
  have d: "distinct (free_list (classes s ! i) @ [j])"
    and sub: "set (free_list (classes s ! i) @ [j]) \<subseteq> {..<num_slots (classes s ! i)}"
    using slab_invD(1) [OF inv i] kj by (auto simp: class_ok_def allocated_def)
  show "slab_inv (free_by_ptr p s)" unfolding fb using inv i d sub by (rule slab_inv_set_free)
  have "live s - {p} = (\<lambda>(k, j). slot_ptr (classes s ! k) j) ` (allocated s - {(i, j)})"
    using inj_on_image_set_diff [OF slot_ptr_inj_on [OF inv], of "allocated s" "{(i, j)}"] kj
    by (simp add: live_def p)
  then show "live (free_by_ptr p s) = live s - {p}"
    by (simp only: fb live_set_free allocated_push [OF kj])
  show "room (free_by_ptr p s) = room s" unfolding fb by (rule ext) simp
qed

text \<open>Live slots do not overlap.\<close>

lemma live_region:
  assumes inv: "slab_inv s" and p: "p \<in> live s"
  obtains i j where "i < length (classes s)" "j < num_slots (classes s ! i)" "p = slot_ptr (classes s ! i) j"
    "room s p = slot_size (classes s ! i)" "{p..<p + room s p} \<subseteq> region (classes s ! i)"
proof -
  obtain i j where kj: "i < length (classes s)" "j < num_slots (classes s ! i)"
    and p: "p = slot_ptr (classes s ! i) j"
    using p by (auto simp: live_iff dest: allocatedD)
  show ?thesis
    using kj p room_slot [OF inv kj] slot_in_region(1) [OF slab_invD(1) [OF inv kj(1)] kj(2)]
    by (intro that [of i j]) simp_all
qed

lemma slots_apart:
  assumes ok: "class_ok c" and j: "j < num_slots c" and k: "k < num_slots c" and "j < k"
  shows "slot_ptr c j + slot_size c \<le> slot_ptr c k"
proof -
  have "j * slot_size c + slot_size c = Suc j * slot_size c" by simp
  also have "\<dots> \<le> k * slot_size c" using \<open>j < k\<close> by (intro mult_le_mono1) simp
  finally show ?thesis by (simp add: class_ok_arith(5) [OF ok j] class_ok_arith(5) [OF ok k])
qed

lemma live_disjoint:
  assumes inv: "slab_inv s" and p: "p \<in> live s" and q: "q \<in> live s" and ne: "p \<noteq> q"
  shows "p + room s p \<le> q \<or> q + room s q \<le> p"
proof -
  obtain i j where P: "i < length (classes s)" "j < num_slots (classes s ! i)" "p = slot_ptr (classes s ! i) j"
    "room s p = slot_size (classes s ! i)" "{p..<p + room s p} \<subseteq> region (classes s ! i)"
    using inv p by (rule live_region)
  obtain k l where Q: "k < length (classes s)" "l < num_slots (classes s ! k)" "q = slot_ptr (classes s ! k) l"
    "room s q = slot_size (classes s ! k)" "{q..<q + room s q} \<subseteq> region (classes s ! k)"
    using inv q by (rule live_region)
  note okP = slab_invD(1) [OF inv P(1)] and okQ = slab_invD(1) [OF inv Q(1)]
  show ?thesis
  proof (cases "i = k")
    case True
    then have "j \<noteq> l" using ne P(3) Q(3) by auto
    then consider "j < l" | "l < j" by linarith
    then show ?thesis
      using slots_apart [OF okP P(2), of l] slots_apart [OF okQ Q(2), of j] P Q True by cases auto
  next
    case False
    then have "{p..<p + room s p} \<inter> {q..<q + room s q} = {}"
      using slab_invD(2) [OF inv P(1) Q(1)] P(5) Q(5) by blast
    moreover have "0 < room s p" "0 < room s q" using okP okQ P(4) Q(4) by (simp_all add: class_ok_def)
    ultimately show ?thesis by (simp add: disjoint_iff) (metis leI le_refl less_imp_le less_le_trans nat_le_linear)
  qed
qed

section \<open>Accounting\<close>

abbreviation (input) class_used :: "SizeClass \<Rightarrow> nat" where
  "class_used c \<equiv> (num_slots c - length (free_list c)) * slot_size c"

lemma foldl_wrap_sum:
  assumes "a + sum_list (map f cs) < 2 ^ 64"
  shows "foldl (\<lambda>t c. wrap64 (t + wrap64 (f c))) a cs = a + sum_list (map f cs)"
  using assms
proof (induction cs arbitrary: a)
  case (Cons c cs)
  from Cons.prems have "f c < 2 ^ 64" "a + f c < 2 ^ 64" "a + f c + sum_list (map f cs) < 2 ^ 64"
    unfolding list.map sum_list.Cons by linarith+
  then show ?case by (simp only: foldl.simps wrap64_id Cons.IH list.map sum_list.Cons add.assoc)
qed simp

lemma used_bytes_sum:
  assumes "slab_inv s"
  shows "used_bytes s = (\<Sum>c \<leftarrow> classes s. class_used c)" and "used_bytes s \<le> total_bytes s"
proof -
  have ok: "used_slots c * slot_size c = class_used c" if "c \<in> set (classes s)" for c
    using assms that by (simp add: slab_inv_def class_ok_arith)
  then have eq: "map (\<lambda>c. used_slots c * slot_size c) (classes s) = map class_used (classes s)" by simp
  have "(\<Sum>c \<leftarrow> classes s. class_used c) \<le> (\<Sum>c \<leftarrow> classes s. slot_size c * num_slots c)"
    by (rule sum_list_mono) (simp add: mult.commute)
  with assms have le: "(\<Sum>c \<leftarrow> classes s. class_used c) \<le> total_bytes s" "total_bytes s < 2 ^ 64"
    by (simp_all add: slab_inv_def)
  from le_less_trans [OF this]
  have "0 + (\<Sum>c \<leftarrow> classes s. used_slots c * slot_size c) < 2 ^ 64" unfolding eq by simp
  from foldl_wrap_sum [OF this] show "used_bytes s = (\<Sum>c \<leftarrow> classes s. class_used c)"
    by (simp only: used_bytes_def eq add_0)
  then show "used_bytes s \<le> total_bytes s" using le by simp
qed

lemma used_sum_set_free:
  assumes i: "i < length (classes s)"
  shows "(\<Sum>c \<leftarrow> classes (set_free i fs s). class_used c) + class_used (classes s ! i) =
    (\<Sum>c \<leftarrow> classes s. class_used c) + (num_slots (classes s ! i) - length fs) * slot_size (classes s ! i)"
proof -
  let ?u = "map class_used (classes s)"
  have "map class_used (classes (set_free i fs s)) =
      ?u[i := (num_slots (classes s ! i) - length fs) * slot_size (classes s ! i)]"
    by (simp add: set_free_def map_update)
  moreover have "?u ! i \<le> sum_list ?u" using i by (intro member_le_sum_list) auto
  ultimately show ?thesis using i by (simp add: sum_list_update)
qed

text \<open>A slot that is freed twice is handed out twice.\<close>

lemma find_class_update:
  "fs \<noteq> [] \<Longrightarrow> fs' \<noteq> [] \<Longrightarrow> find_class n k (cs[i := c\<lparr>free_list := fs\<rparr>]) = find_class n k (cs[i := c\<lparr>free_list := fs'\<rparr>])"
  by (induction cs arbitrary: i k) (auto split: nat.splits)

lemma double_free:
  assumes inv: "slab_inv s" and p: "p \<in> live s" and s': "s' = free_by_ptr p (free_by_ptr p s)"
    and n: "find_class n 0 (classes s') = find_region p 0 (classes s')"
  shows "\<exists>h t u. allocate n s' = (h, p, t) \<and> allocate n t = (h, p, u)"
proof -
  obtain i j where kj: "(i, j) \<in> allocated s" and p': "p = slot_ptr (classes s ! i) j" using p by (auto simp: live_iff)
  from kj have i: "i < length (classes s)" and j: "j < num_slots (classes s ! i)" by (auto dest: allocatedD)
  let ?f = "free_list (classes s ! i)" and ?s = "\<lambda>fs. set_free i fs s"
  have again: "set_free i fs (?s fs') = ?s fs" for fs fs' using i by (simp add: set_free_def)
  have s1: "free_by_ptr p s = ?s (?f @ [j])" using free_by_ptr_live [OF inv kj] p' by simp
  have "slab_inv (?s (?f @ [j]))" using free_by_ptr_ok(1) [OF inv p] by (simp add: s1)
  from free_by_ptr_slot [OF this, of i j] i j
  have "free_by_ptr p (?s (?f @ [j])) = ?s (?f @ [j, j])" by (simp add: p' set_free_list again slot_ptr_def)
  then have eq: "s' = ?s (?f @ [j, j])" unfolding s' s1 .
  have "find_region p 0 (classes s) = Some i"
    using find_region_slot [OF inv i slot_in_region(2) [OF slab_invD(1) [OF inv i] j]] by (simp add: p')
  then have c2: "find_class n 0 (classes s') = Some i" using n by (simp add: eq)
  then have c1: "find_class n 0 (classes (?s (?f @ [j]))) = Some i"
    using find_class_update [of "?f @ [j, j]" "?f @ [j]" n 0 "classes s" i] by (simp add: eq set_free_def)
  have al: "allocate n (?s (fs @ [j])) = (\<lparr>class_index = i, slot_index = j\<rparr>, p, ?s fs)"
    if "find_class n 0 (classes (?s (fs @ [j]))) = Some i" for fs
    using that i by (simp add: allocate_def Let_def set_free_list p' slot_ptr_def) (simp add: set_free_def)
  have "allocate n s' = (\<lparr>class_index = i, slot_index = j\<rparr>, p, ?s (?f @ [j]))"
    using al [of "?f @ [j]"] c2 by (simp add: eq)
  moreover have "allocate n (?s (?f @ [j])) = (\<lparr>class_index = i, slot_index = j\<rparr>, p, ?s ?f)" using c1 by (rule al)
  ultimately show ?thesis by blast
qed

lemma free_by_ptr_used:
  assumes inv: "slab_inv s" and p: "p \<in> live s"
  shows "used_bytes (free_by_ptr p s) + room s p = used_bytes s"
proof -
  obtain i j where kj: "(i, j) \<in> allocated s" and p': "p = slot_ptr (classes s ! i) j"
    using p by (auto simp: live_iff)
  note fb = free_by_ptr_live [OF inv kj, folded p']
  from kj have i: "i < length (classes s)" and j: "j < num_slots (classes s ! i)"
    and nj: "j \<notin> set (free_list (classes s ! i))" by (auto simp: allocated_def)
  note ok = slab_invD(1) [OF inv i]
  have "card (insert j (set (free_list (classes s ! i)))) \<le> card {..<num_slots (classes s ! i)}"
    using ok j by (intro card_mono) (auto simp: class_ok_def)
  then have "Suc (length (free_list (classes s ! i))) \<le> num_slots (classes s ! i)"
    using nj ok by (simp add: class_ok_def distinct_card)
  then have "class_used (classes s ! i) = (num_slots (classes s ! i) -
      length (free_list (classes s ! i) @ [j])) * slot_size (classes s ! i) + slot_size (classes s ! i)"
    by (auto simp: le_iff_add)
  with used_sum_set_free [OF i, of "free_list (classes s ! i) @ [j]"]
  show ?thesis
    unfolding used_bytes_sum(1) [OF inv] used_bytes_sum(1) [OF free_by_ptr_ok(1) [OF inv p]]
      room_slot [OF inv i j, folded p'] by (simp only: fb)
qed

text \<open>An allocation is undone by freeing what it returned, so its accounting follows.\<close>

lemma allocate_used:
  assumes inv: "slab_inv s" and al: "allocate n s = (h, p, s')" and p: "p \<noteq> nullptr"
  shows "used_bytes s' = used_bytes s + room s p"
proof -
  obtain i where i: "i < length (classes s)" "fits n (classes s ! i)"
    and p': "p = slot_ptr (classes s ! i) (last (free_list (classes s ! i)))"
    and s': "s' = set_free i (butlast (free_list (classes s ! i))) s"
    using inv al p by (rule allocate_hit)
  note ok = slab_invD(1) [OF inv i(1)]
  from i(2) have ne: "free_list (classes s ! i) \<noteq> []" by (simp add: fits_def)
  have "length (free_list (classes s ! i)) \<le> num_slots (classes s ! i)" using ok by (rule class_ok_arith)
  then have "class_used (classes s ! i) + slot_size (classes s ! i) = (num_slots (classes s ! i) -
      length (butlast (free_list (classes s ! i)))) * slot_size (classes s ! i)"
    using ne by (cases "free_list (classes s ! i)") (auto simp: le_iff_add)
  with used_sum_set_free [OF i(1), of "butlast (free_list (classes s ! i))"]
  show ?thesis
    unfolding used_bytes_sum(1) [OF inv] used_bytes_sum(1) [OF allocate_ok(1) [OF inv al p]]
      room_slot [OF inv i(1) free_last(1) [OF ok ne], folded p'] by (simp add: s')
qed

section \<open>The interface used by the engine\<close>

text \<open>
  What the engine relies on: an allocation yields a fresh block that is large enough and
  does not overlap a live one, freeing a live block removes exactly it.
\<close>

locale slot_allocator =
  fixes alloc :: "nat \<Rightarrow> 's \<Rightarrow> 'h \<times> ptr \<times> 's"
    and release :: "ptr \<Rightarrow> 's \<Rightarrow> 's"
    and inv :: "'s \<Rightarrow> bool"
    and blocks :: "'s \<Rightarrow> ptr set"
    and extent :: "'s \<Rightarrow> ptr \<Rightarrow> nat"
    and used :: "'s \<Rightarrow> nat"
  assumes alloc_hit: "inv s \<Longrightarrow> alloc n s = (h, p, s') \<Longrightarrow> p \<noteq> nullptr \<Longrightarrow>
      inv s' \<and> p \<notin> blocks s \<and> blocks s' = insert p (blocks s) \<and> n \<le> extent s p \<and> extent s' = extent s \<and>
      used s' = used s + extent s p"
    and alloc_miss: "inv s \<Longrightarrow> alloc n s = (h, p, s') \<Longrightarrow> p = nullptr \<Longrightarrow> s' = s"
    and release_live: "inv s \<Longrightarrow> p \<in> blocks s \<Longrightarrow> inv (release p s) \<and>
      blocks (release p s) = blocks s - {p} \<and> extent (release p s) = extent s \<and>
      used (release p s) + extent s p = used s"
    and blocks_apart: "inv s \<Longrightarrow> p \<in> blocks s \<Longrightarrow> q \<in> blocks s \<Longrightarrow> p \<noteq> q \<Longrightarrow>
      p + extent s p \<le> q \<or> q + extent s q \<le> p"
    and null_not_live: "inv s \<Longrightarrow> nullptr \<notin> blocks s"
begin

lemma alloc_inv: "inv s \<Longrightarrow> alloc n s = (h, p, s') \<Longrightarrow> inv s'"
  using alloc_hit [of s n h p s'] alloc_miss [of s n h p s'] by (cases "p = nullptr") auto

lemma alloc_extent: "inv s \<Longrightarrow> alloc n s = (h, p, s') \<Longrightarrow> extent s' = extent s"
  using alloc_hit [of s n h p s'] alloc_miss [of s n h p s'] by (cases "p = nullptr") auto

text \<open>Filling a block leaves the contents of every other block alone.\<close>

lemma write_isolated:
  assumes "inv s" and "p \<in> blocks s" and "q \<in> blocks s" and "p \<noteq> q"
    and "length bs \<le> extent s p" and "n \<le> extent s q"
  shows "mem_read (mem_write m p bs) q n = mem_read m q n"
  using blocks_apart [OF assms(1-4)] assms(5,6) by (intro mem_read_write_disjoint) linarith

lemma alloc_write_isolated:
  assumes "inv s" and "alloc k s = (h, p, s')" and "p \<noteq> nullptr" and "q \<in> blocks s"
    and "length bs \<le> k" and "n \<le> extent s q"
  shows "mem_read (mem_write m p bs) q n = mem_read m q n"
  using alloc_hit [OF assms(1-3)] assms by (intro write_isolated [of s' p q]) auto

text \<open>Freeing what was just allocated restores the live blocks and the accounting.\<close>

lemma alloc_release:
  assumes "inv s" and "alloc k s = (h, p, s')" and "p \<noteq> nullptr"
  shows "blocks (release p s') = blocks s" and "used (release p s') = used s"
  using alloc_hit [OF assms] release_live [of s' p] by auto

lemma release_other: "inv s \<Longrightarrow> p \<in> blocks s \<Longrightarrow> q \<in> blocks s \<Longrightarrow> q \<noteq> p \<Longrightarrow> q \<in> blocks (release p s)"
  using release_live [of s p] by simp

end

lemma null_not_live_slab: "slab_inv s \<Longrightarrow> nullptr \<notin> live s"
proof
  assume inv: "slab_inv s" and "nullptr \<in> live s"
  then obtain i j where "i < length (classes s)" "j < num_slots (classes s ! i)" "slot_ptr (classes s ! i) j = 0"
    by (auto simp: live_iff dest: allocatedD)
  with slot_in_region(4) [OF slab_invD(1) [OF inv], of i j] show False by simp
qed

interpretation slab: slot_allocator allocate free_by_ptr slab_inv live room used_bytes
proof (unfold_locales, goal_cases)
  case 1
  then show ?case by (auto dest: allocate_ok allocate_used)
next
  case 2
  then show ?case by (rule allocate_miss)
next
  case 3
  then show ?case by (auto dest: free_by_ptr_ok free_by_ptr_used)
next
  case 4
  then show ?case by (rule live_disjoint)
next
  case 5
  then show ?case by (rule null_not_live_slab)
qed

section \<open>Construction establishes the invariant\<close>

text \<open>
  The documented behaviour of \<open>mmap\<close> and \<open>aligned_alloc\<close>: a returned block is not null,
  fits the address space and does not overlap a block handed out before (\<open>owned\<close>).
\<close>

definition fresh_block :: "('w \<Rightarrow> ptr set) \<Rightarrow> 'w \<Rightarrow> nat \<Rightarrow> ptr \<Rightarrow> 'w \<Rightarrow> bool" where
  "fresh_block owned w n p w' \<longleftrightarrow> p \<noteq> nullptr \<and> p + n \<le> 2 ^ 64 \<and> {p..<p + n} \<inter> owned w = {} \<and>
     owned w \<union> {p..<p + n} \<subseteq> owned w'"

definition alloc_laws :: "'w alloc_env \<Rightarrow> ('w \<Rightarrow> ptr set) \<Rightarrow> bool" where
  "alloc_laws A owned \<longleftrightarrow>
     (\<forall>w n p w'. sys_mmap_huge A w n = (Some p, w') \<longrightarrow> fresh_block owned w n p w') \<and>
     (\<forall>w n w'. sys_mmap_huge A w n = (None, w') \<longrightarrow> owned w \<subseteq> owned w') \<and>
     (\<forall>w a n p w'. sys_aligned_alloc A w a n = (p, w') \<longrightarrow> p \<noteq> nullptr \<longrightarrow> fresh_block owned w n p w')"

definition fresh_slab :: "SlabAllocator \<Rightarrow> bool" where
  "fresh_slab s \<longleftrightarrow> (\<forall>c \<in> set (classes s). 0 < num_slots c \<and> free_list c = [0..<num_slots c])"

text \<open>The configurations the constructor can represent in its 32-bit slot numbers and 64-bit sizes.\<close>

definition config_in_range :: "nat \<Rightarrow> nat list \<Rightarrow> bool" where
  "config_in_range bpc sizes \<longleftrightarrow> (\<forall>sz \<in> set sizes. 0 < sz \<and> bpc div sz \<le> 2 ^ 32) \<and>
     (\<Sum>sz \<leftarrow> sizes. max sz bpc) < 2 ^ 64 \<and> length sizes < UINT32_MAX"

lemma fresh_slab_live:
  assumes "fresh_slab s"
  shows "live s = {}"
proof -
  have "j \<in> set (free_list (classes s ! i))" if "i < length (classes s)" "j < num_slots (classes s ! i)" for i j
    using assms nth_mem [OF that(1)] that(2) by (simp add: fresh_slab_def)
  then show ?thesis by (auto simp: live_def allocated_def)
qed

lemma fresh_slab_used: "slab_inv s \<Longrightarrow> fresh_slab s \<Longrightarrow> used_bytes s = 0"
  by (simp add: used_bytes_sum sum_list_eq_0_iff fresh_slab_def)

lemma alloc_backing_fresh:
  assumes laws: "alloc_laws A owned" and al: "alloc_backing A hp n (w, m) = Inr ((p, k), w', m')"
  shows "p \<noteq> nullptr" and "p + n \<le> 2 ^ 64" and "{p..<p + n} \<inter> owned w = {}"
    and "owned w \<union> {p..<p + n} \<subseteq> owned w'"
proof -
  have aligned: "fresh_block owned w n p w'" if "alloc_aligned A n (w, m) = Inr ((p, k), w', m')" for w
    using laws that by (auto simp: alloc_aligned_def alloc_laws_def split: prod.splits if_splits)
  have "fresh_block owned w n p w'"
  proof (cases hp)
    case True
    obtain r w1 where r: "sys_mmap_huge A w n = (r, w1)" by (cases "sys_mmap_huge A w n")
    show ?thesis
    proof (cases r)
      case None
      with r laws have "owned w \<subseteq> owned w1" by (auto simp: alloc_laws_def)
      moreover have "fresh_block owned w1 n p w'" using al True r None by (intro aligned) (simp add: alloc_backing_def)
      ultimately show ?thesis by (auto simp: fresh_block_def)
    next
      case (Some q)
      then show ?thesis using al True r laws by (auto simp: alloc_backing_def alloc_laws_def)
    qed
  next
    case False
    then show ?thesis using al by (intro aligned) (simp add: alloc_backing_def)
  qed
  then show "p \<noteq> nullptr" "p + n \<le> 2 ^ 64" "{p..<p + n} \<inter> owned w = {}"
    "owned w \<union> {p..<p + n} \<subseteq> owned w'" by (simp_all add: fresh_block_def)
qed

lemma slab_inv_append:
  assumes inv: "slab_inv s" and ok: "class_ok c" and apart: "\<And>d. d \<in> set (classes s) \<Longrightarrow> region d \<inter> region c = {}"
    and srt: "\<And>d. d \<in> set (classes s) \<Longrightarrow> slot_size d \<le> slot_size c"
    and len: "Suc (length (classes s)) < UINT32_MAX"
    and tot: "total_bytes s + slot_size c * num_slots c < 2 ^ 64"
    and s': "classes s' = classes s @ [c]" "total_bytes s' = total_bytes s + slot_size c * num_slots c"
  shows "slab_inv s'"
proof -
  have "region ((classes s @ [c]) ! i) \<inter> region ((classes s @ [c]) ! j) = {}"
    if ij: "i < Suc (length (classes s))" "j < Suc (length (classes s))" and "i \<noteq> j" for i j
  proof -
    consider "i < length (classes s)" "j < length (classes s)" | "i < length (classes s)" "j = length (classes s)"
      | "i = length (classes s)" "j < length (classes s)" using \<open>i \<noteq> j\<close> ij by linarith
    then show ?thesis
      using slab_invD(2) [OF inv, of i j] \<open>i \<noteq> j\<close> apart [OF nth_mem, of i] apart [OF nth_mem, of j]
      by cases (simp_all add: nth_append Int_commute)
  qed
  moreover have "sorted (map slot_size (classes s @ [c]))"
    using inv srt by (auto simp: slab_inv_def sorted_append)
  moreover have "\<forall>d \<in> set (classes s @ [c]). class_ok d" using inv ok by (auto simp: slab_inv_def)
  ultimately show ?thesis
    using inv len tot unfolding slab_inv_def s' by simp
qed

text \<open>One turn of the loop, and the loop.\<close>

lemma add_class_ok:
  assumes laws: "alloc_laws A owned" and inv: "slab_inv s" and fresh: "fresh_slab s"
    and own: "\<forall>c \<in> set (classes s). region c \<subseteq> owned w"
    and srt: "\<forall>c \<in> set (classes s). slot_size c \<le> sz"
    and rng: "0 < sz" "bpc div sz \<le> 2 ^ 32" "total_bytes s + max sz bpc < 2 ^ 64"
      "Suc (length (classes s)) < UINT32_MAX"
    and add: "add_class A bpc sz (s, w, m) = Inr (s', w', m')"
  shows "slab_inv s'" and "fresh_slab s'" and "\<forall>c \<in> set (classes s'). region c \<subseteq> owned w'"
    and "map slot_size (classes s') = map slot_size (classes s) @ [sz]"
    and "total_bytes s' \<le> total_bytes s + max sz bpc"
proof -
  define n where "n = (if bpc div sz = 0 then 1 else bpc div sz)"
  have n: "0 < n" "n \<le> 2 ^ 32" "sz * n \<le> max sz bpc"
    using rng(2) by (auto simp: n_def max.coboundedI2)
  from n(3) rng(3) have lt: "sz * n < 2 ^ 64" "total_bytes s + sz * n < 2 ^ 64" by linarith+
  obtain p k where al: "alloc_backing A (use_hugepages s) (sz * n) (w, m) = Inr ((p, k), w', m')"
    and cl: "classes s' = classes s @ [\<lparr>slot_size = sz, num_slots = n, base = p, free_list = map wrap32 [0..<n]\<rparr>]"
    and tb: "total_bytes s' = total_bytes s + sz * n"
    using add rng(1) unfolding add_class_def prod.case Let_def n_def [symmetric] wrap64_id [OF lt(1)]
      wrap64_id [OF lt(2)] by (auto split: sum.splits)
  have "map wrap32 [0..<n] = map (\<lambda>j. j) [0..<n]"
    using n(2) by (intro map_cong refl wrap32_id) auto
  then have fl: "map wrap32 [0..<n] = [0..<n]" by simp
  note fr = alloc_backing_fresh [OF laws al]
  let ?c = "\<lparr>slot_size = sz, num_slots = n, base = p, free_list = [0..<n]\<rparr>"
  have ok: "class_ok ?c" using rng(1) n(2) fr(1,2) by (auto simp: class_ok_def)
  have rg: "region ?c = {p..<p + sz * n}" by (simp add: region_def)
  show "slab_inv s'"
  proof (rule slab_inv_append [OF inv ok _ _ rng(4)])
    show "region d \<inter> region ?c = {}" if "d \<in> set (classes s)" for d using own that fr(3) rg by blast
  qed (use srt lt(2) cl tb fl in simp_all)
  show "fresh_slab s'" using fresh n(1) by (auto simp: fresh_slab_def cl fl)
  show "\<forall>c \<in> set (classes s'). region c \<subseteq> owned w'" using own fr(4) rg by (auto simp: cl fl)
  show "map slot_size (classes s') = map slot_size (classes s) @ [sz]" by (simp add: cl)
  show "total_bytes s' \<le> total_bytes s + max sz bpc" using tb n(3) by simp
qed

lemma add_classes_ok:
  assumes laws: "alloc_laws A owned" and add: "add_classes A bpc sizes (s, w, m) = Inr (s', w', m')"
    and inv: "slab_inv s" and fresh: "fresh_slab s" and own: "\<forall>c \<in> set (classes s). region c \<subseteq> owned w"
    and srt: "sorted (map slot_size (classes s) @ sizes)"
    and rng: "\<forall>sz \<in> set sizes. 0 < sz \<and> bpc div sz \<le> 2 ^ 32"
      "total_bytes s + (\<Sum>sz \<leftarrow> sizes. max sz bpc) < 2 ^ 64"
      "length (classes s) + length sizes < UINT32_MAX"
  shows "slab_inv s' \<and> fresh_slab s' \<and> map slot_size (classes s') = map slot_size (classes s) @ sizes"
  using add inv fresh own srt rng
proof (induction sizes arbitrary: s w m)
  case (Cons sz sizes)
  from Cons.prems(1) obtain s1 w1 m1 where one: "add_class A bpc sz (s, w, m) = Inr (s1, w1, m1)"
    and rest: "add_classes A bpc sizes (s1, w1, m1) = Inr (s', w', m')"
    by (auto split: sum.splits)
  have "\<forall>c \<in> set (classes s). slot_size c \<le> sz" using Cons.prems(5) by (auto simp: sorted_append)
  moreover have "total_bytes s + max sz bpc < 2 ^ 64" "Suc (length (classes s)) < UINT32_MAX"
    using Cons.prems(7,8) unfolding list.map sum_list.Cons list.size(4) by linarith+
  ultimately have step: "slab_inv s1" "fresh_slab s1" "\<forall>c \<in> set (classes s1). region c \<subseteq> owned w1"
    "map slot_size (classes s1) = map slot_size (classes s) @ [sz]" "total_bytes s1 \<le> total_bytes s + max sz bpc"
    using add_class_ok [OF laws Cons.prems(2,3,4) _ _ _ _ _ one] Cons.prems(6) by simp_all
  have len: "length (classes s1) = Suc (length (classes s))"
    using arg_cong [OF step(4), of length] by simp
  have "slab_inv s' \<and> fresh_slab s' \<and> map slot_size (classes s') = map slot_size (classes s1) @ sizes"
  proof (rule Cons.IH [OF rest step(1,2,3)])
    show "total_bytes s1 + (\<Sum>sz \<leftarrow> sizes. max sz bpc) < 2 ^ 64"
      using Cons.prems(7) step(5) unfolding list.map sum_list.Cons by linarith
  qed (use Cons.prems step len in simp_all)
  then show ?case by (simp add: step(4))
qed simp

section \<open>Properties\<close>

text \<open>
  A system whose blocks are carved off a growing break, page by page, used to instantiate
  the allocator parameter.
\<close>

definition page_up :: "nat \<Rightarrow> nat" where
  "page_up n = (n + 4095) div 4096 * 4096"

definition brk_env :: "nat alloc_env" where
  "brk_env = \<lparr>sys_mmap_huge = (\<lambda>w n. (None, w)),
     sys_aligned_alloc = (\<lambda>w a n. if page_up w + n \<le> 2 ^ 64 then (page_up w, page_up w + n) else (0, w)),
     sys_munmap = (\<lambda>w p n. w), sys_free = (\<lambda>w p. w)\<rparr>"

lemma page_up_ge: "n \<le> page_up n"
  unfolding page_up_def by linarith

lemma brk_env_laws: "alloc_laws brk_env lessThan"
proof -
  have "fresh_block lessThan w n p w'"
    if "sys_aligned_alloc brk_env w a n = (p, w')" "p \<noteq> nullptr" for w a n p w'
  proof -
    have "p = page_up w" "w' = page_up w + n" "page_up w + n \<le> 2 ^ 64"
      using that by (simp_all only: brk_env_def alloc_env.simps split: if_splits) simp_all
    with page_up_ge [of w] that(2) show ?thesis by (auto simp: fresh_block_def)
  qed
  then show ?thesis unfolding alloc_laws_def by (simp add: brk_env_def)
qed

lemma allocate_minimal:
  assumes inv: "slab_inv s" and al: "allocate n s = (h, p, s')" and p: "p \<noteq> nullptr"
  shows "\<forall>c \<in> set (classes s). fits n c \<longrightarrow> room s p \<le> slot_size c"
proof -
  obtain i where i: "i < length (classes s)" "fits n (classes s ! i)" "\<forall>k < i. \<not> fits n (classes s ! k)"
    and p: "p = slot_ptr (classes s ! i) (last (free_list (classes s ! i)))"
    using inv al p by (rule allocate_hit)
  have rm: "room s p = slot_size (classes s ! i)"
    unfolding p using free_last(1) [OF slab_invD(1) [OF inv i(1)]] i(2)
    by (intro room_slot [OF inv i(1)]) (simp add: fits_def)
  have "slot_size (classes s ! i) \<le> slot_size (classes s ! k)"
    if "k < length (classes s)" "fits n (classes s ! k)" for k
  proof -
    have "i \<le> k" using i(3) that(2) not_less by blast
    with inv that(1) show ?thesis
      using sorted_nth_mono [of "map slot_size (classes s)" i k] by (simp add: slab_inv_def)
  qed
  then show ?thesis unfolding rm by (auto simp: in_set_conv_nth)
qed

text \<open>The states a client reaches that frees only what is live.\<close>

inductive slab_reach :: "SlabAllocator \<Rightarrow> SlabAllocator \<Rightarrow> bool" for s0 where
  init: "slab_reach s0 s0"
| alloc: "slab_reach s0 s \<Longrightarrow> allocate n s = (h, p, s') \<Longrightarrow> slab_reach s0 s'"
| free: "slab_reach s0 s \<Longrightarrow> p \<in> live s \<Longrightarrow> slab_reach s0 (free_by_ptr p s)"

lemma slab_reach_inv: "slab_reach s0 s \<Longrightarrow> slab_inv s0 \<Longrightarrow> slab_inv s"
  by (induction rule: slab_reach.induct) (auto intro: slab.alloc_inv free_by_ptr_ok)

lemma slab_create_inv:
  assumes "alloc_laws A owned"
    and "config_in_range (dc_size_bytes cfg div length (dc_size_classes cfg)) (sort (dc_size_classes cfg))"
    and "slab_create A cfg (w, m) = Inr (s, w', m')"
  shows "slab_inv s \<and> map slot_size (classes s) = sort (dc_size_classes cfg) \<and> live s = {} \<and>
    used_bytes s = 0 \<and> (\<forall>c \<in> set (classes s). 0 < length (free_list c))"
proof -
  let ?s = "\<lparr>classes = [], backing_allocations = [], backing_methods = [], backing_sizes = [],
    total_bytes = 0, use_hugepages = dc_hugepages cfg, use_pinned = dc_pinned_memory cfg\<rparr>"
  have add: "add_classes A (dc_size_bytes cfg div length (dc_size_classes cfg)) (sort (dc_size_classes cfg))
      (?s, w, m) = Inr (s, w', m')"
    using assms(3) by (simp add: slab_create_def Let_def split: if_splits)
  have "slab_inv ?s" "fresh_slab ?s" by (simp_all add: slab_inv_def fresh_slab_def)
  from add_classes_ok [OF assms(1) add this] assms(2)
  have ok: "slab_inv s" "fresh_slab s" "map slot_size (classes s) = sort (dc_size_classes cfg)"
    by (simp_all add: config_in_range_def)
  then show ?thesis
    using fresh_slab_live fresh_slab_used by (auto simp: fresh_slab_def)
qed

definition small_dram :: DramCacheConfig where
  "small_dram = \<lparr>dc_enabled = True, dc_size_bytes = 40, dc_size_classes = [16, 4], dc_hugepages = True, dc_pinned_memory = False\<rparr>"

lemma small_dram_created:
  "slab_create brk_env small_dram (4096, m) =
     Inr (\<lparr>classes = [\<lparr>slot_size = 4, num_slots = 5, base = 4096, free_list = [0, 1, 2, 3, 4]\<rparr>,
                      \<lparr>slot_size = 16, num_slots = 1, base = 8192, free_list = [0]\<rparr>],
           backing_allocations = [4096, 8192], backing_methods = [kAlignedAlloc, kAlignedAlloc],
           backing_sizes = [20, 16], total_bytes = 36, use_hugepages = True, use_pinned = False\<rparr>,
          8208, mem_write (mem_write m 4096 (replicate 20 0)) 8192 (replicate 16 0))"
  by (simp add: slab_create_def small_dram_def brk_env_def alloc_backing_def alloc_aligned_def
      add_class_def page_up_def wrap64_def wrap32_def Let_def upt_rec flip: numeral_2_eq_2)

definition small_slab :: SlabAllocator where
  "small_slab = fst (projr (slab_create brk_env small_dram (4096, \<lambda>_. 0)))"

lemma small_slab_inv: "slab_inv small_slab"
proof -
  have "config_in_range (dc_size_bytes small_dram div length (dc_size_classes small_dram))
      (sort (dc_size_classes small_dram))"
    by (simp add: config_in_range_def small_dram_def flip: numeral_2_eq_2)
  from slab_create_inv [OF brk_env_laws this small_dram_created] show ?thesis
    unfolding small_slab_def small_dram_created by simp
qed

lemma small_slab_classes:
  "classes small_slab = [\<lparr>slot_size = 4, num_slots = 5, base = 4096, free_list = [0, 1, 2, 3, 4]\<rparr>,
     \<lparr>slot_size = 16, num_slots = 1, base = 8192, free_list = [0]\<rparr>]"
  by (simp add: small_slab_def small_dram_created)

text \<open>The allocator after serving two requests of three bytes.\<close>

definition small_slab_1 :: SlabAllocator where
  "small_slab_1 = snd (snd (allocate 3 small_slab))"

definition small_slab_2 :: SlabAllocator where
  "small_slab_2 = snd (snd (allocate 3 small_slab_1))"

lemma allocate_small_slab:
  "allocate 3 small_slab = (\<lparr>class_index = 0, slot_index = 4\<rparr>, 4112, small_slab_1)"
  by (simp add: small_slab_1_def allocate_def small_slab_classes slot_ptr_def wrap64_def)

lemma small_slab_1_classes:
  "classes small_slab_1 = [\<lparr>slot_size = 4, num_slots = 5, base = 4096, free_list = [0, 1, 2, 3]\<rparr>,
     \<lparr>slot_size = 16, num_slots = 1, base = 8192, free_list = [0]\<rparr>]"
  by (simp add: small_slab_1_def allocate_def small_slab_classes)

lemma allocate_small_slab_1:
  "allocate 3 small_slab_1 = (\<lparr>class_index = 0, slot_index = 3\<rparr>, 4108, small_slab_2)"
  by (simp add: small_slab_2_def allocate_def small_slab_1_classes slot_ptr_def wrap64_def)

lemma small_slab_2_classes:
  "classes small_slab_2 = [\<lparr>slot_size = 4, num_slots = 5, base = 4096, free_list = [0, 1, 2]\<rparr>,
     \<lparr>slot_size = 16, num_slots = 1, base = 8192, free_list = [0]\<rparr>]"
  by (simp add: small_slab_2_def allocate_def small_slab_1_classes)

lemma small_slab_1_live: "slab_inv small_slab_1" "live small_slab_1 = insert 4112 (live small_slab)"
  using allocate_ok(1,3) [OF small_slab_inv allocate_small_slab] by simp_all

lemma small_slab_2_live: "live small_slab_2 = insert 4108 (insert 4112 (live small_slab))"
  using allocate_ok(3) [OF small_slab_1_live(1) allocate_small_slab_1] small_slab_1_live(2) by simp

text \<open>
  C36. Construction. With a system allocator that hands out fresh blocks and a configuration
  in range, a constructor that returns establishes the allocator's invariant (slot numbers
  distinct and in range, regions of different classes disjoint, classes sorted by slot
  size), with one class for every configured size, every slot free and nothing in use.
\<close>

theorem slab_create_establishes_inv:
  assumes "alloc_laws A owned"
    and "config_in_range (dc_size_bytes cfg div length (dc_size_classes cfg)) (sort (dc_size_classes cfg))"
    and "slab_create A cfg (w, m) = Inr (s, w', m')"
  shows "slab_inv s \<and> map slot_size (classes s) = sort (dc_size_classes cfg) \<and> live s = {} \<and>
    used_bytes s = 0 \<and> (\<forall>c \<in> set (classes s). 0 < length (free_list c))"
  using assms by (rule slab_create_inv)

theorem slab_create_establishes_inv_witness:
  "slab_inv (fst (projr (slab_create brk_env small_dram (4096, \<lambda>_. 0))))"
proof -
  have "config_in_range (dc_size_bytes small_dram div length (dc_size_classes small_dram))
      (sort (dc_size_classes small_dram))"
    by (simp add: config_in_range_def small_dram_def flip: numeral_2_eq_2)
  from slab_create_establishes_inv [OF brk_env_laws this small_dram_created] show ?thesis
    unfolding small_dram_created by simp
qed

text \<open>
  C33. Allocation. Either no size class that is large enough has a free slot, and the
  allocator answers with a null pointer and does not change, or the returned slot was not
  live, becomes live, has room for the request, comes from the smallest class that could
  serve it, is what \<open>get_ptr\<close> maps the handle to, and the used bytes grow by the slot size.
\<close>

theorem allocate_smallest_fresh_slot:
  assumes "slab_inv s" and "allocate n s = (h, p, s')"
  shows "if p = nullptr then s' = s \<and> h = Invalid \<and> (\<forall>c \<in> set (classes s). \<not> fits n c)
    else slab_inv s' \<and> p \<notin> live s \<and> live s' = insert p (live s) \<and> n \<le> room s p \<and>
      (\<forall>c \<in> set (classes s). fits n c \<longrightarrow> room s p \<le> slot_size c) \<and> get_ptr h s' = Some p \<and>
      used_bytes s' = used_bytes s + room s p"
proof (cases "p = nullptr")
  case True
  then show ?thesis using allocate_miss [OF assms] by simp
next
  case False
  then show ?thesis
    using allocate_ok [OF assms] allocate_used [OF assms] allocate_minimal [OF assms] by simp
qed

theorem allocate_smallest_fresh_slot_witness: "4112 \<in> live small_slab_1 \<and> 3 \<le> room small_slab 4112"
  using allocate_smallest_fresh_slot [OF small_slab_inv allocate_small_slab] by simp

text \<open>
  C34. Freeing by pointer. Freeing a live slot, found again by the region search and the
  division by the slot size, removes exactly that slot from the live ones, gives its bytes
  back and keeps the invariant; freeing what an allocation returned restores the live slots
  and the used bytes.
\<close>

theorem free_by_ptr_releases_exactly:
  assumes "slab_inv s" and "allocate n s = (h, p, s')" and "p \<noteq> nullptr" and "q \<in> live s'"
  shows "slab_inv (free_by_ptr q s') \<and> live (free_by_ptr q s') = live s' - {q} \<and>
    used_bytes (free_by_ptr q s') + room s' q = used_bytes s' \<and>
    live (free_by_ptr p s') = live s \<and> used_bytes (free_by_ptr p s') = used_bytes s"
  using slab.alloc_release [OF assms(1,2,3)] slab.release_live [OF slab.alloc_inv [OF assms(1,2)] assms(4)]
  by simp

theorem free_by_ptr_releases_exactly_witness: "live (free_by_ptr 4112 small_slab_1) = live small_slab"
proof -
  have "4112 \<in> live small_slab_1" by (simp add: small_slab_1_live)
  from free_by_ptr_releases_exactly [OF small_slab_inv allocate_small_slab zero_neq_numeral [symmetric] this]
  show ?thesis by blast
qed

text \<open>
  C35. Isolation. In every state reached from a well-formed allocator by allocations and by
  frees of live slots, filling one live slot with at most its size leaves the contents of
  every other live slot as they were.
\<close>

theorem live_slots_isolated:
  assumes "slab_inv s0" and "slab_reach s0 s" and "p \<in> live s" and "q \<in> live s" and "p \<noteq> q"
    and "length bs \<le> room s p" and "n \<le> room s q"
  shows "mem_read (mem_write m p bs) q n = mem_read m q n"
  using slab.write_isolated [OF slab_reach_inv [OF assms(2,1)] assms(3-7)] .

theorem live_slots_isolated_witness:
  "mem_read (mem_write (\<lambda>_. 0) 4112 [1, 2, 3, 4]) 4108 4 = mem_read (\<lambda>_. 0) 4108 4"
proof -
  have reach: "slab_reach small_slab small_slab_2"
    using slab_reach.alloc [OF slab_reach.alloc [OF slab_reach.init allocate_small_slab] allocate_small_slab_1] .
  have "room small_slab_2 4112 = 4" "room small_slab_2 4108 = 4"
    by (simp_all add: room_def in_region_def wrap64_def small_slab_2_classes)
  with live_slots_isolated [OF small_slab_inv reach, of 4112 4108 "[1, 2, 3, 4]" 4 "\<lambda>_. 0"]
  show ?thesis by (simp add: small_slab_2_live)
qed

end
