(* ===== verification/Crc32c.thy ===== *)
theory Crc32c
  imports Prelude
begin

text \<open>
  \<open>AttentionDBEngine::compute_crc32\<close> of \<open>src/engine.cpp\<close>: the table-driven checksum of a blob,
  with the table as it stands in the source. It is compared with the bit-by-bit division by
  the reflected Castagnoli polynomial.
\<close>

section \<open>The routine\<close>

definition kCrc32Table :: "32 word list" where
  "kCrc32Table =
     [0x00000000, 0xF26B8303, 0xE13B70F7, 0x1350F3F4, 0xC79A971F, 0x35F1141C, 0x26A1E7E8, 0xD4CA64EB,
      0x8AD958CF, 0x78B2DBCC, 0x6BE22838, 0x9989AB3B, 0x4D43CFD0, 0xBF284CD3, 0xAC78BF27, 0x5E133C24,
      0x105EC76F, 0xE235446C, 0xF165B798, 0x030E349B, 0xD7C45070, 0x25AFD373, 0x36FF2087, 0xC494A384,
      0x9A879FA0, 0x68EC1CA3, 0x7BBCEF57, 0x89D76C54, 0x5D1D08BF, 0xAF768BBC, 0xBC267848, 0x4E4DFB4B,
      0x20BD8EDE, 0xD2D60DDD, 0xC186FE29, 0x33ED7D2A, 0xE72719C1, 0x154C9AC2, 0x061C6936, 0xF477EA35,
      0xAA64D611, 0x580F5512, 0x4B5FA6E6, 0xB93425E5, 0x6DFE410E, 0x9F95C20D, 0x8CC531F9, 0x7EAEB2FA,
      0x30E349B1, 0xC288CAB2, 0xD1D83946, 0x23B3BA45, 0xF779DEAE, 0x05125DAD, 0x1642AE59, 0xE4292D5A,
      0xBA3A117E, 0x4851927D, 0x5B016189, 0xA96AE28A, 0x7DA08661, 0x8FCB0562, 0x9C9BF696, 0x6EF07595,
      0x417B1DBC, 0xB3109EBF, 0xA0406D4B, 0x522BEE48, 0x86E18AA3, 0x748A09A0, 0x67DAFA54, 0x95B17957,
      0xCBA24573, 0x39C9C670, 0x2A993584, 0xD8F2B687, 0x0C38D26C, 0xFE53516F, 0xED03A29B, 0x1F682198,
      0x5125DAD3, 0xA34E59D0, 0xB01EAA24, 0x42752927, 0x96BF4DCC, 0x64D4CECF, 0x77843D3B, 0x85EFBE38,
      0xDBFC821C, 0x2997011F, 0x3AC7F2EB, 0xC8AC71E8, 0x1C661503, 0xEE0D9600, 0xFD5D65F4, 0x0F36E6F7,
      0x61C69362, 0x93AD1061, 0x80FDE395, 0x72966096, 0xA65C047D, 0x5437877E, 0x4767748A, 0xB50CF789,
      0xEB1FCBAD, 0x197448AE, 0x0A24BB5A, 0xF84F3859, 0x2C855CB2, 0xDEEEDFB1, 0xCDBE2C45, 0x3FD5AF46,
      0x7198540D, 0x83F3D70E, 0x90A324FA, 0x62C8A7F9, 0xB602C312, 0x44694011, 0x5739B3E5, 0xA55230E6,
      0xFB410CC2, 0x092A8FC1, 0x1A7A7C35, 0xE811FF36, 0x3CDB9BDD, 0xCEB018DE, 0xDDE0EB2A, 0x2F8B6829,
      0x82F63B78, 0x709DB87B, 0x63CD4B8F, 0x91A6C88C, 0x456CAC67, 0xB7072F64, 0xA457DC90, 0x563C5F93,
      0x082F63B7, 0xFA44E0B4, 0xE9141340, 0x1B7F9043, 0xCFB5F4A8, 0x3DDE77AB, 0x2E8E845F, 0xDCE5075C,
      0x92A8FC17, 0x60C37F14, 0x73938CE0, 0x81F80FE3, 0x55326B08, 0xA759E80B, 0xB4091BFF, 0x466298FC,
      0x1871A4D8, 0xEA1A27DB, 0xF94AD42F, 0x0B21572C, 0xDFEB33C7, 0x2D80B0C4, 0x3ED04330, 0xCCBBC033,
      0xA24BB5A6, 0x502036A5, 0x4370C551, 0xB11B4652, 0x65D122B9, 0x97BAA1BA, 0x84EA524E, 0x7681D14D,
      0x2892ED69, 0xDAF96E6A, 0xC9A99D9E, 0x3BC21E9D, 0xEF087A76, 0x1D63F975, 0x0E330A81, 0xFC588982,
      0xB21572C9, 0x407EF1CA, 0x532E023E, 0xA145813D, 0x758FE5D6, 0x87E466D5, 0x94B49521, 0x66DF1622,
      0x38CC2A06, 0xCAA7A905, 0xD9F75AF1, 0x2B9CD9F2, 0xFF56BD19, 0x0D3D3E1A, 0x1E6DCDEE, 0xEC064EED,
      0xC38D26C4, 0x31E6A5C7, 0x22B65633, 0xD0DDD530, 0x0417B1DB, 0xF67C32D8, 0xE52CC12C, 0x1747422F,
      0x49547E0B, 0xBB3FFD08, 0xA86F0EFC, 0x5A048DFF, 0x8ECEE914, 0x7CA56A17, 0x6FF599E3, 0x9D9E1AE0,
      0xD3D3E1AB, 0x21B862A8, 0x32E8915C, 0xC083125F, 0x144976B4, 0xE622F5B7, 0xF5720643, 0x07198540,
      0x590AB964, 0xAB613A67, 0xB831C993, 0x4A5A4A90, 0x9E902E7B, 0x6CFBAD78, 0x7FAB5E8C, 0x8DC0DD8F,
      0xE330A81A, 0x115B2B19, 0x020BD8ED, 0xF0605BEE, 0x24AA3F05, 0xD6C1BC06, 0xC5914FF2, 0x37FACCF1,
      0x69E9F0D5, 0x9B8273D6, 0x88D28022, 0x7AB90321, 0xAE7367CA, 0x5C18E4C9, 0x4F48173D, 0xBD23943E,
      0xF36E6F75, 0x0105EC76, 0x12551F82, 0xE03E9C81, 0x34F4F86A, 0xC69F7B69, 0xD5CF889D, 0x27A40B9E,
      0x79B737BA, 0x8BDCB4B9, 0x988C474D, 0x6AE7C44E, 0xBE2DA0A5, 0x4C4623A6, 0x5F16D052, 0xAD7D5351]"

definition crc_step :: "32 word \<Rightarrow> byte \<Rightarrow> 32 word" where
  "crc_step crc p = kCrc32Table ! unat ((crc XOR ucast p) AND 0xFF) XOR drop_bit 8 crc"

definition compute_crc32 :: "bytes \<Rightarrow> 32 word" where
  "compute_crc32 data = foldl crc_step 0xFFFFFFFF data XOR 0xFFFFFFFF"

section \<open>The reference: polynomial division, one bit at a time\<close>

abbreviation (input) castagnoli :: "32 word" where
  "castagnoli \<equiv> 0x82F63B78"

definition crc_bit :: "32 word \<Rightarrow> 32 word" where
  "crc_bit c = (if bit c 0 then drop_bit 1 c XOR castagnoli else drop_bit 1 c)"

definition crc_byte :: "32 word \<Rightarrow> 32 word" where
  "crc_byte c = (crc_bit ^^ 8) c"

definition crc32c :: "bytes \<Rightarrow> 32 word" where
  "crc32c data = foldl (\<lambda>c b. crc_byte (c XOR ucast b)) 0xFFFFFFFF data XOR 0xFFFFFFFF"

lemma xor_right_cancel: "a XOR c = b XOR c \<longleftrightarrow> a = (b :: 'a::len word)"
  by (metis xor.assoc xor_self_eq xor.right_neutral)

lemma xor_left_cancel: "c XOR a = c XOR b \<longleftrightarrow> a = (b :: 'a::len word)"
  using xor_right_cancel by (metis xor.commute)

lemma crc_bit_xor: "crc_bit (a XOR b) = crc_bit a XOR crc_bit b"
proof -
  have "drop_bit 1 (a XOR b) = drop_bit 1 a XOR drop_bit 1 b" by (rule drop_bit_xor)
  then show ?thesis
    by (cases "bit a 0"; cases "bit b 0") (simp_all add: crc_bit_def bit_xor_iff ac_simps)
qed

lemma crc_bits_xor: "(crc_bit ^^ n) (a XOR b) = (crc_bit ^^ n) a XOR (crc_bit ^^ n) b"
  by (induction n) (simp_all add: crc_bit_xor)

lemma crc_bits_zeros: "(\<And>i. i < n \<Longrightarrow> \<not> bit c i) \<Longrightarrow> (crc_bit ^^ n) c = drop_bit n c"
proof (induction n)
  case (Suc n)
  then have "(crc_bit ^^ n) c = drop_bit n c" by simp
  moreover have "\<not> bit (drop_bit n c) 0" using Suc.prems [of n] by (simp add: bit_drop_bit_eq)
  ultimately show ?case by (simp add: crc_bit_def [of "drop_bit n c"])
qed simp

lemma crc_byte_split: "crc_byte c = crc_byte (take_bit 8 c) XOR drop_bit 8 c"
proof -
  let ?hi = "push_bit 8 (drop_bit 8 c)"
  have "c = take_bit 8 c XOR ?hi"
    by (rule bit_word_eqI) (auto simp: bit_simps)
  then have "crc_byte c = crc_byte (take_bit 8 c) XOR crc_byte ?hi"
    unfolding crc_byte_def by (metis crc_bits_xor)
  moreover have "crc_byte ?hi = drop_bit 8 ?hi"
    unfolding crc_byte_def by (rule crc_bits_zeros) (simp add: bit_push_bit_iff)
  moreover have "drop_bit 8 ?hi = drop_bit 8 c"
    by (rule bit_word_eqI) (auto simp: bit_simps dest: bit_imp_le_length)
  ultimately show ?thesis by simp
qed

lemma mask8: "(c :: 32 word) AND 0xFF = take_bit 8 c"
proof -
  have "(0xFF :: 32 word) = mask 8" by (simp add: mask_eq_exp_minus_1)
  then show ?thesis by (simp only: take_bit_eq_mask)
qed

section \<open>The bit step is injective\<close>

lemma crc_bit_top: "bit (crc_bit c) 31 \<longleftrightarrow> bit c 0"
  by (auto simp: crc_bit_def bit_simps impossible_bit)

lemma crc_bit_inject: "crc_bit a = crc_bit b \<longleftrightarrow> a = b"
proof
  assume eq: "crc_bit a = crc_bit b"
  then have z: "bit a 0 = bit b 0" using crc_bit_top by metis
  with eq have "drop_bit 1 a = drop_bit 1 b"
    by (cases "bit b 0") (auto simp: crc_bit_def xor_right_cancel)
  then have s: "bit a (Suc i) = bit b (Suc i)" for i
    by (metis bit_drop_bit_eq plus_1_eq_Suc comp_apply)
  show "a = b"
  proof (rule bit_word_eqI)
    show "bit a i = bit b i" for i using z s by (cases i) auto
  qed
qed simp

lemma crc_byte_inject: "crc_byte a = crc_byte b \<longleftrightarrow> a = b"
proof -
  have "(crc_bit ^^ n) a = (crc_bit ^^ n) b \<longleftrightarrow> a = b" for n
    by (induction n) (simp_all add: crc_bit_inject)
  then show ?thesis by (simp add: crc_byte_def)
qed

section \<open>The table\<close>

text \<open>
  Shifting left one bit before a byte step commutes with one bit step after it, so the
  entries at even places determine the table: this is checked entry by entry.
\<close>

fun evens :: "'a list \<Rightarrow> 'a list" where
  "evens (a # b # xs) = a # evens xs"
| "evens xs = []"

fun odds :: "'a list \<Rightarrow> 'a list" where
  "odds (a # b # xs) = b # odds xs"
| "odds xs = []"

lemma length_evens [simp]: "length (evens xs) = length xs div 2"
  by (induction xs rule: evens.induct) auto

lemma length_odds [simp]: "length (odds xs) = length xs div 2"
  by (induction xs rule: odds.induct) auto

lemma nth_evens_odds:
  "2 * i + 1 < length xs \<Longrightarrow> evens xs ! i = xs ! (2 * i) \<and> odds xs ! i = xs ! (2 * i + 1)"
proof (induction xs arbitrary: i rule: evens.induct)
  case (1 a b xs)
  then show ?case by (cases i) auto
qed auto

lemma table_length: "length kCrc32Table = 256"
  by (simp add: kCrc32Table_def)

lemma table_evens: "map crc_bit (evens kCrc32Table) = take 128 kCrc32Table"
  by code_simp

lemma table_odds: "odds kCrc32Table = map (\<lambda>x. x XOR crc_byte 1) (evens kCrc32Table)"
  by code_simp

lemma byte_numbers:
  "map (\<lambda>j. crc_bit (of_nat (2 * j))) [0..<128] = map of_nat [0..<128]"
  "map (\<lambda>j. of_nat (2 * j + 1) :: 32 word) [0..<128] = map (\<lambda>j. of_nat (2 * j) XOR 1) [0..<128]"
  by code_simp+

lemma table_0: "kCrc32Table ! 0 = 0" "crc_byte 0 = 0"
  by code_simp+

lemma kCrc32Table_nth: "i < 256 \<Longrightarrow> kCrc32Table ! i = crc_byte (of_nat i)"
proof (induction i rule: less_induct)
  case (less i)
  define j where "j = i div 2"
  from less.prems have "j < 128" by (simp add: j_def)
  then have j: "j < 128" "2 * j + 1 < length kCrc32Table" by (simp_all add: table_length)
  have even: "kCrc32Table ! (2 * j) = crc_byte (of_nat (2 * j))"
  proof (cases "j = 0")
    case True
    then show ?thesis by (simp add: table_0)
  next
    case False
    then have "kCrc32Table ! j = crc_byte (of_nat j)" using less by (simp add: j_def)
    moreover have "crc_bit (kCrc32Table ! (2 * j)) = kCrc32Table ! j"
      using arg_cong [OF table_evens, of "\<lambda>xs. xs ! j"] nth_evens_odds [OF j(2)] j(1)
      by (simp add: table_length)
    moreover have "crc_bit (of_nat (2 * j)) = of_nat j"
      using arg_cong [OF byte_numbers(1), of "\<lambda>xs. xs ! j"] j(1) by simp
    then have "crc_bit (crc_byte (of_nat (2 * j))) = crc_byte (of_nat j)"
      by (simp only: crc_byte_def funpow_swap1)
    ultimately show ?thesis using crc_bit_inject by metis
  qed
  show ?case
  proof (cases "even i")
    case True
    then show ?thesis using even by (simp add: j_def)
  next
    case False
    then have i: "i = 2 * j + 1" by (simp add: j_def)
    have "of_nat (2 * j + 1) = (of_nat (2 * j) XOR 1 :: 32 word)"
      using arg_cong [OF byte_numbers(2), of "\<lambda>xs. xs ! j"] j(1) by simp
    moreover have "kCrc32Table ! (2 * j + 1) = kCrc32Table ! (2 * j) XOR crc_byte 1"
      using arg_cong [OF table_odds, of "\<lambda>xs. xs ! j"] nth_evens_odds [OF j(2)] j(1)
      by (simp add: table_length)
    ultimately show ?thesis unfolding i even by (simp only: crc_byte_def crc_bits_xor)
  qed
qed

lemma crc_step_byte: "crc_step crc b = crc_byte (crc XOR ucast b)"
proof -
  let ?c = "crc XOR ucast b :: 32 word"
  have "unat (take_bit 8 ?c) < 2 ^ 8"
    unfolding unsigned_take_bit_eq by (rule take_bit_nat_less_exp)
  then have "kCrc32Table ! unat (take_bit 8 ?c) = crc_byte (take_bit 8 ?c)"
    by (simp add: kCrc32Table_nth)
  moreover have "drop_bit 8 ?c = drop_bit 8 crc"
    by (rule bit_word_eqI) (auto simp: bit_simps impossible_bit)
  ultimately show ?thesis
    by (simp add: crc_step_def mask8 crc_byte_split [of ?c])
qed

section \<open>Every single-byte change is noticed\<close>

lemma ucast_byte_inject: "(ucast (a :: byte) :: 32 word) = ucast b \<longleftrightarrow> a = b"
proof
  assume eq: "(ucast a :: 32 word) = ucast b"
  show "a = b"
  proof (rule bit_word_eqI)
    show "bit a n = bit b n" if "n < LENGTH(8)" for n
      using arg_cong [OF eq, of "\<lambda>w. bit w n"] that by (simp add: bit_ucast_iff)
  qed
qed simp

lemma crc_step_inject: "crc_step c a = crc_step d b \<longleftrightarrow> c XOR ucast a = d XOR ucast b"
  by (simp add: crc_step_byte crc_byte_inject)

lemma foldl_crc_inject: "foldl crc_step c ys = foldl crc_step d ys \<longleftrightarrow> c = d"
  by (induction ys arbitrary: c d) (simp_all add: crc_step_inject xor_right_cancel)

section \<open>Properties\<close>

text \<open>
  C25. The table-driven routine computes the CRC-32C of its input: the remainder of the
  bit-by-bit division by the reflected Castagnoli polynomial, with both conditioning
  exclusive-ors.
\<close>

theorem compute_crc32_is_crc32c: "compute_crc32 data = crc32c data"
proof -
  have "crc_step = (\<lambda>c b. crc_byte (c XOR ucast b))" by (intro ext) (rule crc_step_byte)
  then show ?thesis by (simp only: compute_crc32_def crc32c_def)
qed

text \<open>
  C26. A blob in which a single byte was altered never keeps its checksum, wherever the byte
  is and however long the blob.
\<close>

theorem crc_detects_byte_change:
  "compute_crc32 (before @ a # after) = compute_crc32 (before @ b # after) \<longleftrightarrow> a = b"
  by (simp add: compute_crc32_def xor_right_cancel foldl_crc_inject crc_step_inject xor_left_cancel
      ucast_byte_inject)

end
