(* ===== verification/Hash_Index.thy ===== *)
theory Hash_Index
  imports Core_Types
begin

text \<open>
  \<open>src/index/concurrent_hashmap.{h,cpp}\<close>: the index from storage keys to entries. The class
  wraps \<open>libcuckoo::cuckoohash_map\<close>, which is not part of the repository: the table is a
  parameter, a record of the operations the wrapper calls, and \<open>cuckoo_laws\<close> states what
  the library documents about them. Each wrapper method is atomic, so a call is one step.
\<close>

section \<open>The library's table\<close>

record 'm cuckoo =
  ck_new :: "nat \<Rightarrow> 'm"
  ck_find :: "'m \<Rightarrow> StorageKey \<Rightarrow> IndexEntry option"
  ck_contains :: "'m \<Rightarrow> StorageKey \<Rightarrow> bool"
  ck_upsert :: "'m \<Rightarrow> StorageKey \<Rightarrow> (IndexEntry \<Rightarrow> IndexEntry) \<Rightarrow> IndexEntry \<Rightarrow> 'm"
  ck_insert :: "'m \<Rightarrow> StorageKey \<Rightarrow> IndexEntry \<Rightarrow> 'm"
  ck_erase :: "'m \<Rightarrow> StorageKey \<Rightarrow> bool \<times> 'm"
  ck_update_fn :: "'m \<Rightarrow> StorageKey \<Rightarrow> (IndexEntry \<Rightarrow> IndexEntry) \<Rightarrow> bool \<times> 'm"
  ck_size :: "'m \<Rightarrow> nat"
  ck_lock_table :: "'m \<Rightarrow> (StorageKey \<times> IndexEntry) list"
  ck_clear :: "'m \<Rightarrow> 'm"

text \<open>
  The documented behaviour: \<open>upsert\<close> applies the function to a present value and inserts
  otherwise, \<open>insert\<close> keeps a present value, the locked table enumerates every pair once.
\<close>

definition cuckoo_laws :: "'m cuckoo \<Rightarrow> bool" where
  "cuckoo_laws ck \<longleftrightarrow>
     (\<forall>n k. ck_find ck (ck_new ck n) k = None) \<and>
     (\<forall>m k. ck_contains ck m k = (ck_find ck m k \<noteq> None)) \<and>
     (\<forall>m k f e. ck_find ck (ck_upsert ck m k f e) =
        (ck_find ck m)(k \<mapsto> (case ck_find ck m k of None \<Rightarrow> e | Some x \<Rightarrow> f x))) \<and>
     (\<forall>m k e. ck_find ck (ck_insert ck m k e) =
        (ck_find ck m)(k \<mapsto> (case ck_find ck m k of None \<Rightarrow> e | Some x \<Rightarrow> x))) \<and>
     (\<forall>m k. ck_find ck (snd (ck_erase ck m k)) = (ck_find ck m)(k := None)) \<and>
     (\<forall>m k. fst (ck_erase ck m k) = (ck_find ck m k \<noteq> None)) \<and>
     (\<forall>m k f. ck_find ck (snd (ck_update_fn ck m k f)) =
        (ck_find ck m)(k := map_option f (ck_find ck m k))) \<and>
     (\<forall>m k f. fst (ck_update_fn ck m k f) = (ck_find ck m k \<noteq> None)) \<and>
     (\<forall>m. ck_size ck m = length (ck_lock_table ck m)) \<and>
     (\<forall>m. distinct (map fst (ck_lock_table ck m))) \<and>
     (\<forall>m. map_of (ck_lock_table ck m) = ck_find ck m) \<and>
     (\<forall>m k. ck_find ck (ck_clear ck m) k = None)"

section \<open>The wrapper\<close>

definition index_new :: "'m cuckoo \<Rightarrow> nat \<Rightarrow> 'm" where
  "index_new ck expected_entries = ck_new ck expected_entries"

definition index_find :: "'m cuckoo \<Rightarrow> 'm \<Rightarrow> StorageKey \<Rightarrow> IndexEntry option" where
  "index_find ck m key = ck_find ck m key"

definition upsert :: "'m cuckoo \<Rightarrow> StorageKey \<Rightarrow> IndexEntry \<Rightarrow> 'm \<Rightarrow> 'm" where
  "upsert ck key entry m = ck_upsert ck m key (\<lambda>existing. entry) entry"

definition index_erase :: "'m cuckoo \<Rightarrow> StorageKey \<Rightarrow> 'm \<Rightarrow> bool \<times> 'm" where
  "index_erase ck key m = ck_erase ck m key"

definition index_contains :: "'m cuckoo \<Rightarrow> 'm \<Rightarrow> StorageKey \<Rightarrow> bool" where
  "index_contains ck m key = ck_contains ck m key"

definition index_size :: "'m cuckoo \<Rightarrow> 'm \<Rightarrow> nat" where
  "index_size ck m = ck_size ck m"

definition update_fn :: "'m cuckoo \<Rightarrow> StorageKey \<Rightarrow> (IndexEntry \<Rightarrow> IndexEntry) \<Rightarrow> 'm \<Rightarrow> bool \<times> 'm" where
  "update_fn ck key fn m = ck_update_fn ck m key fn"

text \<open>
  \<open>iterate\<close> visits the locked table until the callback answers false; the callback's own
  state is threaded through.
\<close>

fun iterate_loop :: "(StorageKey \<Rightarrow> IndexEntry \<Rightarrow> 'a \<Rightarrow> bool \<times> 'a) \<Rightarrow> (StorageKey \<times> IndexEntry) list \<Rightarrow> 'a \<Rightarrow> 'a" where
  "iterate_loop fn [] a = a"
| "iterate_loop fn ((key, entry) # rest) a =
     (case fn key entry a of (go_on, a) \<Rightarrow> if \<not> go_on then a else iterate_loop fn rest a)"

definition iterate :: "'m cuckoo \<Rightarrow> (StorageKey \<Rightarrow> IndexEntry \<Rightarrow> 'a \<Rightarrow> bool \<times> 'a) \<Rightarrow> 'm \<Rightarrow> 'a \<Rightarrow> 'a" where
  "iterate ck fn m a = iterate_loop fn (ck_lock_table ck m) a"

fun snapshot_loop :: "(StorageKey \<times> IndexEntry) list \<Rightarrow> (StorageKey \<times> IndexEntry) list \<Rightarrow>
    (StorageKey \<times> IndexEntry) list" where
  "snapshot_loop [] result = result"
| "snapshot_loop ((key, entry) # locked) result = snapshot_loop locked (result @ [(key, entry)])"

definition snapshot :: "'m cuckoo \<Rightarrow> 'm \<Rightarrow> (StorageKey \<times> IndexEntry) list" where
  "snapshot ck m = snapshot_loop (ck_lock_table ck m) []"

fun bulk_load :: "'m cuckoo \<Rightarrow> (StorageKey \<times> IndexEntry) list \<Rightarrow> 'm \<Rightarrow> 'm" where
  "bulk_load ck [] m = m"
| "bulk_load ck ((key, entry) # entries) m = bulk_load ck entries (ck_insert ck m key entry)"

definition index_clear :: "'m cuckoo \<Rightarrow> 'm \<Rightarrow> 'm" where
  "index_clear ck m = ck_clear ck m"

section \<open>The wrapper as a map\<close>

named_theorems index_simps \<open>lookups after the operations of the index\<close>

lemma index_find_new [index_simps]: "cuckoo_laws ck \<Longrightarrow> index_find ck (index_new ck n) k = None"
  by (simp add: cuckoo_laws_def index_find_def index_new_def)

lemma index_find_upsert [index_simps]:
  "cuckoo_laws ck \<Longrightarrow> index_find ck (upsert ck k e m) = (index_find ck m)(k \<mapsto> e)"
  by (simp add: cuckoo_laws_def index_find_def [abs_def] upsert_def split: option.splits)

lemma index_find_erase [index_simps]:
  "cuckoo_laws ck \<Longrightarrow> index_find ck (snd (index_erase ck k m)) = (index_find ck m)(k := None)"
  by (simp add: cuckoo_laws_def index_find_def [abs_def] index_erase_def)

lemma index_find_update [index_simps]:
  "cuckoo_laws ck \<Longrightarrow> index_find ck (snd (update_fn ck k f m)) =
     (index_find ck m)(k := map_option f (index_find ck m k))"
  by (simp add: cuckoo_laws_def index_find_def [abs_def] update_fn_def)

lemma index_contains_iff [index_simps]:
  "cuckoo_laws ck \<Longrightarrow> index_contains ck m k \<longleftrightarrow> index_find ck m k \<noteq> None"
  by (simp add: cuckoo_laws_def index_find_def index_contains_def)

lemma index_find_clear [index_simps]: "cuckoo_laws ck \<Longrightarrow> index_find ck (index_clear ck m) k = None"
  by (simp add: cuckoo_laws_def index_find_def index_clear_def)

lemma snapshot_loop_append: "snapshot_loop locked result = result @ locked"
  by (induction locked result rule: snapshot_loop.induct) auto

lemma snapshot_lock_table: "snapshot ck m = ck_lock_table ck m"
  by (simp add: snapshot_def snapshot_loop_append)

lemma snapshot_exact:
  assumes "cuckoo_laws ck"
  shows "map_of (snapshot ck m) = index_find ck m" and "distinct (map fst (snapshot ck m))"
    and "length (snapshot ck m) = index_size ck m"
  using assms by (simp_all add: cuckoo_laws_def snapshot_lock_table index_find_def [abs_def] index_size_def)

lemma index_find_bulk_load [index_simps]:
  assumes laws: "cuckoo_laws ck"
  shows "index_find ck (bulk_load ck es m) = map_of es ++ index_find ck m"
proof (induction es arbitrary: m)
  case (Cons p es)
  obtain k e where p: "p = (k, e)" by (cases p)
  have "index_find ck (ck_insert ck m k e) =
      (index_find ck m)(k \<mapsto> (case index_find ck m k of None \<Rightarrow> e | Some x \<Rightarrow> x))"
    using laws by (simp add: cuckoo_laws_def index_find_def [abs_def])
  then show ?case
    by (auto simp: p Cons.IH map_add_def fun_eq_iff split: option.splits)
qed simp

text \<open>A callback that never stops sees the whole table, in its order.\<close>

lemma iterate_all:
  assumes "\<And>k e a. fn k e a = (True, f k e a)"
  shows "iterate ck fn m a = foldl (\<lambda>a (k, e). f k e a) a (ck_lock_table ck m)"
proof -
  have "iterate_loop fn ps a = foldl (\<lambda>a (k, e). f k e a) a ps" for ps
    by (induction ps arbitrary: a) (auto simp: assms)
  then show ?thesis by (simp add: iterate_def)
qed

section \<open>A table that obeys the laws\<close>

text \<open>An association list, used to instantiate the parameter.\<close>

definition alist_table :: "(StorageKey \<times> IndexEntry) list cuckoo" where
  "alist_table =
     \<lparr>ck_new = (\<lambda>n. []), ck_find = map_of, ck_contains = (\<lambda>m k. map_of m k \<noteq> None),
      ck_upsert = (\<lambda>m k f e. (k, case map_of m k of None \<Rightarrow> e | Some x \<Rightarrow> f x) # m),
      ck_insert = (\<lambda>m k e. case map_of m k of None \<Rightarrow> (k, e) # m | Some x \<Rightarrow> m),
      ck_erase = (\<lambda>m k. (map_of m k \<noteq> None, filter (\<lambda>(k', _). k' \<noteq> k) m)),
      ck_update_fn = (\<lambda>m k f. case map_of m k of None \<Rightarrow> (False, m) | Some x \<Rightarrow> (True, (k, f x) # m)),
      ck_size = (\<lambda>m. length (remdups (map fst m))),
      ck_lock_table = (\<lambda>m. map (\<lambda>k. (k, the (map_of m k))) (remdups (map fst m))),
      ck_clear = (\<lambda>m. [])\<rparr>"

lemma map_of_remdups_keys: "map_of (map (\<lambda>k. (k, the (map_of m k))) (remdups (map fst m))) = map_of m"
  by (rule map_of_map_keys) (simp add: dom_map_of_conv_image_fst)

lemma alist_table_laws: "cuckoo_laws alist_table"
  unfolding cuckoo_laws_def
  by (auto simp: alist_table_def map_of_filter_ne map_of_remdups_keys fun_eq_iff comp_def split: option.splits)

section \<open>Properties\<close>

text \<open>
  The snapshot the checkpoint takes holds every entry of the index exactly once; loading
  it into a fresh index gives the same lookups, and loading it into an index that already
  has entries keeps those: \<open>bulk_load\<close> never overwrites.
\<close>

theorem snapshot_bulk_load:
  assumes "cuckoo_laws ck"
  shows "distinct (map fst (snapshot ck m)) \<and> length (snapshot ck m) = index_size ck m \<and>
    index_find ck (bulk_load ck (snapshot ck m) (index_new ck n)) = index_find ck m \<and>
    index_find ck (bulk_load ck (snapshot ck m) m') = index_find ck m ++ index_find ck m'"
proof -
  have "index_find ck (index_new ck n) = Map.empty" using index_find_new [OF assms] by auto
  then show ?thesis using snapshot_exact [OF assms, of m] index_find_bulk_load [OF assms] by simp
qed

theorem snapshot_bulk_load_witness:
  "index_find alist_table (bulk_load alist_table (snapshot alist_table [(key_of_bytes [], zero_entry)]) (index_new alist_table 4)) =
     index_find alist_table [(key_of_bytes [], zero_entry)]"
  using snapshot_bulk_load [OF alist_table_laws] by blast

end
