(* ===== verification/Checkpoint.thy ===== *)
theory Checkpoint
  imports Config Hash_Index "HOL-Library.List_Lexorder" "HOL-Library.Multiset"
begin

text \<open>
  \<open>src/checkpoint/checkpoint.{h,cpp}\<close>: the index checkpoint. \<open>save\<close> writes header and sorted
  entries to a temporary file, patches the header with the checksum and renames the file
  into place; \<open>load\<close> validates and bulk-loads it. The file system maps paths to contents;
  what can go wrong in the streams is a parameter (\<open>io_faults\<close>), as is \<open>XXH32\<close> of xxHash.
\<close>

section \<open>File format\<close>

abbreviation (input) kCheckpointMagic :: "32 word" where
  "kCheckpointMagic \<equiv> 0x41444249"

abbreviation (input) kCheckpointVersion :: "32 word" where
  "kCheckpointVersion \<equiv> 1"

record CheckpointFileHeader =
  hdr_magic :: "32 word"
  hdr_version :: "32 word"
  hdr_entry_count :: "64 word"
  hdr_timestamp :: "64 word"
  hdr_checksum :: "32 word"
  hdr_reserved :: bytes

definition header_bytes :: "CheckpointFileHeader \<Rightarrow> bytes" where
  "header_bytes h = le_bytes 4 (hdr_magic h) @ le_bytes 4 (hdr_version h) @ le_bytes 8 (hdr_entry_count h) @
     le_bytes 8 (hdr_timestamp h) @ le_bytes 4 (hdr_checksum h) @ hdr_reserved h"

text \<open>A read of the header into a zeroed object: a short file leaves the rest zero.\<close>

definition header_of_bytes :: "bytes \<Rightarrow> CheckpointFileHeader" where
  "header_of_bytes content =
     (let bs = take 64 content @ replicate (64 - length content) 0
      in \<lparr>hdr_magic = of_le (take 4 bs), hdr_version = of_le (take 4 (drop 4 bs)),
          hdr_entry_count = of_le (take 8 (drop 8 bs)), hdr_timestamp = of_le (take 8 (drop 16 bs)),
          hdr_checksum = of_le (take 4 (drop 24 bs)), hdr_reserved = take 36 (drop 28 bs)\<rparr>)"

type_synonym index_pair = "StorageKey \<times> IndexEntry"

definition pair_bytes :: "index_pair \<Rightarrow> bytes" where
  "pair_bytes p = key_bytes (fst p) @ entry_bytes (snd p)"

section \<open>State\<close>

type_synonym file_system = "string \<rightharpoonup> bytes"

datatype ckpt_exn = FilesystemError

text \<open>
  What the environment decides during one call: whether the streams open, how many bytes
  can be written or read before the stream goes bad, whether the final flush, the hash
  state allocation and the rename succeed, what a failed attempt leaves in the temporary
  file, and the readings of the two clocks.
\<close>

record io_faults =
  out_opens :: bool
  out_limit :: nat
  flush_ok :: bool
  hash_state_ok :: bool
  rename_ok :: bool
  leftover :: bytes
  in_opens :: bool
  in_limit :: nat
  wall_clock :: "64 word"
  elapsed_ms :: "64 word"

record CheckpointManager =
  ckpt_config :: CheckpointConfig
  dir :: string
  thread_joinable :: bool
  running :: bool
  dirty :: bool
  last_entries :: "64 word"
  last_duration_ms :: "64 word"

definition checkpoint_create :: "CheckpointConfig \<Rightarrow> string \<Rightarrow> CheckpointManager" where
  "checkpoint_create config checkpoint_dir =
     \<lparr>ckpt_config = config, dir = checkpoint_dir, thread_joinable = False, running = False, dirty = False,
      last_entries = 0, last_duration_ms = 0\<rparr>"

definition checkpoint_path :: "CheckpointManager \<Rightarrow> string" where
  "checkpoint_path c = dir c @ ''/index.checkpoint''"

definition checkpoint_tmp_path :: "CheckpointManager \<Rightarrow> string" where
  "checkpoint_tmp_path c = dir c @ ''/index.checkpoint.tmp''"

definition mark_dirty :: "CheckpointManager \<Rightarrow> CheckpointManager" where
  "mark_dirty c = c\<lparr>dirty := True\<rparr>"

section \<open>Saving\<close>

text \<open>\<open>std::sort\<close> with the \<open>memcmp\<close> order on keys.\<close>

definition sort_entries :: "index_pair list \<Rightarrow> index_pair list" where
  "sort_entries = sort_key (\<lambda>p. key_bytes (fst p))"

text \<open>
  The write loop: \<open>file\<close> is what the stream has taken, \<open>hashed\<close> what the hash state has
  absorbed. \<open>None\<close> when the stream is no longer good after an entry.
\<close>

fun write_entries :: "nat \<Rightarrow> index_pair list \<Rightarrow> bytes \<Rightarrow> bytes \<Rightarrow> (bytes \<times> bytes) option" where
  "write_entries limit [] content hashed = Some (content, hashed)"
| "write_entries limit (p # entries) content hashed =
     (let content = content @ key_bytes (fst p) @ entry_bytes (snd p)
      in if length content > limit then None
         else write_entries limit entries content (hashed @ key_bytes (fst p) @ entry_bytes (snd p)))"

text \<open>\<open>save\<close> from the point where the snapshot has been taken.\<close>

definition save_snapshot :: "(bytes \<Rightarrow> 32 word) \<Rightarrow> io_faults \<Rightarrow> index_pair list \<Rightarrow>
    CheckpointManager \<times> file_system \<Rightarrow> (ckpt_exn + Status) \<times> CheckpointManager \<times> file_system" where
  "save_snapshot xxh32 io entries st =
     (case st of (c, fs) \<Rightarrow>
        let tmp = checkpoint_tmp_path c;
            failed = fs(tmp \<mapsto> leftover io);
            hdr = \<lparr>hdr_magic = kCheckpointMagic, hdr_version = kCheckpointVersion,
                   hdr_entry_count = of_nat (length entries), hdr_timestamp = wall_clock io,
                   hdr_checksum = 0, hdr_reserved = replicate 36 0\<rparr>
        in
        if entries = [] \<and> \<not> dirty c then (Inr kOk, c, fs)
        else if \<not> out_opens io then (Inr kIOError, c, fs)
        else if \<not> hash_state_ok io then (Inr kIOError, c, failed)
        else case write_entries (out_limit io) (sort_entries entries) (header_bytes hdr) [] of
            None \<Rightarrow> (Inr kIOError, c, failed)
          | Some (content, hashed) \<Rightarrow>
              let hdr = hdr\<lparr>hdr_checksum := xxh32 hashed\<rparr>;
                  content = header_bytes hdr @ drop 64 content
              in if length content > out_limit io \<or> \<not> flush_ok io then (Inr kIOError, c, failed)
                 else if \<not> rename_ok io then (Inl FilesystemError, c, fs(tmp \<mapsto> content))
                 else (Inr kOk,
                       c\<lparr>dirty := False, last_entries := of_nat (length entries),
                         last_duration_ms := elapsed_ms io\<rparr>,
                       fs(checkpoint_path c \<mapsto> content, tmp := None)))"

definition save :: "'m cuckoo \<Rightarrow> (bytes \<Rightarrow> 32 word) \<Rightarrow> io_faults \<Rightarrow> 'm \<Rightarrow>
    CheckpointManager \<times> file_system \<Rightarrow> (ckpt_exn + Status) \<times> CheckpointManager \<times> file_system" where
  "save ck xxh32 io index st = save_snapshot xxh32 io (snapshot ck index) st"

section \<open>Loading\<close>

abbreviation (input) kMaxEntries :: nat where
  "kMaxEntries \<equiv> 100000000"

text \<open>The read loop; \<open>None\<close> when the stream is no longer good after an entry.\<close>

fun read_entries :: "nat \<Rightarrow> nat \<Rightarrow> bytes \<Rightarrow> nat \<Rightarrow> bytes \<Rightarrow> index_pair list \<Rightarrow>
    (index_pair list \<times> bytes) option" where
  "read_entries 0 limit content pos hashed entries = Some (entries, hashed)"
| "read_entries (Suc n) limit content pos hashed entries =
     (if length content < pos + 94 \<or> limit < pos + 94 then None
      else
        let key = take 30 (drop pos content);
            entry = take 64 (drop (pos + 30) content)
        in read_entries n limit content (pos + 94) (hashed @ key @ entry)
             (entries @ [(key_of_bytes key, entry_of_bytes entry)]))"

definition load :: "'m cuckoo \<Rightarrow> (bytes \<Rightarrow> 32 word) \<Rightarrow> io_faults \<Rightarrow> CheckpointManager \<Rightarrow> file_system \<Rightarrow>
    'm \<Rightarrow> Status \<times> 'm" where
  "load ck xxh32 io c fs index =
     (case fs (checkpoint_path c) of
        None \<Rightarrow> (kNotFound, index)
      | Some content \<Rightarrow>
          if \<not> in_opens io then (kIOError, index)
          else
            let hdr = header_of_bytes (take (in_limit io) content);
                n = unat (hdr_entry_count hdr)
            in if hdr_magic hdr \<noteq> kCheckpointMagic \<or> hdr_version hdr \<noteq> kCheckpointVersion
               then (kCorruption, index)
               else if n > kMaxEntries then (kCorruption, index)
               else if 64 + wrap64 (n * 94) > length content then (kCorruption, index)
               else if \<not> hash_state_ok io then (kIOError, index)
               else case read_entries n (in_limit io) content 64 [] [] of
                      None \<Rightarrow> (kCorruption, index)
                    | Some (entries, hashed) \<Rightarrow>
                        if xxh32 hashed \<noteq> hdr_checksum hdr then (kCorruption, index)
                        else (kOk, bulk_load ck entries index))"

section \<open>The periodic thread\<close>

definition start_periodic :: "CheckpointManager \<Rightarrow> CheckpointManager" where
  "start_periodic c = c\<lparr>running := True, thread_joinable := True\<rparr>"

text \<open>
  The thread's loop body after a wait that ended, with the index it then sees; the result
  says whether the loop goes on. An exception out of \<open>save\<close> ends the thread.
\<close>

definition periodic_tick :: "'m cuckoo \<Rightarrow> (bytes \<Rightarrow> 32 word) \<Rightarrow> io_faults \<Rightarrow> 'm \<Rightarrow>
    CheckpointManager \<times> file_system \<Rightarrow> (ckpt_exn + bool) \<times> CheckpointManager \<times> file_system" where
  "periodic_tick ck xxh32 io index st =
     (case st of (c, fs) \<Rightarrow>
        if \<not> running c then (Inr False, c, fs)
        else if dirty c then
          (case save ck xxh32 io index (c, fs) of (r, c, fs) \<Rightarrow>
             (case r of Inl e \<Rightarrow> (Inl e, c, fs) | Inr s \<Rightarrow> (Inr True, c, fs)))
        else (Inr True, c, fs))"

definition periodic_final :: "'m cuckoo \<Rightarrow> (bytes \<Rightarrow> 32 word) \<Rightarrow> io_faults \<Rightarrow> 'm \<Rightarrow>
    CheckpointManager \<times> file_system \<Rightarrow> (CheckpointManager \<times> file_system) option" where
  "periodic_final ck xxh32 io index st =
     (if dirty (fst st) then
        (case save ck xxh32 io index st of (Inl e, st) \<Rightarrow> None | (Inr s, st) \<Rightarrow> Some st)
      else Some st)"

text \<open>
  \<open>stop\<close>: the flag is lowered, the joined thread leaves its loop and saves once more. An
  exception in the thread terminates the process (\<open>None\<close>).
\<close>

definition stop :: "'m cuckoo \<Rightarrow> (bytes \<Rightarrow> 32 word) \<Rightarrow> io_faults \<Rightarrow> 'm \<Rightarrow>
    CheckpointManager \<times> file_system \<Rightarrow> (CheckpointManager \<times> file_system) option" where
  "stop ck xxh32 io index st =
     (case st of (c, fs) \<Rightarrow>
        let c = c\<lparr>running := False\<rparr>
        in if thread_joinable c
           then map_option (\<lambda>(c, fs). (c\<lparr>thread_joinable := False\<rparr>, fs)) (periodic_final ck xxh32 io index (c, fs))
           else Some (c, fs))"

section \<open>The file format round trip\<close>

lemma length_header_bytes [byte_simps]: "length (hdr_reserved h) = 36 \<Longrightarrow> length (header_bytes h) = 64"
  by (simp add: header_bytes_def)

lemma header_of_bytes_header_bytes [byte_simps]:
  "length (hdr_reserved h) = 36 \<Longrightarrow> header_of_bytes (header_bytes h @ body) = h"
  by (simp add: header_of_bytes_def header_bytes_def Let_def)

definition body_bytes :: "index_pair list \<Rightarrow> bytes" where
  "body_bytes ps = concat (map pair_bytes ps)"

definition pairs_wf :: "index_pair list \<Rightarrow> bool" where
  "pairs_wf ps \<longleftrightarrow> (\<forall>p \<in> set ps. entry_wf (snd p))"

lemma length_body_bytes: "pairs_wf ps \<Longrightarrow> length (body_bytes ps) = 94 * length ps"
  by (induction ps) (auto simp: body_bytes_def pairs_wf_def pair_bytes_def length_entry_bytes)

lemma write_entries_Some:
  "write_entries limit ps content hashed = Some (f, h) \<Longrightarrow>
     f = content @ body_bytes ps \<and> h = hashed @ body_bytes ps"
  by (induction limit ps content hashed rule: write_entries.induct)
    (auto simp: body_bytes_def pair_bytes_def Let_def split: if_splits)

lemma write_entries_fits:
  "length (content @ body_bytes ps) \<le> limit \<Longrightarrow>
     write_entries limit ps content hashed = Some (content @ body_bytes ps, hashed @ body_bytes ps)"
  by (induction limit ps content hashed rule: write_entries.induct)
    (auto simp: body_bytes_def pair_bytes_def Let_def)

lemma read_entries_body:
  assumes "pairs_wf ps" and "length pre + 94 * length ps \<le> limit"
  shows "read_entries (length ps) limit (pre @ body_bytes ps) (length pre) hashed acc =
    Some (acc @ ps, hashed @ body_bytes ps)"
  using assms
proof (induction ps arbitrary: pre hashed acc)
  case (Cons p ps)
  have wf: "entry_wf (snd p)" "pairs_wf ps" using Cons.prems(1) by (auto simp: pairs_wf_def)
  have body: "body_bytes (p # ps) = pair_bytes p @ body_bytes ps" by (simp add: body_bytes_def)
  have len: "length (pair_bytes p) = 94" using wf(1) by (simp add: pair_bytes_def length_entry_bytes)
  have content: "pre @ body_bytes (p # ps) = (pre @ pair_bytes p) @ body_bytes ps" by (simp add: body)
  have chunk: "take 30 (body_bytes (p # ps)) = key_bytes (fst p)"
    "take 64 (drop 30 (body_bytes (p # ps))) = entry_bytes (snd p)"
    using wf(1) by (simp_all add: body pair_bytes_def length_entry_bytes)
  have "read_entries (length ps) limit ((pre @ pair_bytes p) @ body_bytes ps) (length (pre @ pair_bytes p))
      (hashed @ pair_bytes p) (acc @ [p]) = Some ((acc @ [p]) @ ps, (hashed @ pair_bytes p) @ body_bytes ps)"
    using Cons.prems(2) len by (intro Cons.IH [OF wf(2)]) simp
  then have "read_entries (length ps) limit (pre @ body_bytes (p # ps)) (length pre + 94)
      (hashed @ pair_bytes p) (acc @ [p]) = Some (acc @ p # ps, hashed @ body_bytes (p # ps))"
    unfolding content using len by (simp add: body)
  moreover have "\<not> length (pre @ body_bytes (p # ps)) < length pre + 94" using len by (simp add: body)
  ultimately show ?case
    using Cons.prems(2) wf(1) unfolding list.size(4) add_Suc_right add_0_right
    by (simp add: chunk Let_def entry_of_bytes_entry_bytes pair_bytes_def del: append_assoc)
qed (simp add: body_bytes_def)

section \<open>Sorting\<close>

lemma memcmp_less_iff: "length as = length bs \<Longrightarrow> memcmp as bs < 0 \<longleftrightarrow> as < bs"
  by (induction as bs rule: memcmp.induct) auto

lemma sort_entries_props:
  "set (sort_entries ps) = set ps" "length (sort_entries ps) = length ps"
  "pairs_wf (sort_entries ps) = pairs_wf ps" "distinct (map fst (sort_entries ps)) = distinct (map fst ps)"
proof -
  have m: "mset (sort_entries ps) = mset ps" by (simp add: sort_entries_def)
  then show "set (sort_entries ps) = set ps" by (rule mset_eq_setD)
  then show "pairs_wf (sort_entries ps) = pairs_wf ps" by (simp add: pairs_wf_def)
  show "length (sort_entries ps) = length ps" by (simp add: sort_entries_def)
  have "mset (map fst (sort_entries ps)) = mset (map fst ps)" by (simp add: m)
  then show "distinct (map fst (sort_entries ps)) = distinct (map fst ps)" by (rule mset_eq_imp_distinct_iff)
qed

lemma map_of_sort_entries: "distinct (map fst ps) \<Longrightarrow> map_of (sort_entries ps) = map_of ps"
  using map_of_inject_set [of "sort_entries ps" ps] by (simp add: sort_entries_props)

section \<open>What a save leaves and a load finds\<close>

definition checkpoint_image :: "(bytes \<Rightarrow> 32 word) \<Rightarrow> 64 word \<Rightarrow> index_pair list \<Rightarrow> bytes" where
  "checkpoint_image xxh32 ts ps =
     header_bytes \<lparr>hdr_magic = kCheckpointMagic, hdr_version = kCheckpointVersion,
       hdr_entry_count = of_nat (length ps), hdr_timestamp = ts,
       hdr_checksum = xxh32 (body_bytes (sort_entries ps)), hdr_reserved = replicate 36 0\<rparr> @
     body_bytes (sort_entries ps)"

lemma paths_differ [simp]: "checkpoint_path c \<noteq> checkpoint_tmp_path c" "checkpoint_tmp_path c \<noteq> checkpoint_path c"
  by (simp_all add: checkpoint_path_def checkpoint_tmp_path_def)

lemma save_cases:
  assumes "save_snapshot xxh32 io ps (c, fs) = (r, c', fs')"
  obtains (idle) "ps = []" "\<not> dirty c" "r = Inr kOk" "c' = c" "fs' = fs"
  | (saved) "\<not> (ps = [] \<and> \<not> dirty c)" "r = Inr kOk"
      "c' = c\<lparr>dirty := False, last_entries := of_nat (length ps), last_duration_ms := elapsed_ms io\<rparr>"
      "fs' = fs(checkpoint_path c \<mapsto> checkpoint_image xxh32 (wall_clock io) ps, checkpoint_tmp_path c := None)"
  | (failed) x where "r \<noteq> Inr kOk" "c' = c" "fs' = fs(checkpoint_tmp_path c := x)"
proof -
  let ?h = "\<lparr>hdr_magic = kCheckpointMagic, hdr_version = kCheckpointVersion, hdr_entry_count = of_nat (length ps),
    hdr_timestamp = wall_clock io, hdr_checksum = 0, hdr_reserved = replicate 36 0\<rparr>"
  have len: "length (header_bytes ?h) = 64" by (simp add: byte_simps)
  have fail: thesis if "r = Inr kIOError" "c' = c" "fs' = fs(checkpoint_tmp_path c \<mapsto> leftover io)"
    using that failed by simp
  show thesis
  proof (cases "ps = [] \<and> \<not> dirty c \<or> \<not> out_opens io \<or> \<not> hash_state_ok io")
    case True
    then show thesis
      using assms idle fail failed [of "fs (checkpoint_tmp_path c)"]
      by (auto simp: save_snapshot_def Let_def split: if_splits)
  next
    case False
    show thesis
    proof (cases "write_entries (out_limit io) (sort_entries ps) (header_bytes ?h) []")
      case None
      then show thesis using assms False fail by (auto simp: save_snapshot_def Let_def split: if_splits)
    next
      case (Some w)
      then obtain f h where w: "write_entries (out_limit io) (sort_entries ps) (header_bytes ?h) [] = Some (f, h)"
        by (cases w) simp
      from write_entries_Some [OF this] have fh: "drop 64 f = body_bytes (sort_entries ps)"
        "h = body_bytes (sort_entries ps)" using len by simp_all
      show thesis
        using assms False w fail saved failed
        by (auto simp: save_snapshot_def Let_def fh checkpoint_image_def split: if_splits)
    qed
  qed
qed

lemma load_image:
  assumes "fs (checkpoint_path c) = Some (checkpoint_image xxh32 ts ps)"
    and wf: "pairs_wf ps" and few: "length ps \<le> kMaxEntries"
    and io: "in_opens io" "hash_state_ok io" "64 + 94 * length ps \<le> in_limit io"
  shows "load ck xxh32 io c fs m = (kOk, bulk_load ck (sort_entries ps) m)"
proof -
  let ?h = "\<lparr>hdr_magic = kCheckpointMagic, hdr_version = kCheckpointVersion, hdr_entry_count = of_nat (length ps),
    hdr_timestamp = ts, hdr_checksum = xxh32 (body_bytes (sort_entries ps)), hdr_reserved = replicate 36 0\<rparr>"
  let ?f = "header_bytes ?h @ body_bytes (sort_entries ps)"
  have img: "fs (checkpoint_path c) = Some ?f" using assms(1) by (simp add: checkpoint_image_def)
  have len: "length (header_bytes ?h) = 64" by (simp add: byte_simps)
  have wf': "pairs_wf (sort_entries ps)" using wf by (simp add: sort_entries_props)
  have flen: "length ?f = 64 + 94 * length ps"
    by (simp add: len length_body_bytes [OF wf'] sort_entries_props)
  then have whole: "take (in_limit io) ?f = ?f" using io(3) by (intro take_all) linarith
  have hd: "header_of_bytes ?f = ?h" by (rule header_of_bytes_header_bytes) simp
  have "length ps < 2 ^ 64" using few by simp
  then have cnt: "unat (of_nat (length ps) :: 64 word) = length ps" by (rule unat_word_64)
  have "length ps * 94 < 2 ^ 64" using few by simp
  then have wrap: "wrap64 (length ps * 94) = length ps * 94" by (rule wrap64_id)
  have rd: "read_entries (length ps) (in_limit io) ?f 64 [] [] = Some (sort_entries ps, body_bytes (sort_entries ps))"
    using read_entries_body [OF wf', of "header_bytes ?h" "in_limit io" "[]" "[]"] io(3)
    by (simp add: len sort_entries_props)
  show ?thesis
    unfolding load_def img option.case whole hd Let_def CheckpointFileHeader.simps cnt wrap rd prod.case
    using few io flen by simp
qed

text \<open>An environment in which nothing fails for a table of \<open>n\<close> entries.\<close>

definition io_healthy :: "nat \<Rightarrow> io_faults \<Rightarrow> bool" where
  "io_healthy n io \<longleftrightarrow> out_opens io \<and> hash_state_ok io \<and> flush_ok io \<and> rename_ok io \<and> in_opens io \<and>
     64 + 94 * n \<le> out_limit io \<and> 64 + 94 * n \<le> in_limit io"

lemma save_healthy:
  assumes io: "io_healthy (length ps) io" and wf: "pairs_wf ps" and work: "ps \<noteq> [] \<or> dirty c"
  shows "save_snapshot xxh32 io ps (c, fs) =
    (Inr kOk, c\<lparr>dirty := False, last_entries := of_nat (length ps), last_duration_ms := elapsed_ms io\<rparr>,
     fs(checkpoint_path c \<mapsto> checkpoint_image xxh32 (wall_clock io) ps, checkpoint_tmp_path c := None))"
proof -
  let ?h = "\<lparr>hdr_magic = kCheckpointMagic, hdr_version = kCheckpointVersion, hdr_entry_count = of_nat (length ps),
    hdr_timestamp = wall_clock io, hdr_checksum = 0, hdr_reserved = replicate 36 0\<rparr>"
  have len: "length (header_bytes (?h\<lparr>hdr_checksum := x\<rparr>)) = 64" for x by (simp add: byte_simps)
  from len [of 0] have len0: "length (header_bytes ?h) = 64" by simp
  have wf': "pairs_wf (sort_entries ps)" using wf by (simp add: sort_entries_props)
  have body: "length (body_bytes (sort_entries ps)) = 94 * length ps"
    by (simp add: length_body_bytes [OF wf'] sort_entries_props)
  have w: "write_entries (out_limit io) (sort_entries ps) (header_bytes ?h) [] =
      Some (header_bytes ?h @ body_bytes (sort_entries ps), body_bytes (sort_entries ps))"
    using write_entries_fits [of "header_bytes ?h" "sort_entries ps" "out_limit io" "[]"] io
    by (simp add: len0 body io_healthy_def)
  from work have nidle: "(ps = [] \<and> \<not> dirty c) = False" by blast
  show ?thesis
    using io len
    by (simp add: save_snapshot_def Let_def w len0 body io_healthy_def checkpoint_image_def nidle)
qed

lemma index_entries_wf:
  assumes "cuckoo_laws ck" and "\<And>k e. index_find ck m k = Some e \<Longrightarrow> entry_wf e"
  shows "pairs_wf (snapshot ck m)"
  unfolding pairs_wf_def
proof
  fix p
  assume "p \<in> set (snapshot ck m)"
  then have "map_of (snapshot ck m) (fst p) = Some (snd p)"
    using snapshot_exact(2) [OF assms(1), of m] by (intro map_of_is_SomeI) simp_all
  then show "entry_wf (snd p)" using assms(2) snapshot_exact(1) [OF assms(1)] by simp
qed

lemma load_saved_image:
  assumes laws: "cuckoo_laws ck" and wf: "pairs_wf (snapshot ck m)" and few: "index_size ck m \<le> kMaxEntries"
    and io: "io_healthy (index_size ck m) io"
    and img: "fs (checkpoint_path c) = Some (checkpoint_image xxh32 ts (snapshot ck m))"
  shows "\<exists>m'. load ck xxh32 io c fs (index_new ck n) = (kOk, m') \<and> index_find ck m' = index_find ck m"
proof -
  let ?ps = "snapshot ck m"
  have len: "length ?ps = index_size ck m" using laws by (rule snapshot_exact)
  have "load ck xxh32 io c fs (index_new ck n) = (kOk, bulk_load ck (sort_entries ?ps) (index_new ck n))"
    by (rule load_image [where fs = fs and c = c, OF img wf])
      (use few io len in \<open>simp_all add: io_healthy_def\<close>)
  moreover have "index_find ck (bulk_load ck (sort_entries ?ps) (index_new ck n)) = index_find ck m"
    using map_of_sort_entries [OF snapshot_exact(2) [OF laws]] snapshot_exact(1) [OF laws] index_find_new [OF laws]
    by (simp add: index_find_bulk_load [OF laws] map_add_def fun_eq_iff split: option.splits)
  ultimately show ?thesis by blast
qed

section \<open>Loads that succeed\<close>

section \<open>Interleaving with the clients\<close>

text \<open>
  The periodic thread takes its snapshot under the table's locks and then works on the copy
  while clients go on; a client first updates the index and then raises the dirty flag.
\<close>

record 'm ckpt_world =
  w_index :: 'm
  w_ckpt :: CheckpointManager
  w_fs :: file_system
  w_saving :: "index_pair list option"
  w_upserted :: bool

inductive ckpt_step :: "'m cuckoo \<Rightarrow> (bytes \<Rightarrow> 32 word) \<Rightarrow> 'm ckpt_world \<Rightarrow> 'm ckpt_world \<Rightarrow> bool" for ck xxh32 where
  client_upsert: "\<not> w_upserted w \<Longrightarrow>
     ckpt_step ck xxh32 w (w\<lparr>w_index := upsert ck k e (w_index w), w_upserted := True\<rparr>)"
| client_dirty: "w_upserted w \<Longrightarrow>
     ckpt_step ck xxh32 w (w\<lparr>w_ckpt := mark_dirty (w_ckpt w), w_upserted := False\<rparr>)"
| save_begin: "w_saving w = None \<Longrightarrow> running (w_ckpt w) \<Longrightarrow> dirty (w_ckpt w) \<Longrightarrow>
     ckpt_step ck xxh32 w (w\<lparr>w_saving := Some (snapshot ck (w_index w))\<rparr>)"
| save_end: "w_saving w = Some ps \<Longrightarrow> save_snapshot xxh32 io ps (w_ckpt w, w_fs w) = (Inr s, c, fs) \<Longrightarrow>
     ckpt_step ck xxh32 w (w\<lparr>w_ckpt := c, w_fs := fs, w_saving := None\<rparr>)"

abbreviation ckpt_steps :: "'m cuckoo \<Rightarrow> (bytes \<Rightarrow> 32 word) \<Rightarrow> 'm ckpt_world \<Rightarrow> 'm ckpt_world \<Rightarrow> bool" where
  "ckpt_steps ck xxh32 \<equiv> (ckpt_step ck xxh32)\<^sup>*\<^sup>*"

section \<open>Properties\<close>

definition good_io :: io_faults where
  "good_io = \<lparr>out_opens = True, out_limit = 1000, flush_ok = True, hash_state_ok = True, rename_ok = True,
     leftover = [], in_opens = True, in_limit = 1000, wall_clock = 7, elapsed_ms = 3\<rparr>"

definition small_index :: "index_pair list" where
  "small_index = [(key_of_bytes [2], zero_entry), (key_of_bytes [1], touch 5 zero_entry)]"

definition fresh_ckpt :: CheckpointManager where
  "fresh_ckpt = mark_dirty (start_periodic (checkpoint_create \<lparr>cc_interval_s = 30\<rparr> ''/c''))"

lemma small_index_facts:
  "index_find alist_table small_index k = Some e \<Longrightarrow> entry_wf e"
  "index_size alist_table small_index = 2"
  by (auto simp: small_index_def index_find_def index_size_def alist_table_def key_of_bytes_def split: if_splits)

text \<open>
  C21. Checkpoint round trip. When nothing fails in the environment, saving an index with at
  most 100 million well-formed entries returns OK, clears the dirty flag, and loading that
  file into a fresh index returns OK with the same lookups, whatever the hash function.
\<close>

theorem checkpoint_round_trip:
  assumes "cuckoo_laws ck" and "\<And>k e. index_find ck m k = Some e \<Longrightarrow> entry_wf e"
    and "index_size ck m \<le> kMaxEntries" and "io_healthy (index_size ck m) io"
    and "dirty c"
  shows "\<exists>c' fs' m'. save ck xxh32 io m (c, fs) = (Inr kOk, c', fs') \<and> \<not> dirty c' \<and>
    load ck xxh32 io c' fs' (index_new ck n) = (kOk, m') \<and> index_find ck m' = index_find ck m"
proof -
  have wf: "pairs_wf (snapshot ck m)" using assms(1,2) by (rule index_entries_wf)
  have len: "length (snapshot ck m) = index_size ck m" using assms(1) by (rule snapshot_exact)
  let ?c = "c\<lparr>dirty := False, last_entries := of_nat (length (snapshot ck m)), last_duration_ms := elapsed_ms io\<rparr>"
  let ?fs = "fs(checkpoint_path c \<mapsto> checkpoint_image xxh32 (wall_clock io) (snapshot ck m), checkpoint_tmp_path c := None)"
  have "save ck xxh32 io m (c, fs) = (Inr kOk, ?c, ?fs)"
    unfolding save_def using assms(4,5) wf by (intro save_healthy) (simp_all add: len)
  moreover have "?fs (checkpoint_path ?c) = Some (checkpoint_image xxh32 (wall_clock io) (snapshot ck m))"
    by (simp add: checkpoint_path_def checkpoint_tmp_path_def)
  from load_saved_image [where c = ?c and fs = ?fs, OF assms(1) wf assms(3,4) this]
  obtain m' where "load ck xxh32 io ?c ?fs (index_new ck n) = (kOk, m')" "index_find ck m' = index_find ck m"
    by blast
  ultimately show ?thesis by (intro exI [of _ ?c] exI [of _ ?fs] exI [of _ m']) simp
qed

theorem checkpoint_round_trip_witness:
  "\<exists>c' fs' m'. save alist_table (\<lambda>_. 9) good_io small_index (fresh_ckpt, Map.empty) = (Inr kOk, c', fs') \<and>
    \<not> dirty c' \<and> load alist_table (\<lambda>_. 9) good_io c' fs' (index_new alist_table 4) = (kOk, m') \<and>
    index_find alist_table m' = index_find alist_table small_index"
  by (rule checkpoint_round_trip [OF alist_table_laws small_index_facts(1)])
    (simp_all add: small_index_facts(2) io_healthy_def good_io_def fresh_ckpt_def mark_dirty_def)

text \<open>
  C22. Saving is atomic. Whatever fails while a checkpoint is written, the previous
  checkpoint file stays as it was and the dirty flag stays up, so a later save retries; only
  a save that returns OK replaces the file.
\<close>

theorem save_all_or_nothing:
  "case save ck xxh32 io m (c, fs) of (r, c', fs') \<Rightarrow>
     if r = Inr kOk
     then fs' (checkpoint_path c) = Some (checkpoint_image xxh32 (wall_clock io) (snapshot ck m)) \<and> \<not> dirty c' \<or>
          snapshot ck m = [] \<and> \<not> dirty c \<and> c' = c \<and> fs' = fs
     else c' = c \<and> fs' (checkpoint_path c) = fs (checkpoint_path c)"
proof -
  obtain r c' fs' where s: "save_snapshot xxh32 io (snapshot ck m) (c, fs) = (r, c', fs')"
    by (metis prod_cases3)
  then have "save ck xxh32 io m (c, fs) = (r, c', fs')" by (simp add: save_def)
  with s show ?thesis by (cases rule: save_cases) simp_all
qed

text \<open>
  What a checkpoint file must look like: the fields of the header are plausible, and the
  checksum is that of the announced entries, which lie before the point where reading fails
  (\<open>in_limit\<close>). The entries are the 94-byte records behind the header.
\<close>

definition header_plausible :: "nat \<Rightarrow> bytes \<Rightarrow> bool" where
  "header_plausible limit content \<longleftrightarrow>
     (let hdr = header_of_bytes (take limit content); n = unat (hdr_entry_count hdr)
      in hdr_magic hdr = kCheckpointMagic \<and> hdr_version hdr = kCheckpointVersion \<and> n \<le> kMaxEntries \<and>
         64 + 94 * n \<le> length content)"

definition body_intact :: "(bytes \<Rightarrow> 32 word) \<Rightarrow> nat \<Rightarrow> bytes \<Rightarrow> bool" where
  "body_intact xxh32 limit content \<longleftrightarrow>
     (let hdr = header_of_bytes (take limit content); n = unat (hdr_entry_count hdr)
      in (n = 0 \<or> 64 + 94 * n \<le> limit) \<and> xxh32 (take (94 * n) (drop 64 content)) = hdr_checksum hdr)"

definition records :: "nat \<Rightarrow> bytes \<Rightarrow> index_pair list" where
  "records n body = map (\<lambda>i. (key_of_bytes (take 30 (drop (94 * i) body)), entry_of_bytes (take 64 (drop (94 * i + 30) body)))) [0..<n]"

lemma records_Suc:
  "records (Suc n) body = (key_of_bytes (take 30 body), entry_of_bytes (take 64 (drop 30 body))) # records n (drop 94 body)"
  by (simp add: records_def upt_rec [of 0 "Suc n"] map_Suc_upt [symmetric] add.commute add.left_commute del: upt_Suc)

lemma read_entries_records:
  "read_entries n limit content pos hashed acc =
    (if n = 0 \<or> pos + 94 * n \<le> length content \<and> pos + 94 * n \<le> limit
     then Some (acc @ records n (drop pos content), hashed @ take (94 * n) (drop pos content)) else None)"
proof (induction n limit content pos hashed acc rule: read_entries.induct)
  case (1 limit content pos hashed acc)
  then show ?case by (simp add: records_def)
next
  case (2 n limit content pos hashed acc)
  show ?case
  proof (cases "length content < pos + 94 \<or> limit < pos + 94")
    case False
    have "take 30 (drop pos content) @ take 64 (drop (pos + 30) content) = take 94 (drop pos content)"
      using take_add [of 30 64 "drop pos content"] by (simp add: add.commute)
    moreover have "take (94 * Suc n) (drop pos content) =
        take 94 (drop pos content) @ take (94 * n) (drop (pos + 94) content)"
      using take_add [of 94 "94 * n" "drop pos content"] by (simp add: add.commute)
    moreover have "drop 94 (drop pos content) = drop (pos + 94) content" "drop 30 (drop pos content) = drop (pos + 30) content"
      by (simp_all add: add.commute)
    ultimately show ?thesis using "2.IH" [OF False] False by (auto simp: Let_def records_Suc)
  qed auto
qed

text \<open>What a load does, by cases.\<close>

lemma load_cases:
  "load ck xxh32 io c fs m =
     (case fs (checkpoint_path c) of
        None \<Rightarrow> (kNotFound, m)
      | Some content \<Rightarrow>
          if in_opens io then
            (if header_plausible (in_limit io) content then
               (if hash_state_ok io then
                  (if body_intact xxh32 (in_limit io) content
                   then (kOk, bulk_load ck (records (unat (hdr_entry_count (header_of_bytes (take (in_limit io) content)))) (drop 64 content)) m)
                   else (kCorruption, m))
                else (kIOError, m))
             else (kCorruption, m))
          else (kIOError, m))"
proof (cases "fs (checkpoint_path c)")
  case None
  then show ?thesis by (simp add: load_def)
next
  case (Some content)
  define hdr where "hdr = header_of_bytes (take (in_limit io) content)"
  define n where "n = unat (hdr_entry_count hdr)"
  have wrap: "wrap64 (n * 94) = 94 * n" if "n \<le> kMaxEntries"
    using that wrap64_id [of "n * 94"] by simp
  have rd: "read_entries n (in_limit io) content 64 [] [] =
      (if n = 0 \<or> 64 + 94 * n \<le> in_limit io then Some (records n (drop 64 content), take (94 * n) (drop 64 content)) else None)"
    if "64 + 94 * n \<le> length content" using that by (simp add: read_entries_records)
  show ?thesis
    using Some wrap rd
    by (auto simp: load_def Let_def header_plausible_def body_intact_def hdr_def [symmetric] n_def [symmetric] not_le not_less)
qed

text \<open>Decoding and encoding are inverse on bytes as well.\<close>

lemma glue:
  "take n bs @ take k (drop n bs) = take (n + k) bs" "take n bs @ take k (drop n bs) @ cs = take (n + k) bs @ cs"
  by (simp_all add: take_add)

lemma bytes_round_trips:
  "length bs = 30 \<Longrightarrow> key_bytes (key_of_bytes bs) = bs"
  "length bs = 64 \<Longrightarrow> entry_bytes (entry_of_bytes bs) = bs"
  by (simp_all add: key_bytes_def key_of_bytes_def entry_bytes_def entry_of_bytes_def le_bytes_of_le glue min_def)

lemma header_bytes_round_trip:
  assumes "64 \<le> length bs"
  shows "header_bytes (header_of_bytes bs) = take 64 bs"
proof -
  obtain b where b: "take 64 bs = b" "length b = 64" using assms by simp
  have tail: "take k (drop n b) @ drop (n + k) b = drop n b" for n k
    using append_take_drop_id [of k "drop n b"] by (simp add: add.commute)
  have "header_bytes (header_of_bytes bs) = take 4 b @ take 4 (drop 4 b) @ take 8 (drop 8 b) @ take 8 (drop 16 b) @ take 4 (drop 24 b) @ drop 28 b"
    using assms b by (simp add: header_bytes_def header_of_bytes_def Let_def le_bytes_of_le)
  also have "\<dots> = b" using tail [of 4 24] tail [of 8 16] tail [of 8 8] tail [of 4 4] by simp
  finally show ?thesis using b(1) by simp
qed

lemma records_image:
  "94 * n \<le> length body \<Longrightarrow> pairs_wf (records n body) \<and> body_bytes (records n body) = take (94 * n) body"
proof (induction n arbitrary: body)
  case 0
  then show ?case by (simp add: records_def pairs_wf_def body_bytes_def)
next
  case (Suc n)
  have "94 * n \<le> length (drop 94 body)" using Suc.prems by simp
  note IH = Suc.IH [OF this]
  have len: "length (take 30 body) = 30" "length (take 64 (drop 30 body)) = 64" using Suc.prems by simp_all
  have "pair_bytes (key_of_bytes (take 30 body), entry_of_bytes (take 64 (drop 30 body))) = take 94 body"
    by (simp add: pair_bytes_def bytes_round_trips(1) [OF len(1)] bytes_round_trips(2) [OF len(2)] glue)
  moreover have "take (94 * Suc n) body = take 94 body @ take (94 * n) (drop 94 body)"
    using take_add [of 94 "94 * n" body] by simp
  ultimately show ?case using IH entry_wf_entry_of_bytes [OF len(2)] by (simp add: records_Suc pairs_wf_def body_bytes_def)
qed

lemma records_of_image: "pairs_wf ps \<Longrightarrow> records (length ps) (body_bytes ps @ rest) = ps"
proof (induction ps)
  case Nil
  then show ?case by (simp add: records_def)
next
  case (Cons p ps)
  have wf: "entry_wf (snd p)" "pairs_wf ps" using Cons.prems by (simp_all add: pairs_wf_def)
  have body: "body_bytes (p # ps) @ rest = key_bytes (fst p) @ entry_bytes (snd p) @ body_bytes ps @ rest"
    by (simp add: body_bytes_def pair_bytes_def)
  show ?case
    using wf Cons.IH unfolding body length_Cons records_Suc
    by (simp add: length_entry_bytes entry_of_bytes_entry_bytes)
qed

text \<open>A file that starts with the image of a list of entries.\<close>

definition image_of :: "(bytes \<Rightarrow> 32 word) \<Rightarrow> index_pair list \<Rightarrow> bytes \<Rightarrow> bool" where
  "image_of xxh32 ps content \<longleftrightarrow> (\<exists>hdr rest. content = header_bytes hdr @ body_bytes ps @ rest \<and>
     length (hdr_reserved hdr) = 36 \<and> pairs_wf ps \<and> length ps \<le> kMaxEntries \<and> hdr_magic hdr = kCheckpointMagic \<and>
     hdr_version hdr = kCheckpointVersion \<and> unat (hdr_entry_count hdr) = length ps \<and> hdr_checksum hdr = xxh32 (body_bytes ps))"

lemma image_of_iff:
  assumes "length content \<le> limit"
  shows "image_of xxh32 ps content \<longleftrightarrow> header_plausible limit content \<and> body_intact xxh32 limit content \<and>
    ps = records (unat (hdr_entry_count (header_of_bytes (take limit content)))) (drop 64 content)"
proof
  assume "image_of xxh32 ps content"
  then obtain hdr rest where c: "content = header_bytes hdr @ body_bytes ps @ rest"
    and h: "length (hdr_reserved hdr) = 36" "pairs_wf ps" "length ps \<le> kMaxEntries" "hdr_magic hdr = kCheckpointMagic"
      "hdr_version hdr = kCheckpointVersion" "unat (hdr_entry_count hdr) = length ps" "hdr_checksum hdr = xxh32 (body_bytes ps)"
    unfolding image_of_def by blast
  have len: "length (header_bytes hdr) = 64" "length (body_bytes ps) = 94 * length ps"
    using h(1,2) by (simp_all add: header_bytes_def length_body_bytes)
  have whole: "take limit content = content" using assms by simp
  have hd: "header_of_bytes content = hdr" unfolding c by (rule header_of_bytes_header_bytes [OF h(1)])
  have body: "drop 64 content = body_bytes ps @ rest" "take (94 * length ps) (drop 64 content) = body_bytes ps"
    using len by (simp_all add: c)
  have "64 + 94 * length ps \<le> length content" using len by (simp add: c)
  then show "header_plausible limit content \<and> body_intact xxh32 limit content \<and>
      ps = records (unat (hdr_entry_count (header_of_bytes (take limit content)))) (drop 64 content)"
    using h assms records_of_image [OF h(2)]
    by (simp add: header_plausible_def body_intact_def whole hd Let_def body len(2))
next
  let ?hdr = "header_of_bytes content" and ?ps = "records (unat (hdr_entry_count (header_of_bytes content))) (drop 64 content)"
  have whole: "take limit content = content" using assms by simp
  assume A: "header_plausible limit content \<and> body_intact xxh32 limit content \<and>
      ps = records (unat (hdr_entry_count (header_of_bytes (take limit content)))) (drop 64 content)"
  then have ps: "ps = ?ps" by (simp add: whole)
  let ?n = "unat (hdr_entry_count ?hdr)"
  have h: "hdr_magic ?hdr = kCheckpointMagic" "hdr_version ?hdr = kCheckpointVersion" "?n \<le> kMaxEntries"
    "64 + 94 * ?n \<le> length content" "hdr_checksum ?hdr = xxh32 (take (94 * ?n) (drop 64 content))"
    using A by (simp_all add: header_plausible_def body_intact_def Let_def whole)
  have "94 * ?n \<le> length (drop 64 content)" using h(4) by simp
  note R = records_image [OF this]
  have "content = take 64 content @ take (94 * ?n) (drop 64 content) @ drop (94 * ?n) (drop 64 content)"
    by (simp del: drop_drop)
  also have "take 64 content = header_bytes ?hdr" using header_bytes_round_trip [of content] h(4) by simp
  finally have c: "content = header_bytes ?hdr @ body_bytes ?ps @ drop (94 * ?n) (drop 64 content)" using R by simp
  have "length (hdr_reserved ?hdr) = 36" by (simp add: header_of_bytes_def Let_def)
  moreover have "length ?ps = ?n" by (simp add: records_def)
  ultimately show "image_of xxh32 ps content"
    unfolding image_of_def ps using R h c by (intro exI [of _ ?hdr] exI [of _ "drop (94 * ?n) (drop 64 content)"]) simp
qed

text \<open>
  C23. A load accepts exactly the images of lists of entries. When reading the file does not fail
  halfway, the status is \<open>kNotFound\<close> exactly when there is no file, \<open>kIOError\<close> exactly when the
  file does not open or its header is plausible and there is no memory for the hash, and \<open>kOk\<close>
  exactly when the file opens, there is memory, and the file starts with a header that has the
  magic number, the version, the count and the checksum of a list of entries, followed by
  their bytes; then these entries are put into the index. Any other file is \<open>kCorruption\<close>,
  and without \<open>kOk\<close> the index stays as it was.
\<close>

theorem load_validates:
  assumes "\<forall>content. fs (checkpoint_path c) = Some content \<longrightarrow> length content \<le> in_limit io"
  shows "(load ck xxh32 io c fs m = (kOk, m') \<longleftrightarrow> in_opens io \<and> hash_state_ok io \<and>
      (\<exists>content ps. fs (checkpoint_path c) = Some content \<and> image_of xxh32 ps content \<and> m' = bulk_load ck ps m)) \<and>
    (fst (load ck xxh32 io c fs m) = kNotFound \<longleftrightarrow> fs (checkpoint_path c) = None) \<and>
    (fst (load ck xxh32 io c fs m) = kIOError \<longleftrightarrow> (\<exists>content. fs (checkpoint_path c) = Some content \<and>
      (in_opens io \<longrightarrow> header_plausible (in_limit io) content \<and> \<not> hash_state_ok io))) \<and>
    fst (load ck xxh32 io c fs m) \<in> {kOk, kNotFound, kIOError, kCorruption} \<and>
    (fst (load ck xxh32 io c fs m) \<noteq> kOk \<longrightarrow> snd (load ck xxh32 io c fs m) = m)"
proof (cases "fs (checkpoint_path c)")
  case None
  then show ?thesis by (simp add: load_cases)
next
  case (Some content)
  then have "length content \<le> in_limit io" using assms by simp
  note iff = image_of_iff [OF this, of xxh32]
  show ?thesis using Some by (auto simp: load_cases iff)
qed

theorem load_validates_witness:
  "fst (load alist_table (\<lambda>_. 9) good_io fresh_ckpt [checkpoint_path fresh_ckpt \<mapsto> [1, 2, 3]] []) = kCorruption"
proof -
  let ?fs = "[checkpoint_path fresh_ckpt \<mapsto> [1, 2, 3 :: byte]]"
  have "\<forall>content. ?fs (checkpoint_path fresh_ckpt) = Some content \<longrightarrow> length content \<le> in_limit good_io"
    by (simp add: good_io_def)
  note L = load_validates [of ?fs fresh_ckpt good_io alist_table "\<lambda>_. 9" "[]", OF this]
  have "\<not> image_of (\<lambda>_. 9) ps [1, 2, 3]" for ps
  proof
    assume "image_of (\<lambda>_. 9) ps [1, 2, 3]"
    then obtain hdr rest where e: "[1, 2, 3] = header_bytes hdr @ body_bytes ps @ rest" and r: "length (hdr_reserved hdr) = 36"
      unfolding image_of_def by blast
    have "length [1, 2, 3 :: byte] = 64 + length (body_bytes ps @ rest)" unfolding e using r by (simp add: header_bytes_def)
    then show False by simp
  qed
  let ?l = "load alist_table (\<lambda>_. 9) good_io fresh_ckpt ?fs []"
  have "fst ?l \<noteq> kOk"
  proof
    assume "fst ?l = kOk"
    then have "?l = (kOk, snd ?l)" by (simp add: prod_eq_iff)
    then show False using L [THEN conjunct1, of "snd ?l"] \<open>\<And>ps. \<not> image_of (\<lambda>_. 9) ps [1, 2, 3]\<close> by simp
  qed
  moreover have "fst ?l \<noteq> kNotFound" using L [THEN conjunct2, THEN conjunct1] by simp
  moreover have "fst ?l \<noteq> kIOError" using L [THEN conjunct2, THEN conjunct2, THEN conjunct1] by (simp add: good_io_def)
  moreover have "fst ?l \<in> {kOk, kNotFound, kIOError, kCorruption}" using L by blast
  ultimately show ?thesis by blast
qed

text \<open>
  C24. The dirty flag can be lost. If a client updates the index after the periodic thread took
  its snapshot and raises the flag before the save completes, the completed save lowers it:
  no save is pending and the flag is down, but the checkpoint file holds the old contents, and
  stopping the manager does not write the update either.
\<close>

theorem dirty_flag_lost_during_save:
  assumes "w_saving w = None" and "\<not> w_upserted w" and "running (w_ckpt w)" and "dirty (w_ckpt w)"
    and "pairs_wf (snapshot ck (w_index w))" and "io_healthy (length (snapshot ck (w_index w))) io"
  shows "\<exists>w'. ckpt_steps ck xxh32 w w' \<and> w_index w' = upsert ck k e (w_index w) \<and>
    w_saving w' = None \<and> \<not> w_upserted w' \<and> \<not> dirty (w_ckpt w') \<and>
    w_fs w' (checkpoint_path (w_ckpt w')) =
      Some (checkpoint_image xxh32 (wall_clock io) (snapshot ck (w_index w))) \<and>
    map_option snd (stop ck xxh32 io' (w_index w') (w_ckpt w', w_fs w')) = Some (w_fs w')"
proof -
  let ?ps = "snapshot ck (w_index w)"
  let ?w1 = "w\<lparr>w_saving := Some ?ps\<rparr>"
  let ?w2 = "?w1\<lparr>w_index := upsert ck k e (w_index w), w_upserted := True\<rparr>"
  let ?w3 = "?w2\<lparr>w_ckpt := mark_dirty (w_ckpt w), w_upserted := False\<rparr>"
  let ?c = "(mark_dirty (w_ckpt w))\<lparr>dirty := False, last_entries := of_nat (length ?ps), last_duration_ms := elapsed_ms io\<rparr>"
  let ?fs = "(w_fs w)(checkpoint_path (mark_dirty (w_ckpt w)) \<mapsto> checkpoint_image xxh32 (wall_clock io) ?ps,
    checkpoint_tmp_path (mark_dirty (w_ckpt w)) := None)"
  let ?w4 = "?w3\<lparr>w_ckpt := ?c, w_fs := ?fs, w_saving := None\<rparr>"
  have "ckpt_step ck xxh32 w ?w1" using assms by (intro save_begin)
  moreover have "ckpt_step ck xxh32 ?w1 ?w2" using client_upsert [of ?w1 ck xxh32 k e] assms(2) by simp
  moreover have "ckpt_step ck xxh32 ?w2 ?w3" using client_dirty [of ?w2 ck xxh32] by simp
  moreover have "save_snapshot xxh32 io ?ps (mark_dirty (w_ckpt w), w_fs w) = (Inr kOk, ?c, ?fs)"
    using assms(5,6) by (intro save_healthy) (simp_all add: mark_dirty_def)
  then have "ckpt_step ck xxh32 ?w3 ?w4" using save_end [of ?w3 ?ps xxh32 io kOk ?c ?fs ck] by simp
  ultimately have "ckpt_steps ck xxh32 w ?w4" by (meson converse_rtranclp_into_rtranclp rtranclp.rtrancl_refl)
  moreover have "?fs (checkpoint_path ?c) = Some (checkpoint_image xxh32 (wall_clock io) ?ps)"
    by (simp add: checkpoint_path_def checkpoint_tmp_path_def)
  ultimately show ?thesis
    by (intro exI [of _ ?w4]) (simp add: stop_def periodic_final_def Let_def)
qed

definition busy_world :: "index_pair list ckpt_world" where
  "busy_world = \<lparr>w_index = small_index, w_ckpt = fresh_ckpt, w_fs = Map.empty, w_saving = None, w_upserted = False\<rparr>"

theorem dirty_flag_lost_during_save_witness:
  "\<exists>w'. ckpt_steps alist_table (\<lambda>_. 9) busy_world w' \<and>
    w_index w' = upsert alist_table (key_of_bytes [3]) zero_entry small_index \<and> \<not> dirty (w_ckpt w') \<and>
    w_fs w' (checkpoint_path (w_ckpt w')) =
      Some (checkpoint_image (\<lambda>_. 9) 7 (snapshot alist_table small_index))"
proof -
  have "pairs_wf (snapshot alist_table small_index)"
    by (rule index_entries_wf [OF alist_table_laws small_index_facts(1)])
  moreover have "length (snapshot alist_table small_index) = 2"
    using snapshot_exact(3) [OF alist_table_laws] small_index_facts(2) by simp
  ultimately show ?thesis
    using dirty_flag_lost_during_save [of busy_world alist_table good_io "\<lambda>_. 9" "key_of_bytes [3]" zero_entry good_io]
    by (simp add: busy_world_def fresh_ckpt_def mark_dirty_def start_periodic_def io_healthy_def)
      (auto simp: good_io_def)
qed

end
