(* ===== verification/Logger.thy ===== *)
theory Logger
  imports Config Float64
begin

text \<open>
  \<open>src/logging/logger.{h,cpp}\<close>: levels, the JSON line of an event, the counters of the current
  period and the periodic summary that reports and resets them. What goes to \<open>stderr\<close> is
  kept in the state, one string for each line.
\<close>

section \<open>Levels\<close>

datatype LogLevel = kDebug | kInfo | kWarn | kError

fun level_code :: "LogLevel \<Rightarrow> 8 word" where
  "level_code kDebug = 0"
| "level_code kInfo = 1"
| "level_code kWarn = 2"
| "level_code kError = 3"

lemma level_code_inject [simp]: "level_code a = level_code b \<longleftrightarrow> a = b"
  by (cases a; cases b) simp_all

instantiation LogLevel :: linorder
begin

definition less_eq_LogLevel :: "LogLevel \<Rightarrow> LogLevel \<Rightarrow> bool" where
  "less_eq_LogLevel a b \<longleftrightarrow> level_code a \<le> level_code b"

definition less_LogLevel :: "LogLevel \<Rightarrow> LogLevel \<Rightarrow> bool" where
  "less_LogLevel a b \<longleftrightarrow> level_code a < level_code b"

instance
  by standard (auto simp: less_eq_LogLevel_def less_LogLevel_def order.strict_iff_order antisym)

end

definition ParseLogLevel :: "string \<Rightarrow> LogLevel" where
  "ParseLogLevel s =
     (if s = ''debug'' then kDebug
      else if s = ''info'' then kInfo
      else if s = ''warn'' then kWarn
      else if s = ''error'' then kError
      else kInfo)"

fun level_str :: "LogLevel \<Rightarrow> string" where
  "level_str kDebug = ''DEBUG''"
| "level_str kInfo = ''INFO''"
| "level_str kWarn = ''WARN''"
| "level_str kError = ''ERROR''"

section \<open>State\<close>

record PeriodStats =
  ps_gets :: "64 word"
  ps_t1_hits :: "64 word"
  ps_t2_hits :: "64 word"
  ps_misses :: "64 word"
  ps_puts :: "64 word"
  ps_puts_rejected :: "64 word"
  ps_evictions :: "64 word"
  ps_get_latency_sum_us :: "64 word"
  ps_get_latency_max_us :: "64 word"

definition zero_stats :: PeriodStats where
  "zero_stats = \<lparr>ps_gets = 0, ps_t1_hits = 0, ps_t2_hits = 0, ps_misses = 0, ps_puts = 0, ps_puts_rejected = 0,
     ps_evictions = 0, ps_get_latency_sum_us = 0, ps_get_latency_max_us = 0\<rparr>"

record Logger =
  lg_config :: LoggingConfig
  min_level :: LogLevel
  period_stats :: PeriodStats
  summary_thread :: bool
  lg_running :: bool
  lg_stderr :: "string list"

definition logger_create :: "LoggingConfig \<Rightarrow> Logger" where
  "logger_create config =
     \<lparr>lg_config = config, min_level = ParseLogLevel (lc_level config), period_stats = zero_stats,
      summary_thread = False, lg_running = False, lg_stderr = []\<rparr>"

section \<open>Time stamps\<close>

text \<open>
  \<open>gmtime_r\<close> for times since the epoch: the year by taking off whole years, the month by
  taking off whole months.
\<close>

definition leap_year :: "nat \<Rightarrow> bool" where
  "leap_year y \<longleftrightarrow> y mod 4 = 0 \<and> (y mod 100 \<noteq> 0 \<or> y mod 400 = 0)"

definition year_days :: "nat \<Rightarrow> nat" where
  "year_days y = (if leap_year y then 366 else 365)"

definition month_days :: "nat \<Rightarrow> nat list" where
  "month_days y = [31, if leap_year y then 29 else 28, 31, 30, 31, 30, 31, 31, 30, 31, 30, 31]"

function take_years :: "nat \<Rightarrow> nat \<Rightarrow> nat \<times> nat" where
  "take_years y d = (if d < year_days y then (y, d) else take_years (Suc y) (d - year_days y))"
  by pat_completeness auto

termination
  by (relation "measure snd") (auto simp: year_days_def)

declare take_years.simps [simp del]

fun take_months :: "nat list \<Rightarrow> nat \<Rightarrow> nat \<Rightarrow> nat \<times> nat" where
  "take_months [] m d = (m, d)"
| "take_months (n # ns) m d = (if d < n then (m, d) else take_months ns (Suc m) (d - n))"

text \<open>Year, month from 1 and day from 1 of a day since 1970-01-01.\<close>

definition civil_date :: "nat \<Rightarrow> nat \<times> nat \<times> nat" where
  "civil_date days =
     (case take_years 1970 days of (y, d) \<Rightarrow>
        case take_months (month_days y) 1 d of (m, d) \<Rightarrow> (y, m, d + 1))"

definition zero_pad :: "nat \<Rightarrow> string \<Rightarrow> string" where
  "zero_pad n ds = replicate (n - length ds) (CHR ''0'') @ ds"

definition timestamp_now :: "nat \<Rightarrow> string" where
  "timestamp_now now_us =
     (let time_t = now_us div 1000000;
          us = now_us mod 1000000;
          s = time_t mod 86400
      in case civil_date (time_t div 86400) of (y, m, d) \<Rightarrow>
           dec y @ ''-'' @ zero_pad 2 (dec m) @ ''-'' @ zero_pad 2 (dec d) @ ''T'' @
           zero_pad 2 (dec (s div 3600)) @ '':'' @ zero_pad 2 (dec (s div 60 mod 60)) @ '':'' @
           zero_pad 2 (dec (s mod 60)) @ ''.'' @ zero_pad 6 (dec us) @ ''Z'')"

section \<open>Events\<close>

text \<open>\<open>%s\<close> prints up to the first null character.\<close>

definition c_str :: "string \<Rightarrow> string" where
  "c_str s = takeWhile (\<lambda>c. c \<noteq> CHR 0x00) s"

text \<open>\<open>snprintf\<close> into a buffer of \<open>n\<close> characters, the last of them the null character.\<close>

definition snprintf :: "nat \<Rightarrow> string \<Rightarrow> string" where
  "snprintf n s = take (n - 1) s"

definition log_line :: "string \<Rightarrow> LogLevel \<Rightarrow> string \<Rightarrow> string \<Rightarrow> string" where
  \<open>log_line ts level event json_fields =
     ''{"ts":"'' @ ts @ ''","level":"'' @ level_str level @ ''","event":"'' @ c_str event @ ''"'' @
     (if json_fields = [] then [] else '','') @ c_str json_fields @ ''}''\<close>

definition log_event :: "nat \<Rightarrow> LogLevel \<Rightarrow> string \<Rightarrow> string \<Rightarrow> Logger \<Rightarrow> Logger" where
  "log_event now_us level event json_fields l =
     (if level < min_level l then l
      else l\<lparr>lg_stderr := lg_stderr l @ [log_line (timestamp_now now_us) level event json_fields]\<rparr>)"

definition log_debug :: "nat \<Rightarrow> string \<Rightarrow> string \<Rightarrow> Logger \<Rightarrow> Logger" where
  "log_debug now_us event json_fields l = log_event now_us kDebug event json_fields l"

definition log_info :: "nat \<Rightarrow> string \<Rightarrow> string \<Rightarrow> Logger \<Rightarrow> Logger" where
  "log_info now_us event json_fields l = log_event now_us kInfo event json_fields l"

definition log_warn :: "nat \<Rightarrow> string \<Rightarrow> string \<Rightarrow> Logger \<Rightarrow> Logger" where
  "log_warn now_us event json_fields l = log_event now_us kWarn event json_fields l"

definition log_error :: "nat \<Rightarrow> string \<Rightarrow> string \<Rightarrow> Logger \<Rightarrow> Logger" where
  "log_error now_us event json_fields l = log_event now_us kError event json_fields l"

text \<open>An update of the counters through the reference that \<open>period_stats()\<close> returns.\<close>

definition count :: "(PeriodStats \<Rightarrow> PeriodStats) \<Rightarrow> Logger \<Rightarrow> Logger" where
  "count f l = l\<lparr>period_stats := f (period_stats l)\<rparr>"

section \<open>The periodic summary\<close>

definition start_periodic_summary :: "Logger \<Rightarrow> Logger" where
  "start_periodic_summary l =
     (if lc_periodic_summary_interval_s (lg_config l) = 0 then l
      else l\<lparr>lg_running := True, summary_thread := True\<rparr>)"

definition logger_stop :: "Logger \<Rightarrow> Logger" where
  "logger_stop l = l\<lparr>lg_running := False, summary_thread := False\<rparr>"

text \<open>The conversion \<open>%.3f\<close> of a double that is not negative.\<close>

definition fixed3 :: "double \<Rightarrow> string" where
  "fixed3 x = (let n = nat (round_even (x * 1000)) in dec (n div 1000) @ ''.'' @ zero_pad 3 (dec (n mod 1000)))"

definition hit_total :: "PeriodStats \<Rightarrow> double" where
  "hit_total s = d_of_nat (unat (ps_t1_hits s + ps_t2_hits s + ps_misses s))"

definition period_rate :: "64 word \<Rightarrow> double \<Rightarrow> double" where
  "period_rate n tot = (if tot > 0 then d_div (d_of_nat (unat n)) tot else 0)"

definition avg_latency :: "PeriodStats \<Rightarrow> nat" where
  "avg_latency s = (if ps_gets s > 0 then unat (ps_get_latency_sum_us s) div unat (ps_gets s) else 0)"

definition summary_fields :: "nat \<Rightarrow> PeriodStats \<Rightarrow> string" where
  \<open>summary_fields interval_s s =
     ''"interval_s":'' @ dec interval_s @
     '',"t1_hit_rate":'' @ fixed3 (period_rate (ps_t1_hits s) (hit_total s)) @
     '',"t2_hit_rate":'' @ fixed3 (period_rate (ps_t2_hits s) (hit_total s)) @
     '',"miss_rate":'' @ fixed3 (period_rate (ps_misses s) (hit_total s)) @
     '',"gets":'' @ dec (unat (ps_gets s)) @ '',"puts":'' @ dec (unat (ps_puts s)) @
     '',"puts_rejected":'' @ dec (unat (ps_puts_rejected s)) @
     '',"evictions":'' @ dec (unat (ps_evictions s)) @
     '',"avg_get_latency_us":'' @ dec (avg_latency s) @
     '',"max_get_latency_us":'' @ dec (unat (ps_get_latency_max_us s))\<close>

text \<open>
  The loop body after a wait has ended; the flag says whether the loop goes on. The nine
  exchanges are taken together here.
\<close>

definition summary_tick :: "nat \<Rightarrow> Logger \<Rightarrow> bool \<times> Logger" where
  "summary_tick now_us l =
     (if \<not> lg_running l then (False, l)
      else
        let s = period_stats l;
            buf = snprintf 512 (summary_fields (lc_periodic_summary_interval_s (lg_config l)) s)
        in (True, log_info now_us ''periodic_summary'' buf (l\<lparr>period_stats := zero_stats\<rparr>)))"

section \<open>Lengths\<close>

lemma length_dec: "n < 10 ^ Suc k \<Longrightarrow> length (dec n) \<le> Suc k"
proof (induction k arbitrary: n)
  case 0
  then show ?case by (subst dec.simps) simp
next
  case (Suc k)
  show ?case
  proof (cases "n < 10")
    case True
    then show ?thesis by (subst dec.simps) simp
  next
    case False
    have "n div 10 < 10 ^ Suc k" using Suc.prems by (intro less_mult_imp_div_less) simp
    from Suc.IH [OF this] False show ?thesis by (subst dec.simps) simp
  qed
qed

lemma unat_64: "unat (w :: 64 word) < 2 ^ 64"
  by (rule order_less_le_trans [OF unsigned_less]) simp

lemma length_dec_word: "length (dec (unat (w :: 64 word))) \<le> 20"
proof -
  have "unat w < 10 ^ Suc 19" by (rule less_trans [OF unat_64]) simp
  from length_dec [OF this] show ?thesis by simp
qed

lemma length_zero_pad: "length ds \<le> n \<Longrightarrow> length (zero_pad n ds) = n"
  by (simp add: zero_pad_def)

lemma period_rate_nonneg: "0 \<le> period_rate n tot"
  by (simp add: period_rate_def d_div_def fl_nonneg d_of_nat_nonneg)

lemma fl_2_64: "fl (2 ^ 64) = 2 ^ 64"
  using fl_scaled [of 1 64] by simp

lemma d_of_nat_word_le: "d_of_nat (unat (n :: 64 word)) \<le> 2 ^ 64"
proof -
  have "(of_nat (unat n) :: rat) < of_nat (2 ^ 64)" using unat_64 [of n] by (simp only: of_nat_less_iff)
  then have "d_of_nat (unat n) \<le> fl (2 ^ 64)" unfolding d_of_nat_def by (intro fl_mono) simp
  then show ?thesis by (simp only: fl_2_64)
qed

lemma period_rate_le: "period_rate n (hit_total s) \<le> 2 ^ 64"
proof (cases "hit_total s > 0")
  case True
  then have "1 \<le> unat (ps_t1_hits s + ps_t2_hits s + ps_misses s)"
    by (cases "unat (ps_t1_hits s + ps_t2_hits s + ps_misses s)") (simp_all add: hit_total_def d_of_nat_def)
  from d_of_nat_mono [OF this] have "1 \<le> hit_total s" by (simp add: hit_total_def d_of_nat_def)
  then have "d_of_nat (unat n) / hit_total s \<le> d_of_nat (unat n) / 1"
    using d_of_nat_nonneg by (intro divide_left_mono) simp_all
  also have "\<dots> \<le> 2 ^ 64" using d_of_nat_word_le by simp
  finally have "fl (d_of_nat (unat n) / hit_total s) \<le> fl (2 ^ 64)" by (rule fl_mono)
  then show ?thesis using True by (simp only: period_rate_def d_div_def fl_2_64 if_True)
qed (simp add: period_rate_def)

lemma length_fixed3:
  assumes "0 \<le> x" and "x \<le> 2 ^ 64"
  shows "length (fixed3 x) \<le> 24"
proof -
  let ?n = "nat (round_even (x * 1000))"
  have "x * 1000 \<le> of_int (2 ^ 64 * 1000)" using assms(2) by simp
  then have "round_even (x * 1000) \<le> 2 ^ 64 * 1000" by (rule round_even_le)
  then have "?n \<le> nat (2 ^ 64 * 1000)" by (rule nat_mono)
  then have "?n \<le> 2 ^ 64 * 1000" by simp
  then have "?n div 1000 \<le> 2 ^ 64 * 1000 div 1000" by (rule div_le_mono)
  then have a: "?n div 1000 < 10 ^ Suc 19" by simp
  have b: "length (dec (?n mod 1000)) \<le> 3"
    by (rule order_trans [OF length_dec [of _ 2]]) simp_all
  show ?thesis using length_dec [OF a] length_zero_pad [OF b] by (simp add: fixed3_def Let_def)
qed

section \<open>Properties\<close>

text \<open>
  The rates of the summary are rates: as long as the hits and misses of a period fit the
  64-bit sum, each rate lies between 0 and 1 in double arithmetic, and a period without
  lookups reports 0 for all three.
\<close>

lemma period_rates_bounded:
  assumes "unat (ps_t1_hits s) + unat (ps_t2_hits s) + unat (ps_misses s) < 2 ^ 64"
    and "n \<in> {ps_t1_hits s, ps_t2_hits s, ps_misses s}"
  shows "0 \<le> period_rate n (hit_total s) \<and> period_rate n (hit_total s) \<le> 1 \<and>
    (ps_t1_hits s = 0 \<and> ps_t2_hits s = 0 \<and> ps_misses s = 0 \<longrightarrow> period_rate n (hit_total s) = 0)"
proof -
  let ?t = "ps_t1_hits s + ps_t2_hits s + ps_misses s"
  have "unat (ps_t1_hits s + ps_t2_hits s) = unat (ps_t1_hits s) + unat (ps_t2_hits s)"
    using assms(1) by (intro unat_add_lem [THEN iffD1]) simp
  then have "unat ?t = unat (ps_t1_hits s) + unat (ps_t2_hits s) + unat (ps_misses s)"
    using assms(1) by (subst unat_add_lem [THEN iffD1]) simp_all
  then have "unat n \<le> unat ?t" using assms(2) by auto
  from d_of_nat_mono [OF this] have "period_rate n (hit_total s) \<le> 1"
    unfolding period_rate_def hit_total_def using d_of_nat_nonneg by (auto intro: d_div_le_1)
  moreover have "period_rate n (hit_total s) = 0" if "ps_t1_hits s = 0 \<and> ps_t2_hits s = 0 \<and> ps_misses s = 0"
    using that by (simp add: period_rate_def hit_total_def d_of_nat_def)
  ultimately show ?thesis using period_rate_nonneg by blast
qed

definition busy_stats :: PeriodStats where
  "busy_stats = zero_stats\<lparr>ps_gets := 10, ps_t1_hits := 6, ps_t2_hits := 3, ps_misses := 1\<rparr>"

lemma period_rates_bounded_witness:
  "period_rate (ps_t1_hits busy_stats) (hit_total busy_stats) \<le> 1"
proof -
  have "unat (ps_t1_hits busy_stats) + unat (ps_t2_hits busy_stats) + unat (ps_misses busy_stats) < 2 ^ 64"
    by (simp add: busy_stats_def)
  then show ?thesis by (rule period_rates_bounded [THEN conjunct2, THEN conjunct1]) simp
qed

text \<open>
  The summary always fits its buffer of 512 characters: whatever the counters are,
  \<open>snprintf\<close> cuts nothing off, so the line that is logged is the complete JSON object.
\<close>

theorem summary_never_truncated:
  assumes "interval_s < 2 ^ 32"
  shows "snprintf 512 (summary_fields interval_s s) = summary_fields interval_s s"
proof -
  have i: "length (dec interval_s) \<le> 10" using assms length_dec [of interval_s 9] by simp
  have "avg_latency s < 10 ^ Suc 19"
    unfolding avg_latency_def
    by (rule le_less_trans [of _ "unat (ps_get_latency_sum_us s)"])
      (simp_all add: less_trans [OF unat_64])
  from length_dec [OF this] have a: "length (dec (avg_latency s)) \<le> 20" by simp
  note r = length_fixed3 [OF period_rate_nonneg period_rate_le]
  have "length (summary_fields interval_s s) \<le> 348"
    using i a r [of "ps_t1_hits s" s] r [of "ps_t2_hits s" s] r [of "ps_misses s" s]
      length_dec_word [of "ps_gets s"] length_dec_word [of "ps_puts s"] length_dec_word [of "ps_puts_rejected s"]
      length_dec_word [of "ps_evictions s"] length_dec_word [of "ps_get_latency_max_us s"]
    by (simp add: summary_fields_def)
  then show ?thesis by (simp add: snprintf_def)
qed

theorem summary_never_truncated_witness:
  "snprintf 512 (summary_fields 60 busy_stats) = summary_fields 60 busy_stats"
  by (rule summary_never_truncated) simp

end
