(* ===== verification/Engine.thy ===== *)
theory Engine
  imports Cw_Slru Admission Slab_Allocator Crc32c Checkpoint Logger Blob_Store
begin

text \<open>
  \<open>src/engine.{h,cpp}\<close>: the engine that ties the components together. A key is looked up in the
  index, its blob lies in a T1 slot or in the T2 blob store, and a put may push colder blobs
  from T1 to T2. Every public operation is one function on the whole state; the background
  threads act between the operations, with the functions of their own theories.
\<close>

section \<open>The world of the engine\<close>

text \<open>Libraries and system calls: libcuckoo, the file system, the allocator, xxHash and the clocks.\<close>

record ('m, 'w) engine_env =
  en_ck :: "'m cuckoo"
  en_store :: "'w store_env"
  en_alloc :: "'w alloc_env"
  en_xxh32 :: "bytes \<Rightarrow> 32 word"
  en_faults :: "'w \<Rightarrow> io_faults"
  en_steady_us :: "'w \<Rightarrow> 64 word"
  en_wall_us :: "'w \<Rightarrow> nat"
  en_elapsed_us :: "'w \<Rightarrow> 64 word"

text \<open>
  The members of the class and the memory and files they act on. The members that are null
  until \<open>open\<close> has created them hold placeholders as long as \<open>eg_built\<close> is false.
\<close>

record ('m, 'w) AttentionDBEngine =
  eg_config :: Config
  eg_index :: 'm
  t1_allocator :: "SlabAllocator option"
  t2_store :: "BlobStore option"
  t1_eviction :: CwSlru
  t2_eviction :: CwSlru
  eg_admission :: AdmissionControl
  eg_checkpoint :: CheckpointManager
  eg_logger :: Logger
  eg_opened :: bool
  eg_built :: bool
  eg_world :: 'w
  eg_memory :: memory
  eg_files :: file_system

datatype 'a outcome = Ret 'a | Throws slab_exn | Aborts

definition engine_create :: "('m, 'w) engine_env \<Rightarrow> 'w \<Rightarrow> memory \<Rightarrow> file_system \<Rightarrow> ('m, 'w) AttentionDBEngine" where
  "engine_create V w mem fs =
     \<lparr>eg_config = Default, eg_index = index_new (en_ck V) 0, t1_allocator = None, t2_store = None,
      t1_eviction = slru_create default_slru_config, t2_eviction = slru_create default_slru_config,
      eg_admission = admission_create (cfg_admission Default),
      eg_checkpoint = checkpoint_create (cfg_checkpoint Default) [], eg_logger = logger_create (cfg_logging Default),
      eg_opened = False, eg_built = False, eg_world = w, eg_memory = mem, eg_files = fs\<rparr>"

abbreviation set_stats :: "(PeriodStats \<Rightarrow> PeriodStats) \<Rightarrow> ('m, 'w) AttentionDBEngine \<Rightarrow> ('m, 'w) AttentionDBEngine" where
  "set_stats f e \<equiv> e\<lparr>eg_logger := count f (eg_logger e)\<rparr>"

section \<open>Opening and closing\<close>

text \<open>\<open>make_unique<SlabAllocator>\<close>; an allocator of an earlier \<open>open\<close> is destroyed afterwards.\<close>

definition open_t1 :: "('m, 'w) engine_env \<Rightarrow> ('m, 'w) AttentionDBEngine \<Rightarrow> slab_exn + ('m, 'w) AttentionDBEngine" where
  "open_t1 V e =
     (if dc_enabled (cfg_dram_cache (eg_config e)) then
        (case slab_create (en_alloc V) (cfg_dram_cache (eg_config e)) (eg_world e, eg_memory e) of
           Inl exn \<Rightarrow> Inl exn
         | Inr (a, w, mem) \<Rightarrow>
             Inr (e\<lparr>t1_allocator := Some a, eg_memory := mem,
                    eg_world := (case t1_allocator e of None \<Rightarrow> w | Some old \<Rightarrow> destroy (en_alloc V) old w)\<rparr>))
      else Inr e)"

definition open_t2 :: "('m, 'w) engine_env \<Rightarrow> ('m, 'w) AttentionDBEngine \<Rightarrow> Status \<times> ('m, 'w) AttentionDBEngine" where
  "open_t2 V e =
     (if nv_enabled (cfg_nvme_store (eg_config e)) then
        let w = (case t2_store e of None \<Rightarrow> eg_world e | Some old \<Rightarrow> snd (blob_close (en_store V) (old, eg_world e)))
        in case blob_open (en_store V) (blob_store_create (cfg_nvme_store (eg_config e)), w) of (s, st, w) \<Rightarrow>
             (s, e\<lparr>t2_store := Some st, eg_world := w\<rparr>)
      else (kOk, e))"

definition log_at :: "('m, 'w) engine_env \<Rightarrow> (nat \<Rightarrow> Logger \<Rightarrow> Logger) \<Rightarrow> ('m, 'w) AttentionDBEngine \<Rightarrow> ('m, 'w) AttentionDBEngine" where
  "log_at V f e = e\<lparr>eg_logger := f (en_wall_us V (eg_world e)) (eg_logger e)\<rparr>"

text \<open>T1 entries of an earlier process are removed from the loaded index.\<close>

definition stale_keys :: "'m cuckoo \<Rightarrow> 'm \<Rightarrow> StorageKey list" where
  "stale_keys ck m = iterate ck (\<lambda>k e acc. (True, if ie_tier e = tier_code kT1Dram then acc @ [k] else acc)) m []"

definition scrub_t1 :: "'m cuckoo \<Rightarrow> 'm \<Rightarrow> 'm" where
  "scrub_t1 ck m = fold (\<lambda>k m. snd (index_erase ck k m)) (stale_keys ck m) m"

definition load_checkpoint :: "('m, 'w) engine_env \<Rightarrow> ('m, 'w) AttentionDBEngine \<Rightarrow> ('m, 'w) AttentionDBEngine" where
  \<open>load_checkpoint V e =
     (case load (en_ck V) (en_xxh32 V) (en_faults V (eg_world e)) (eg_checkpoint e) (eg_files e) (eg_index e) of
        (status, m) \<Rightarrow>
          if status \<noteq> kOk then e\<lparr>eg_index := m\<rparr>
          else
            let e = e\<lparr>eg_index := m\<rparr>;
                e = log_at V (\<lambda>now. log_info now ''checkpoint_loaded''
                      (snprintf 64 (''"entries":'' @ dec (index_size (en_ck V) m)))) e;
                stale = stale_keys (en_ck V) m;
                e = e\<lparr>eg_index := scrub_t1 (en_ck V) m\<rparr>
            in if stale = [] then e
               else log_at V (\<lambda>now. log_info now ''checkpoint_scrubbed_t1''
                      (snprintf 128 (''"removed":'' @ dec (length stale) @ '',"remaining":'' @
                         dec (index_size (en_ck V) (eg_index e))))) e)\<close>

definition startup_fields :: "Config \<Rightarrow> string" where
  \<open>startup_fields cfg =
     snprintf 256 (''"mode":"'' @ c_str (cfg_mode cfg) @ ''","t1_enabled":'' @
       (if dc_enabled (cfg_dram_cache cfg) then ''true'' else ''false'') @
       '',"t1_size":'' @ dec (dc_size_bytes (cfg_dram_cache cfg)) @ '',"t2_enabled":'' @
       (if nv_enabled (cfg_nvme_store cfg) then ''true'' else ''false''))\<close>

definition open_rest :: "('m, 'w) engine_env \<Rightarrow> ('m, 'w) AttentionDBEngine \<Rightarrow> ('m, 'w) AttentionDBEngine" where
  "open_rest V e =
     (let cfg = eg_config e;
          ev_cfg = default_slru_config\<lparr>sc_protected_ratio := ec_protected_ratio (cfg_eviction cfg)\<rparr>;
          ckpt_dir = (if nv_enabled (cfg_nvme_store cfg) then hd (nv_paths (cfg_nvme_store cfg)) @ ''/checkpoint''
                      else ''/tmp/attentiondb_checkpoint'');
          e = e\<lparr>t1_eviction := slru_create ev_cfg, t2_eviction := slru_create ev_cfg,
                eg_admission := admission_create (cfg_admission cfg),
                eg_checkpoint := checkpoint_create (cfg_checkpoint cfg) ckpt_dir, eg_built := True,
                eg_world := se_create_directories (en_store V) (eg_world e) ckpt_dir\<rparr>;
          e = load_checkpoint V e;
          e = e\<lparr>eg_checkpoint := start_periodic (eg_checkpoint e),
                eg_logger := start_periodic_summary (eg_logger e)\<rparr>
      in (log_at V (\<lambda>now. log_info now ''engine_started'' (startup_fields cfg)) e)\<lparr>eg_opened := True\<rparr>)"

definition engine_open :: "('m, 'w) engine_env \<Rightarrow> Config \<Rightarrow> ('m, 'w) AttentionDBEngine \<Rightarrow>
    Status outcome \<times> ('m, 'w) AttentionDBEngine" where
  "engine_open V cfg e =
     (if eg_opened e then (Ret kAlreadyExists, e)
      else
        let e = e\<lparr>eg_config := cfg, eg_logger := logger_create (cfg_logging cfg),
                  eg_index := index_new (en_ck V) 1048576\<rparr>
        in case open_t1 V e of
             Inl exn \<Rightarrow> (Throws exn, e)
           | Inr e \<Rightarrow>
               (case open_t2 V e of (s, e) \<Rightarrow>
                  if s \<noteq> kOk then (Ret s, log_at V (\<lambda>now. log_error now ''t2_open_failed'' []) e)
                  else (Ret kOk, open_rest V e)))"

definition engine_close :: "('m, 'w) engine_env \<Rightarrow> ('m, 'w) AttentionDBEngine \<Rightarrow> unit outcome \<times> ('m, 'w) AttentionDBEngine" where
  "engine_close V e =
     (if \<not> eg_opened e then (Ret (), e)
      else
        let e = log_at V (\<lambda>now. log_info now ''engine_closing'' []) (e\<lparr>eg_opened := False\<rparr>)
        in case stop (en_ck V) (en_xxh32 V) (en_faults V (eg_world e)) (eg_index e) (eg_checkpoint e, eg_files e) of
             None \<Rightarrow> (Aborts, e)
           | Some (c, fs) \<Rightarrow>
               let e = e\<lparr>eg_checkpoint := c, eg_files := fs, eg_logger := logger_stop (eg_logger e)\<rparr>
               in (Ret (), case t2_store e of
                     None \<Rightarrow> e
                   | Some st \<Rightarrow> (case blob_close (en_store V) (st, eg_world e) of (st, w) \<Rightarrow>
                                  e\<lparr>t2_store := Some st, eg_world := w\<rparr>)))"

text \<open>The destructor of an engine: it is closed, then its members are destroyed in reverse order.\<close>

definition engine_delete :: "('m, 'w) engine_env \<Rightarrow> ('m, 'w) AttentionDBEngine \<Rightarrow> ('w \<times> memory \<times> file_system) option" where
  "engine_delete V e =
     (case engine_close V e of
        (Ret u, e) \<Rightarrow>
          let w = (case t2_store e of None \<Rightarrow> eg_world e | Some st \<Rightarrow> snd (blob_close (en_store V) (st, eg_world e)));
              w = (case t1_allocator e of None \<Rightarrow> w | Some a \<Rightarrow> destroy (en_alloc V) a w)
          in Some (w, eg_memory e, eg_files e)
      | (r, e) \<Rightarrow> None)"

section \<open>Eviction\<close>

text \<open>
  A write to T2 that may have to wait: while the writer waits, the flush thread finishes the
  block it is writing and then writes the next one, which frees a block.
\<close>

definition t2_write :: "'w store_env \<Rightarrow> StorageKey \<Rightarrow> bytes \<Rightarrow> 32 word \<Rightarrow> BlobStore \<times> 'w \<Rightarrow>
    write_outcome \<times> BlobStore \<times> 'w" where
  "t2_write env key data checksum st =
     (case blob_write env key data checksum st of
        (Waiting, st) \<Rightarrow>
          write_acquire env key data checksum (entry_disk_size (length data))
            (flush_write env (apfst flush_take (flush_write env st)))
      | (r, st) \<Rightarrow> (r, st))"

definition over_limit :: "SlabAllocator \<Rightarrow> bool" where
  "over_limit a \<longleftrightarrow> d_mult (d_of_nat (total_capacity a)) (fl (95 / 100)) < d_of_nat (used_bytes a)"

text \<open>The entry after a write to T2.\<close>

definition to_t2 :: "BlobLocation \<Rightarrow> IndexEntry \<Rightarrow> IndexEntry" where
  "to_t2 loc entry = entry\<lparr>ie_tier := tier_code kT2Nvme, ie_address := of_nat (bl_offset loc),
     ie_segment_id := of_nat (bl_segment_id loc)\<rparr>"

text \<open>The attempt to demote; \<open>None\<close> when the write crashes.\<close>

definition demote :: "('m, 'w) engine_env \<Rightarrow> StorageKey \<Rightarrow> IndexEntry \<Rightarrow> ('m, 'w) AttentionDBEngine \<Rightarrow>
    (bool \<times> ('m, 'w) AttentionDBEngine) option" where
  "demote V victim entry e =
     (case t2_store e of
        None \<Rightarrow> Some (False, e)
      | Some st \<Rightarrow>
          if ie_recompute_cost entry < ac_min_recompute_cost (cfg_admission (eg_config e)) then Some (False, e)
          else
            (case t2_write (en_store V) victim
                    (mem_read (eg_memory e) (unat (ie_address entry)) (unat (ie_length entry)))
                    (ie_checksum entry) (st, eg_world e) of
               (Returned kOk (Some loc), st, w) \<Rightarrow>
                 Some (True, e\<lparr>t2_store := Some st, eg_world := w,
                               eg_index := upsert (en_ck V) victim (to_t2 loc entry) (eg_index e),
                               t2_eviction := on_insert (en_steady_us V w) victim (ie_recompute_cost entry)
                                                (chunk_index victim) (t2_eviction e)\<rparr>)
             | (Returned s loc, st, w) \<Rightarrow> Some (False, e\<lparr>t2_store := Some st, eg_world := w\<rparr>)
             | (r, st, w) \<Rightarrow> None))"

definition evict_one :: "('m, 'w) engine_env \<Rightarrow> StorageKey \<Rightarrow> ('m, 'w) AttentionDBEngine \<Rightarrow> ('m, 'w) AttentionDBEngine option" where
  "evict_one V victim e =
     (case index_find (en_ck V) (eg_index e) victim of
        None \<Rightarrow> Some e
      | Some entry \<Rightarrow>
          if ie_tier entry \<noteq> tier_code kT1Dram then Some e
          else
            (case demote V victim entry e of
               None \<Rightarrow> None
             | Some (demoted, e) \<Rightarrow>
                 let e = (if demoted then e else e\<lparr>eg_index := snd (index_erase (en_ck V) victim (eg_index e))\<rparr>);
                     e = e\<lparr>t1_allocator := map_option (free_by_ptr (unat (ie_address entry))) (t1_allocator e)\<rparr>
                 in Some (set_stats (\<lambda>s. s\<lparr>ps_evictions := ps_evictions s + 1\<rparr>) e)))"

lemma demote_frame:
  "demote V victim entry e = Some (b, e') \<Longrightarrow> t1_eviction e' = t1_eviction e \<and> t1_allocator e' = t1_allocator e \<and>
     eg_memory e' = eg_memory e \<and> eg_config e' = eg_config e \<and> eg_opened e' = eg_opened e"
  by (auto simp: demote_def split: option.splits if_splits prod.splits write_outcome.splits Status.splits)

lemma evict_one_eviction: "evict_one V victim e = Some e' \<Longrightarrow> t1_eviction e' = t1_eviction e"
  by (auto simp: evict_one_def Let_def split: option.splits if_splits dest: demote_frame)

text \<open>The loop ends because every turn takes a key out of the policy.\<close>

function evict_if_needed :: "('m, 'w) engine_env \<Rightarrow> ('m, 'w) AttentionDBEngine \<Rightarrow> ('m, 'w) AttentionDBEngine option" where
  "evict_if_needed V e =
     (case t1_allocator e of
        None \<Rightarrow> Some e
      | Some a \<Rightarrow>
          if \<not> over_limit a then Some e
          else
            (case evict (t1_eviction e) of
               (None, ev) \<Rightarrow> Some (e\<lparr>t1_eviction := ev\<rparr>)
             | (Some victim, ev) \<Rightarrow>
                 (case evict_one V victim (e\<lparr>t1_eviction := ev\<rparr>) of
                    None \<Rightarrow> None
                  | Some e' \<Rightarrow> evict_if_needed V e')))"
  by pat_completeness auto

termination
proof (relation "measure (\<lambda>(V, e). length (protected_list (t1_eviction e)) + length (probationary_list (t1_eviction e)))",
    goal_cases)
  case (2 V e a r ev victim e')
  then have "t1_eviction e' = ev" by (auto dest: evict_one_eviction)
  with 2 show ?case using evict_length [of "t1_eviction e" victim ev] by simp
qed simp

declare evict_if_needed.simps [simp del]

section \<open>Operations\<close>

definition storage_utilization :: "('m, 'w) AttentionDBEngine \<Rightarrow> double" where
  "storage_utilization e =
     (case t1_allocator e of
        None \<Rightarrow> 0
      | Some a \<Rightarrow> if total_capacity a > 0 then d_div (d_of_nat (used_bytes a)) (d_of_nat (total_capacity a)) else 0)"

text \<open>The code reads the clock twice for the two time stamps; it does not advance within a step here.\<close>

definition new_entry :: "64 word \<Rightarrow> PutOpts \<Rightarrow> bytes \<Rightarrow> IndexEntry" where
  "new_entry now opts blob =
     set_last_access_us now (set_created_at_us now
       (zero_entry\<lparr>ie_recompute_cost := po_recompute_cost opts, ie_num_tokens := po_num_tokens opts,
          ie_access_count := 1, ie_slru_segment := slru_segment_code kProbationary,
          ie_checksum := compute_crc32 blob, ie_length := of_nat (length blob)\<rparr>))"

text \<open>The T1 attempt of a put; the flag says whether the blob was stored.\<close>

definition put_t1 :: "('m, 'w) engine_env \<Rightarrow> StorageKey \<Rightarrow> bytes \<Rightarrow> PutOpts \<Rightarrow> IndexEntry \<Rightarrow> ('m, 'w) AttentionDBEngine \<Rightarrow>
    bool \<times> IndexEntry \<times> ('m, 'w) AttentionDBEngine" where
  "put_t1 V key blob opts entry e =
     (case t1_allocator e of
        None \<Rightarrow> (False, entry, e)
      | Some a \<Rightarrow>
          (case allocate (length blob) a of (handle, p, a) \<Rightarrow>
             if \<not> handle_valid handle then (False, entry, e\<lparr>t1_allocator := Some a\<rparr>)
             else (True, entry\<lparr>ie_tier := tier_code kT1Dram, ie_address := of_nat p, ie_segment_id := 0\<rparr>,
                   e\<lparr>t1_allocator := Some a, eg_memory := mem_write (eg_memory e) p blob,
                     t1_eviction := on_insert (en_steady_us V (eg_world e)) key (po_recompute_cost opts)
                                      (chunk_index key) (t1_eviction e)\<rparr>)))"

text \<open>The T2 attempt: stored, refused with a status, or (\<open>None\<close>) crashed.\<close>

definition put_t2 :: "('m, 'w) engine_env \<Rightarrow> StorageKey \<Rightarrow> bytes \<Rightarrow> PutOpts \<Rightarrow> IndexEntry \<Rightarrow> ('m, 'w) AttentionDBEngine \<Rightarrow>
    ((Status + IndexEntry) \<times> ('m, 'w) AttentionDBEngine) option" where
  "put_t2 V key blob opts entry e =
     (case t2_store e of
        None \<Rightarrow> Some (Inl kIOError, set_stats (\<lambda>s. s\<lparr>ps_puts_rejected := ps_puts_rejected s + 1\<rparr>) e)
      | Some st \<Rightarrow>
          (case t2_write (en_store V) key blob (ie_checksum entry) (st, eg_world e) of
             (Returned kOk (Some loc), st, w) \<Rightarrow>
               Some (Inr (to_t2 loc entry),
                     e\<lparr>t2_store := Some st, eg_world := w,
                       t2_eviction := on_insert (en_steady_us V w) key (po_recompute_cost opts) (chunk_index key)
                                        (t2_eviction e)\<rparr>)
           | (Returned s loc, st, w) \<Rightarrow>
               Some (Inl s, log_at V (\<lambda>now. log_warn now ''direct_write_failed'' [])
                      (set_stats (\<lambda>s. s\<lparr>ps_puts_rejected := ps_puts_rejected s + 1\<rparr>)
                        (e\<lparr>t2_store := Some st, eg_world := w\<rparr>)))
           | (r, st, w) \<Rightarrow> None))"

text \<open>The end of a put that stored its blob.\<close>

definition put_commit :: "('m, 'w) engine_env \<Rightarrow> StorageKey \<Rightarrow> IndexEntry \<Rightarrow> ('m, 'w) AttentionDBEngine \<Rightarrow>
    ('m, 'w) AttentionDBEngine option" where
  "put_commit V key entry e =
     map_option (set_stats (\<lambda>s. s\<lparr>ps_puts := ps_puts s + 1\<rparr>))
       (evict_if_needed V (e\<lparr>eg_index := upsert (en_ck V) key entry (eg_index e),
                             eg_checkpoint := mark_dirty (eg_checkpoint e)\<rparr>))"

definition rejected_fields :: "PutOpts \<Rightarrow> AdmissionResult \<Rightarrow> string" where
  \<open>rejected_fields opts admit =
     snprintf 128 (''"recompute_cost":'' @ dec (unat (po_recompute_cost opts)) @ '',"reason":"'' @
       (if admit = kRejectLowCost then ''low_cost'' else ''dynamic_threshold'') @ ''"'')\<close>

definition engine_put :: "('m, 'w) engine_env \<Rightarrow> StorageKey \<Rightarrow> bytes \<Rightarrow> PutOpts \<Rightarrow> ('m, 'w) AttentionDBEngine \<Rightarrow>
    (Status \<times> ('m, 'w) AttentionDBEngine) option" where
  "engine_put V key blob opts e =
     (if \<not> eg_opened e then Some (kShutdown, e)
      else
        let admit = evaluate (eg_admission e) opts (storage_utilization e);
            e = e\<lparr>eg_admission := record_evaluation admit (eg_admission e)\<rparr>
        in if admit \<noteq> kAdmit then
             Some (kRejectedAdmission,
                   log_at V (\<lambda>now. log_debug now ''put_rejected_admission'' (rejected_fields opts admit))
                     (set_stats (\<lambda>s. s\<lparr>ps_puts_rejected := ps_puts_rejected s + 1\<rparr>) e))
           else if length blob > UINT32_MAX then Some (kInvalidArgument, e)
           else
             (case put_t1 V key blob opts (new_entry (en_steady_us V (eg_world e)) opts blob) e of
                (True, entry, e) \<Rightarrow> map_option (Pair kOk) (put_commit V key entry e)
              | (False, entry, e) \<Rightarrow>
                  (case put_t2 V key blob opts entry e of
                     None \<Rightarrow> None
                   | Some (Inl s, e) \<Rightarrow> Some (s, e)
                   | Some (Inr entry, e) \<Rightarrow> map_option (Pair kOk) (put_commit V key entry e))))"

text \<open>The location of a T2 entry as \<open>get\<close> rebuilds it.\<close>

definition entry_location :: "IndexEntry \<Rightarrow> BlobLocation" where
  "entry_location entry =
     \<lparr>bl_segment_id = unat (ie_segment_id entry), bl_offset = unat (ie_address entry), bl_length = unat (ie_length entry),
      bl_disk_size = wrap32 (entry_disk_size (unat (ie_length entry)))\<rparr>"

text \<open>The bookkeeping at the end of \<open>get\<close>.\<close>

definition get_finish :: "('m, 'w) engine_env \<Rightarrow> StorageKey \<Rightarrow> ('m, 'w) AttentionDBEngine \<Rightarrow> ('m, 'w) AttentionDBEngine" where
  "get_finish V key e =
     (let us = en_elapsed_us V (eg_world e)
      in set_stats (\<lambda>s. s\<lparr>ps_gets := ps_gets s + 1, ps_get_latency_sum_us := ps_get_latency_sum_us s + us,
                          ps_get_latency_max_us := (if us > ps_get_latency_max_us s then us else ps_get_latency_max_us s)\<rparr>)
           (e\<lparr>eg_index := snd (update_fn (en_ck V) key (touch (en_steady_us V (eg_world e))) (eg_index e)),
              eg_checkpoint := mark_dirty (eg_checkpoint e)\<rparr>))"

text \<open>What \<open>get\<close> does with the copy of the entry it found. No lock is held between the two.\<close>

definition get_entry :: "('m, 'w) engine_env \<Rightarrow> StorageKey \<Rightarrow> nat \<Rightarrow> IndexEntry \<Rightarrow> ('m, 'w) AttentionDBEngine \<Rightarrow>
    (Status \<times> bytes) \<times> ('m, 'w) AttentionDBEngine" where
  "get_entry V key buf_len entry e =
     (if ie_tier entry = tier_code kT1Dram \<and> t1_allocator e \<noteq> None then
        (if unat (ie_length entry) > buf_len then ((kBufferTooSmall, []), e)
         else
           ((kOk, mem_read (eg_memory e) (unat (ie_address entry)) (unat (ie_length entry))),
            get_finish V key
              (set_stats (\<lambda>s. s\<lparr>ps_t1_hits := ps_t1_hits s + 1\<rparr>)
                (e\<lparr>t1_eviction := on_access (en_steady_us V (eg_world e)) key (ie_recompute_cost entry)
                                    (chunk_index key) (t1_eviction e)\<rparr>))))
      else if ie_tier entry = tier_code kT2Nvme \<and> t2_store e \<noteq> None then
        (case blob_read (en_store V) (entry_location entry) buf_len (the (t2_store e), eg_world e) of
           ((s, data), w) \<Rightarrow>
             let e = e\<lparr>eg_world := w\<rparr>;
                 e = (if s = kOk
                      then set_stats (\<lambda>s. s\<lparr>ps_t2_hits := ps_t2_hits s + 1\<rparr>)
                             (e\<lparr>t2_eviction := on_access (en_steady_us V w) key (ie_recompute_cost entry)
                                                 (chunk_index key) (t2_eviction e)\<rparr>)
                      else e)
             in ((s, data), get_finish V key e))
      else ((kNotFound, []), get_finish V key (set_stats (\<lambda>s. s\<lparr>ps_misses := ps_misses s + 1\<rparr>) e)))"

definition engine_get :: "('m, 'w) engine_env \<Rightarrow> StorageKey \<Rightarrow> nat \<Rightarrow> ('m, 'w) AttentionDBEngine \<Rightarrow>
    (Status \<times> bytes) \<times> ('m, 'w) AttentionDBEngine" where
  "engine_get V key buf_len e =
     (if \<not> eg_opened e then ((kShutdown, []), e)
      else
        (case index_find (en_ck V) (eg_index e) key of
           None \<Rightarrow>
             ((kNotFound, []), log_at V (\<lambda>now. log_debug now ''get_miss'' [])
                (set_stats (\<lambda>s. s\<lparr>ps_misses := ps_misses s + 1, ps_gets := ps_gets s + 1\<rparr>) e))
         | Some entry \<Rightarrow> get_entry V key buf_len entry e))"

definition engine_contains :: "('m, 'w) engine_env \<Rightarrow> StorageKey \<Rightarrow> ('m, 'w) AttentionDBEngine \<Rightarrow> bool" where
  "engine_contains V key e = (if \<not> eg_opened e then False else index_contains (en_ck V) (eg_index e) key)"

text \<open>The rest of \<open>del\<close> after its lookup, again without a lock.\<close>

definition del_entry :: "('m, 'w) engine_env \<Rightarrow> StorageKey \<Rightarrow> IndexEntry \<Rightarrow> ('m, 'w) AttentionDBEngine \<Rightarrow> ('m, 'w) AttentionDBEngine" where
  "del_entry V key entry e =
     (let e = (if ie_tier entry = tier_code kT1Dram
               then e\<lparr>t1_allocator := map_option (free_by_ptr (unat (ie_address entry))) (t1_allocator e)\<rparr> else e);
          e = (if ie_tier entry = tier_code kT2Nvme
               then e\<lparr>t2_store := map_option (mark_dead (entry_location entry)) (t2_store e)\<rparr> else e)
      in e\<lparr>eg_index := snd (index_erase (en_ck V) key (eg_index e)),
           t1_eviction := on_remove key (t1_eviction e), t2_eviction := on_remove key (t2_eviction e),
           eg_checkpoint := mark_dirty (eg_checkpoint e)\<rparr>)"

definition engine_del :: "('m, 'w) engine_env \<Rightarrow> StorageKey \<Rightarrow> ('m, 'w) AttentionDBEngine \<Rightarrow> Status \<times> ('m, 'w) AttentionDBEngine" where
  "engine_del V key e =
     (if \<not> eg_opened e then (kShutdown, e)
      else
        (case index_find (en_ck V) (eg_index e) key of
           None \<Rightarrow> (kNotFound, e)
         | Some entry \<Rightarrow> (kOk, del_entry V key entry e)))"

section \<open>Statistics\<close>

record EngineStats =
  es_t1_total_bytes :: nat
  es_t1_used_bytes :: nat
  es_t2_total_bytes_on_disk :: "64 word"
  es_t2_num_segments :: "32 word"
  es_index_entries :: nat
  es_eviction_protected :: nat
  es_eviction_probationary :: nat
  es_admission_evaluated :: nat
  es_admission_rejected :: nat
  es_last_checkpoint_entries :: "64 word"
  es_last_checkpoint_duration_ms :: "64 word"

text \<open>\<open>None\<close> when a member that was never created is dereferenced.\<close>

definition engine_stats :: "('m, 'w) engine_env \<Rightarrow> ('m, 'w) AttentionDBEngine \<Rightarrow> EngineStats option" where
  "engine_stats V e =
     (if \<not> eg_built e then None
      else Some
        \<lparr>es_t1_total_bytes = (case t1_allocator e of None \<Rightarrow> 0 | Some a \<Rightarrow> total_capacity a),
         es_t1_used_bytes = (case t1_allocator e of None \<Rightarrow> 0 | Some a \<Rightarrow> used_bytes a),
         es_t2_total_bytes_on_disk = (case t2_store e of None \<Rightarrow> 0 | Some s \<Rightarrow> st_total_bytes_on_disk (blob_stats s)),
         es_t2_num_segments = (case t2_store e of None \<Rightarrow> 0 | Some s \<Rightarrow> st_num_segments (blob_stats s)),
         es_index_entries = index_size (en_ck V) (eg_index e),
         es_eviction_protected = wrap64 (protected_size (t1_eviction e) + protected_size (t2_eviction e)),
         es_eviction_probationary = wrap64 (probationary_size (t1_eviction e) + probationary_size (t2_eviction e)),
         es_admission_evaluated = total_evaluated (eg_admission e),
         es_admission_rejected = total_rejected (eg_admission e),
         es_last_checkpoint_entries = last_entries (eg_checkpoint e),
         es_last_checkpoint_duration_ms = last_duration_ms (eg_checkpoint e)\<rparr>)"

end
