(* ===== verification/Blob_Backend.thy ===== *)
theory Blob_Backend
  imports Blob_Runs Engine
begin

text \<open>
  The blob store as the engine uses it: one write at a time, each of which returns with a
  location, and reads of locations. The interface speaks of the set of acknowledged pairs of
  location and blob; the detailed store of \<open>Blob_Log\<close> provides it.
\<close>

section \<open>The interface\<close>

locale blob_backend =
  fixes ok :: "(BlobLocation \<times> bytes) set \<Rightarrow> 's \<Rightarrow> bool"
    and fits :: "bytes \<Rightarrow> bool"
    and ids :: "'s \<Rightarrow> nat"
    and store :: "StorageKey \<Rightarrow> bytes \<Rightarrow> 32 word \<Rightarrow> 's \<Rightarrow> write_outcome \<times> 's"
    and fetch :: "BlobLocation \<Rightarrow> nat \<Rightarrow> 's \<Rightarrow> (Status \<times> bytes) \<times> 's"
  assumes store_ok: "ok A s \<Longrightarrow> fits data \<Longrightarrow> ids s < UINT32_MAX \<Longrightarrow>
      \<exists>sid off s'. store key data checksum s =
        (Returned kOk (Some (make_location sid off (length data) (entry_disk_size (length data)))), s') \<and>
        sid < 2 ^ 32 \<and> off < 2 ^ 64 \<and> ids s' \<le> Suc (ids s) \<and>
        ok (insert (make_location sid off (length data) (entry_disk_size (length data)), data) A) s'"
    and fetch_ok: "ok A s \<Longrightarrow> (loc, data) \<in> A \<Longrightarrow>
      fst (fetch loc n s) = (if length data \<le> n then (kOk, data) else (kBufferTooSmall, []))"
    and fetch_keeps: "ok A s \<Longrightarrow> ok A (snd (fetch loc n s)) \<and> ids (snd (fetch loc n s)) = ids s"
    and fits_size: "fits data \<Longrightarrow> length data < 2 ^ 32"
begin

text \<open>A blob that was stored is fetched, also after further writes.\<close>

lemma store_fetch:
  assumes "ok A s" and "fits data" and "ids s < UINT32_MAX"
  shows "\<exists>loc s'. store key data checksum s = (Returned kOk (Some loc), s') \<and>
    fst (fetch loc (length data) s') = (kOk, data)"
  using store_ok [OF assms, of key checksum] fetch_ok by fastforce

end

section \<open>The store provides it\<close>

definition backend_ok :: "'w store_env \<Rightarrow> ('w \<Rightarrow> string \<rightharpoonup> bytes) \<Rightarrow> ('w \<Rightarrow> int \<rightharpoonup> string) \<Rightarrow> nat \<Rightarrow>
    (BlobLocation \<times> bytes) set \<Rightarrow> BlobStore \<times> 'w \<Rightarrow> bool" where
  "backend_ok env contents opened cap A st \<longleftrightarrow> reliable env contents opened \<and>
     (\<exists>E. store_inv cap False (opened (snd st)) (contents (snd st)) E (fst st) \<and> (\<forall>a \<in> A. logged E a))"

definition blob_fits :: "nat \<Rightarrow> bytes \<Rightarrow> bool" where
  "blob_fits cap data \<longleftrightarrow> data \<noteq> [] \<and> length data \<le> UINT32_MAX - 64 \<and> entry_disk_size (length data) \<le> cap"

definition fetch_blob :: "'w store_env \<Rightarrow> BlobLocation \<Rightarrow> nat \<Rightarrow> BlobStore \<times> 'w \<Rightarrow> (Status \<times> bytes) \<times> BlobStore \<times> 'w" where
  "fetch_blob env loc n st = (case blob_read env loc n st of (r, w) \<Rightarrow> (r, fst st, w))"

lemma stored_sid:
  assumes "store_inv cap waiting fds files (insert (sid, off, img) E) s" and "next_segment_id s \<le> n"
  shows "sid < n"
proof -
  note D = store_invD [OF assms(1)]
  have "below_end s (sid, off, img)" using log_invD(1) [OF D(5), of "(sid, off, img)"] by simp
  then obtain p g where "(p, g) \<in> set (segments s)" "si_id g = sid" by (auto simp: below_end_def)
  with D(2) assms(2) show ?thesis by (fastforce simp: segs_inv_def)
qed

lemma backend_ok_store:
  assumes rel: "reliable env contents opened" and old: "\<forall>a \<in> A. logged E a" and fits: "blob_fits cap data"
    and res: "length reserved = 10" and inv: "store_inv cap False (opened w') (contents w')
      (insert (sid, off, entry_image key data checksum sequence (entry_disk_size (length data)) reserved) E) s'"
  shows "backend_ok env contents opened cap
    (insert (make_location sid off (length data) (entry_disk_size (length data)), data) A) (s', w')"
proof -
  have cap: "cap < 2 ^ 32" using store_invD(1) [OF inv] by (simp add: config_ok_def)
  let ?s = "s'\<lparr>next_segment_id := 0\<rparr>"
  have wr: "writable cap ?s data" using fits by (simp add: blob_fits_def writable_def)
  note new = logged_new [OF wr cap res, where E = E and sid = sid and off = off and key = key and checksum = checksum
      and sequence = sequence]
  let ?E = "insert (sid, off, entry_image key data checksum sequence (entry_disk_size (length data)) reserved) E"
  have "logged ?E a" if "a \<in> A" for a using bspec [OF old that] by (rule logged_insert)
  with rel inv new show ?thesis unfolding backend_ok_def by auto
qed

text \<open>While the writer waits, two turns of the flush thread free a block.\<close>

lemma waiting_flush:
  assumes rel: "reliable env contents opened" and inv: "store_inv cap True (opened w) (contents w) E s"
    and q: "flush_queue s \<noteq> []" and fl: "flush_write env (apfst flush_take (flush_write env (s, w))) = (s', w')"
  shows "store_inv cap True (opened w') (contents w') E s'" and "free_pool s' \<noteq> []" and "next_segment_id s' = next_segment_id s"
proof -
  obtain s1 w1 where f1: "flush_write env (s, w) = (s1, w1)" by fastforce
  have f2: "flush_write env (flush_take s1, w1) = (s', w')" using fl f1 by simp
  note k1 = flush_write_keeps [OF f1] and k2 = flush_write_keeps [OF f2]
  have q1: "flush_queue s1 = flush_queue s"
    using f1 by (auto simp: flush_write_def Let_def split: option.splits prod.splits if_splits)
  have inv1: "store_inv cap True (opened w1) (contents w1) E s1" using rel inv f1 by (rule flush_write_inv)
  have "store_inv cap True (opened w1) (contents w1) E (flush_take s1)" using inv1 k1(3) by (rule flush_take_inv)
  from flush_write_inv [OF rel this f2] show "store_inv cap True (opened w') (contents w') E s'" .
  show "next_segment_id s' = next_segment_id s" using k1(2) k2(2) flush_take_keeps(2) by simp
  have "free_pool (flush_take s1) \<noteq> [] \<or> flushing_block (flush_take s1) \<noteq> None"
    using q q1 by (auto simp: flush_take_def Let_def split: list.splits)
  then show "free_pool s' \<noteq> []" using k2(4,5) by (cases "free_pool s'") auto
qed

lemma t2_write_ok:
  assumes ok: "backend_ok env contents opened cap A (s, w)" and fits: "blob_fits cap data"
    and ids: "next_segment_id s < UINT32_MAX"
  shows "\<exists>sid off s' w'. t2_write env key data checksum (s, w) =
      (Returned kOk (Some (make_location sid off (length data) (entry_disk_size (length data)))), s', w') \<and>
    sid < 2 ^ 32 \<and> off < 2 ^ 64 \<and> next_segment_id s' \<le> Suc (next_segment_id s) \<and>
    backend_ok env contents opened cap
      (insert (make_location sid off (length data) (entry_disk_size (length data)), data) A) (s', w')"
proof -
  let ?d = "entry_disk_size (length data)"
  from ok obtain E where rel: "reliable env contents opened"
    and inv: "store_inv cap False (opened w) (contents w) E s" and old: "\<forall>a \<in> A. logged E a"
    by (auto simp: backend_ok_def)
  have len: "length data \<le> UINT32_MAX - 64" "?d \<le> cap" using fits by (simp_all add: blob_fits_def)
  have "length data + 4160 \<le> 2 ^ 64" using len(1) by simp
  note d = entry_disk_size_bounds(1,3) [OF this]
  note B = blocks_invD [OF store_invD(3) [OF inv]]
  have caps: "\<forall>b \<in> set (all_blocks s). wb_capacity b = cap" using B(4) by (simp add: block_ok_def)
  have act: "\<forall>p. active_block s = Some p \<longrightarrow> p < length (all_blocks s)"
    using B(3) by (simp add: pending_blocks_alt opt_list_def)
  obtain r s1 w1 where bw: "blob_write env key data checksum (s, w) = (r, s1, w1)" by (metis prod_cases3)
  note loc = blob_write_loc [OF bw len(2) caps act]
  show ?thesis
  proof (cases rule: blob_write_inv [OF rel inv ids len bw, case_names stored waits])
    case (stored sid off reserved)
    have "t2_write env key data checksum (s, w) = (r, s1, w1)" using bw stored(1) by (simp add: t2_write_def)
    moreover have "sid < 2 ^ 32" using stored_sid [OF stored(3) loc(2)] ids by simp
    moreover have "off < 2 ^ 64" using loc(1) [OF stored(1)] by (simp add: make_location_def)
    ultimately show ?thesis
      using backend_ok_store [OF rel old fits stored(2,3)] stored(1) loc(2) by blast
  next
    case waits
    obtain s2 w2 where fl: "flush_write env (apfst flush_take (flush_write env (s1, w1))) = (s2, w2)" by fastforce
    have "flush_queue s1 \<noteq> []" using bw [unfolded waits(1)] by (rule blob_write_waits)
    note W = waiting_flush [OF rel waits(3) this fl [unfolded waits(2)]]
    have ids2: "next_segment_id s2 < UINT32_MAX" using W(3) waits(5) ids by simp
    obtain r' s3 w3 where wa: "write_acquire env key data checksum ?d (s2, w2) = (r', s3, w3)" by (metis prod_cases3)
    have tw: "t2_write env key data checksum (s, w) = (r', s3, w3)"
      using bw waits(1) fl wa by (simp add: t2_write_def)
    show ?thesis
    proof (rule write_acquire_inv [OF rel W(1,2) ids2 d len(2) wa])
      fix sid off reserved
      assume A: "r' = Returned kOk (Some (make_location sid off (length data) ?d))" "length reserved = 10"
        "store_inv cap False (opened w3) (contents w3)
          (insert (sid, off, entry_image key data checksum (write_sequence s2) ?d reserved) E) s3"
      note l = write_acquire_loc [OF wa]
      have "next_segment_id s3 \<le> Suc (next_segment_id s)" using l(2) W(3) waits(5) by simp
      moreover from this ids have "sid < 2 ^ 32" using stored_sid [OF A(3), of "Suc (next_segment_id s)"] by simp
      moreover have "off < 2 ^ 64" using l(1) [OF A(1)] by (simp add: make_location_def)
      ultimately show ?thesis using backend_ok_store [OF rel old fits A(2,3)] tw A(1) by blast
    qed
  qed
qed

lemma read_attempt_world:
  assumes "reliable env contents opened" and "read_attempt env loc n first s (s', w) = (r, w')"
  shows "contents w' = contents w \<and> opened w' = opened w"
  using assms(2) reliable_read [OF assms(1)]
  by (auto simp: read_attempt_def Let_def split: option.splits if_splits prod.splits)

lemma blob_read_world:
  assumes "reliable env contents opened" and "blob_read env loc n (s, w) = (r, w')"
  shows "contents w' = contents w \<and> opened w' = opened w"
  using assms(2) by (auto simp: blob_read_def split: prod.splits sum.splits dest!: read_attempt_world [OF assms(1)])

interpretation t2: blob_backend "backend_ok env contents opened cap" "blob_fits cap" "\<lambda>st. next_segment_id (fst st)"
  "t2_write env" "fetch_blob env" for env contents opened cap
proof (unfold_locales, goal_cases)
  case (1 A st data key checksum)
  then show ?case using t2_write_ok [of env contents opened cap A "fst st" "snd st" data key checksum] by auto
next
  case (2 A st loc data n)
  then obtain E where rel: "reliable env contents opened"
    and inv: "store_inv cap False (opened (snd st)) (contents (snd st)) E (fst st)" and "logged E (loc, data)"
    by (auto simp: backend_ok_def)
  then obtain sid off key checksum sequence reserved where
    loc: "loc = make_location sid off (length data) (entry_disk_size (length data))"
    and e: "(sid, off, entry_image key data checksum sequence (entry_disk_size (length data)) reserved) \<in> E"
    and L: "length reserved = 10" "data \<noteq> []" "length data \<le> UINT32_MAX - 64" "entry_disk_size (length data) < 2 ^ 32"
    by (auto simp: logged_def)
  have "length data + 4160 \<le> 2 ^ 64" using L(3) by simp
  from blob_read_stored [OF rel inv e L(1) entry_disk_size_bounds(1) [OF this] L(4,2), of n]
  show ?case unfolding fetch_blob_def loc by (cases st) (auto split: prod.splits)
next
  case (3 A st loc n)
  obtain r w' where rd: "blob_read env loc n (fst st, snd st) = (r, w')" by fastforce
  have "contents w' = contents (snd st) \<and> opened w' = opened (snd st)"
    using 3 by (intro blob_read_world [OF _ rd]) (auto simp: backend_ok_def)
  then show ?case using 3 rd by (simp add: fetch_blob_def backend_ok_def)
next
  case (4 data)
  then show ?case by (simp add: blob_fits_def)
qed

text \<open>The other operations of the engine on the store.\<close>

lemma backend_ok_flush:
  assumes "backend_ok env contents opened cap A (s, w)"
  shows "flushing_block s = None \<Longrightarrow> backend_ok env contents opened cap A (flush_take s, w)"
    and "backend_ok env contents opened cap A (flush_write env (s, w))"
proof -
  from assms obtain E where rel: "reliable env contents opened"
    and inv: "store_inv cap False (opened w) (contents w) E s" and old: "\<forall>a \<in> A. logged E a"
    by (auto simp: backend_ok_def)
  show "backend_ok env contents opened cap A (flush_take s, w)" if "flushing_block s = None"
    using rel old flush_take_inv [OF inv that] by (auto simp: backend_ok_def)
  obtain s' w' where fw: "flush_write env (s, w) = (s', w')" by fastforce
  from flush_write_inv [OF rel inv fw] rel old show "backend_ok env contents opened cap A (flush_write env (s, w))"
    by (auto simp: backend_ok_def fw)
qed

text \<open>Counting a dead entry changes nothing but a live count.\<close>

lemma mark_dead_segments:
  obtains f where "segments (mark_dead loc s) = map (\<lambda>(q, g). (q, f q g)) (segments s)"
    "\<And>q g. si_id (f q g) = si_id g \<and> si_fd (f q g) = si_fd g \<and> si_path (f q g) = si_path g \<and> si_write_offset (f q g) = si_write_offset g"
proof (cases "find_segment (bl_segment_id loc) (segments s)")
  case None
  then show ?thesis by (intro that [of "\<lambda>q g. g"]) (simp_all add: mark_dead_def case_prod_beta)
next
  case (Some p)
  then show ?thesis
    by (intro that [of "\<lambda>q g. if q = p then (if si_live_count g > 0 then g\<lparr>si_live_count := si_live_count g - 1\<rparr> else g) else g"])
      (auto simp: mark_dead_def update_segment_def)
qed

lemma mark_dead_frame:
  "bs_config (mark_dead loc s) = bs_config s" "seg_ptrs (mark_dead loc s) = seg_ptrs s"
  "active_segment (mark_dead loc s) = active_segment s" "next_segment_id (mark_dead loc s) = next_segment_id s"
  "active_block (mark_dead loc s) = active_block s" "flush_queue (mark_dead loc s) = flush_queue s"
  "free_pool (mark_dead loc s) = free_pool s" "all_blocks (mark_dead loc s) = all_blocks s"
  "flushing_block (mark_dead loc s) = flushing_block s" "flush_running (mark_dead loc s) = flush_running s"
  by (simp_all add: mark_dead_def update_segment_def split: option.splits)

lemma store_inv_mark_dead:
  assumes inv: "store_inv cap waiting fds files E s"
  shows "store_inv cap waiting fds files E (mark_dead loc s)"
proof (rule mark_dead_segments [of loc s])
  fix f
  assume seg: "segments (mark_dead loc s) = map (\<lambda>(q, g). (q, f q g)) (segments s)"
    and f: "\<And>q g. si_id (f q g) = si_id g \<and> si_fd (f q g) = si_fd g \<and> si_path (f q g) = si_path g \<and> si_write_offset (f q g) = si_write_offset g"
  note D = store_invD [OF inv]
  have mem: "(q, f q g) \<in> set (segments (mark_dead loc s))" if "(q, g) \<in> set (segments s)" for q g
    using that by (force simp: seg)
  have grow: "segs_grow s (mark_dead loc s)" unfolding segs_grow_def using mem f by fastforce
  have maps: "map fst (segments (mark_dead loc s)) = map fst (segments s)"
    "map (si_id \<circ> snd) (segments (mark_dead loc s)) = map (si_id \<circ> snd) (segments s)"
    "map (si_fd \<circ> snd) (segments (mark_dead loc s)) = map (si_fd \<circ> snd) (segments s)"
    using f by (auto simp: seg case_prod_beta)
  have "segs_inv fds (mark_dead loc s)"
    using D(2) f unfolding segs_inv_def maps mark_dead_frame by (auto simp: seg)
  moreover have "disk_inv files (mark_dead loc s)" using D(6) f unfolding disk_inv_def mark_dead_frame by (auto simp: seg)
  moreover have "config_ok cap (mark_dead loc s)" using D(1) by (simp add: config_ok_def mark_dead_frame)
  moreover have "pending_blocks (mark_dead loc s) = pending_blocks s" "owners waiting (mark_dead loc s) = owners waiting s"
    "held waiting (mark_dead loc s) = held waiting s"
    by (simp_all add: pending_blocks_def owners_def held_def mark_dead_frame)
  note lists = this
  have "blocks_inv cap waiting (mark_dead loc s)"
    using D(3) placed_grow [OF grow] unfolding blocks_inv_def lists mark_dead_frame by blast
  moreover have "active_inv cap (mark_dead loc s)"
    using D(4) f mem unfolding active_inv_def mark_dead_frame by metis
  moreover have "log_inv waiting files E (mark_dead loc s)"
    by (rule log_inv_frame [OF D(5) grow]) (simp_all add: lists mark_dead_frame)
  ultimately show ?thesis by (simp add: store_inv_def)
qed

lemma backend_ok_mark_dead:
  "backend_ok env contents opened cap A (s, w) \<Longrightarrow> backend_ok env contents opened cap A (mark_dead loc s, w)"
  using store_inv_mark_dead by (fastforce simp: backend_ok_def)

text \<open>The engine sets no rewrite callback: a turn of the collector only counts.\<close>

lemma gc_tick_counts:
  "gc_tick env None (s, w) = (s\<lparr>gc_cycles := gc_cycles s + of_nat (length (gc_candidates s))\<rparr>, w)"
proof -
  have "fold (\<lambda>sid st. case gc_compact_segment env None sid st of (s, w) \<Rightarrow> (s\<lparr>gc_cycles := gc_cycles s + 1\<rparr>, w)) ids (s, w) =
      (s\<lparr>gc_cycles := gc_cycles s + of_nat (length ids)\<rparr>, w)" for ids s
    by (induction ids arbitrary: s) (simp_all add: gc_compact_segment_def ac_simps)
  then show ?thesis by (simp add: gc_tick_def)
qed

lemma backend_ok_gc:
  "backend_ok env contents opened cap A (s, w) \<Longrightarrow> backend_ok env contents opened cap A (s\<lparr>gc_cycles := n\<rparr>, w)"
  by (simp add: backend_ok_def store_inv_def config_ok_def segs_inv_def blocks_inv_def active_inv_def log_inv_def disk_inv_def
      pending_blocks_def owners_def held_def placed_def below_end_def on_disk_def blank_def)

end
