(* ===== verification/Engine_Cache.thy ===== *)
theory Engine_Cache
  imports Blob_Backend
begin

text \<open>
  The cache contract of the engine: every entry of the index leads to the bytes of the last
  put of its key, in a live T1 slot of its own or at an acknowledged T2 location. The map
  \<open>kv\<close> holds the last put of each key; it is what a client remembers, not part of the engine.
\<close>

section \<open>Invariant\<close>

abbreviation look :: "('m, 'w) engine_env \<Rightarrow> ('m, 'w) AttentionDBEngine \<Rightarrow> StorageKey \<Rightarrow> IndexEntry option" where
  "look V e k \<equiv> index_find (en_ck V) (eg_index e) k"

abbreviation entry_ptr :: "IndexEntry \<Rightarrow> ptr" where
  "entry_ptr x \<equiv> unat (ie_address x)"

abbreviation entry_len :: "IndexEntry \<Rightarrow> nat" where
  "entry_len x \<equiv> unat (ie_length x)"

definition serves_t1 :: "(StorageKey \<rightharpoonup> bytes) \<Rightarrow> ('m, 'w) AttentionDBEngine \<Rightarrow> StorageKey \<Rightarrow> IndexEntry \<Rightarrow> bool" where
  "serves_t1 kv e k x \<longleftrightarrow> (\<exists>a. t1_allocator e = Some a \<and> entry_ptr x \<in> live a \<and> entry_len x \<le> room a (entry_ptr x)) \<and>
     kv k = Some (mem_read (eg_memory e) (entry_ptr x) (entry_len x))"

definition serves_t2 :: "(BlobLocation \<times> bytes) set \<Rightarrow> (StorageKey \<rightharpoonup> bytes) \<Rightarrow> ('m, 'w) AttentionDBEngine \<Rightarrow>
    StorageKey \<Rightarrow> IndexEntry \<Rightarrow> bool" where
  "serves_t2 A kv e k x \<longleftrightarrow> t2_store e \<noteq> None \<and> (\<exists>data. kv k = Some data \<and> (entry_location x, data) \<in> A)"

definition serves :: "(BlobLocation \<times> bytes) set \<Rightarrow> (StorageKey \<rightharpoonup> bytes) \<Rightarrow> ('m, 'w) AttentionDBEngine \<Rightarrow>
    StorageKey \<Rightarrow> IndexEntry \<Rightarrow> bool" where
  "serves A kv e k x \<longleftrightarrow> ie_tier x = tier_code kT1Dram \<and> serves_t1 kv e k x \<or>
     ie_tier x = tier_code kT2Nvme \<and> serves_t2 A kv e k x"

definition in_t1 :: "('m, 'w) engine_env \<Rightarrow> ('m, 'w) AttentionDBEngine \<Rightarrow> StorageKey \<Rightarrow> ptr \<Rightarrow> bool" where
  "in_t1 V e k p \<longleftrightarrow> (\<exists>x. look V e k = Some x \<and> ie_tier x = tier_code kT1Dram \<and> entry_ptr x = p)"

definition index_serves :: "('m, 'w) engine_env \<Rightarrow> (BlobLocation \<times> bytes) set \<Rightarrow> (StorageKey \<rightharpoonup> bytes) \<Rightarrow>
    ('m, 'w) AttentionDBEngine \<Rightarrow> bool" where
  "index_serves V A kv e \<longleftrightarrow> (\<forall>k x. look V e k = Some x \<longrightarrow> serves A kv e k x) \<and>
     (\<forall>k k' p. in_t1 V e k p \<longrightarrow> in_t1 V e k' p \<longrightarrow> k = k')"

definition parts_ok :: "('m, 'w) engine_env \<Rightarrow> ('w \<Rightarrow> string \<rightharpoonup> bytes) \<Rightarrow> ('w \<Rightarrow> int \<rightharpoonup> string) \<Rightarrow> nat \<Rightarrow>
    (BlobLocation \<times> bytes) set \<Rightarrow> ('m, 'w) AttentionDBEngine \<Rightarrow> bool" where
  "parts_ok V contents opened cap A e \<longleftrightarrow> cuckoo_laws (en_ck V) \<and> slru_inv (t1_eviction e) \<and> slru_inv (t2_eviction e) \<and>
     (\<forall>a. t1_allocator e = Some a \<longrightarrow> slab_inv a) \<and>
     (\<forall>st. t2_store e = Some st \<longrightarrow> backend_ok (en_store V) contents opened cap A (st, eg_world e))"

definition cache_inv :: "('m, 'w) engine_env \<Rightarrow> ('w \<Rightarrow> string \<rightharpoonup> bytes) \<Rightarrow> ('w \<Rightarrow> int \<rightharpoonup> string) \<Rightarrow> nat \<Rightarrow>
    (BlobLocation \<times> bytes) set \<Rightarrow> (StorageKey \<rightharpoonup> bytes) \<Rightarrow> ('m, 'w) AttentionDBEngine \<Rightarrow> bool" where
  "cache_inv V contents opened cap A kv e \<longleftrightarrow> parts_ok V contents opened cap A e \<and> index_serves V A kv e \<and>
     (\<forall>k data. kv k = Some data \<longrightarrow> blob_fits cap data)"

text \<open>Segment ids used so far.\<close>

definition ids_used :: "('m, 'w) AttentionDBEngine \<Rightarrow> nat" where
  "ids_used e = (case t2_store e of None \<Rightarrow> 0 | Some st \<Rightarrow> next_segment_id st)"

lemma cache_invD:
  assumes "cache_inv V contents opened cap A kv e"
  shows "cuckoo_laws (en_ck V)" "slru_inv (t1_eviction e)" "slru_inv (t2_eviction e)"
    and "t1_allocator e = Some a \<Longrightarrow> slab_inv a"
    and "t2_store e = Some st \<Longrightarrow> backend_ok (en_store V) contents opened cap A (st, eg_world e)"
    and "look V e k = Some x \<Longrightarrow> serves A kv e k x"
    and "in_t1 V e k p \<Longrightarrow> in_t1 V e k' p \<Longrightarrow> k = k'"
    and "kv k = Some data \<Longrightarrow> blob_fits cap data"
  using assms unfolding cache_inv_def parts_ok_def index_serves_def by blast+

lemma tier_codes [simp]: "tier_code kT1Dram \<noteq> tier_code kT2Nvme" "tier_code kT2Nvme \<noteq> tier_code kT1Dram"
  by simp_all

section \<open>Steps that leave the index alone\<close>

text \<open>What the index needs of the rest of the state.\<close>

lemma serves_frame:
  assumes "serves A kv e k x" and "A \<subseteq> A'" and "t2_store e \<noteq> None \<longrightarrow> t2_store e' \<noteq> None"
    and "\<And>a. t1_allocator e = Some a \<Longrightarrow> ie_tier x = tier_code kT1Dram \<Longrightarrow> entry_ptr x \<in> live a \<Longrightarrow>
      entry_len x \<le> room a (entry_ptr x) \<Longrightarrow>
      \<exists>a'. t1_allocator e' = Some a' \<and> entry_ptr x \<in> live a' \<and> room a' (entry_ptr x) = room a (entry_ptr x) \<and>
        mem_read (eg_memory e') (entry_ptr x) (entry_len x) = mem_read (eg_memory e) (entry_ptr x) (entry_len x)"
  shows "serves A' kv e' k x"
  using assms unfolding serves_def serves_t1_def serves_t2_def by fastforce

lemma cache_inv_frame:
  assumes inv: "cache_inv V contents opened cap A kv e" and parts: "parts_ok V contents opened cap A' e'"
    and idx: "eg_index e' = eg_index e" and "A \<subseteq> A'" and "t2_store e \<noteq> None \<longrightarrow> t2_store e' \<noteq> None"
    and "\<And>a k x. t1_allocator e = Some a \<Longrightarrow> look V e k = Some x \<Longrightarrow> ie_tier x = tier_code kT1Dram \<Longrightarrow> entry_ptr x \<in> live a \<Longrightarrow>
      entry_len x \<le> room a (entry_ptr x) \<Longrightarrow>
      \<exists>a'. t1_allocator e' = Some a' \<and> entry_ptr x \<in> live a' \<and> room a' (entry_ptr x) = room a (entry_ptr x) \<and>
        mem_read (eg_memory e') (entry_ptr x) (entry_len x) = mem_read (eg_memory e) (entry_ptr x) (entry_len x)"
  shows "cache_inv V contents opened cap A' kv e'"
proof -
  have "serves A' kv e' k x" if "look V e k = Some x" for k x
    using cache_invD(6) [OF inv that] assms(4,5) by (rule serves_frame) (rule assms(6) [OF _ that], assumption+)
  then show ?thesis
    using inv parts unfolding cache_inv_def index_serves_def in_t1_def idx by blast
qed

text \<open>Changes that touch neither allocator, memory nor index.\<close>

lemma cache_inv_same:
  assumes "cache_inv V contents opened cap A kv e" and "eg_index e' = eg_index e" "t1_allocator e' = t1_allocator e"
    "eg_memory e' = eg_memory e" "slru_inv (t1_eviction e')" "slru_inv (t2_eviction e')"
    "t2_store e \<noteq> None \<longrightarrow> t2_store e' \<noteq> None"
    "\<forall>st. t2_store e' = Some st \<longrightarrow> backend_ok (en_store V) contents opened cap A' (st, eg_world e')" "A \<subseteq> A'"
  shows "cache_inv V contents opened cap A' kv e'"
proof (rule cache_inv_frame [OF assms(1)])
  show "parts_ok V contents opened cap A' e'"
    using assms cache_invD(1,4) [OF assms(1)] by (simp add: parts_ok_def)
qed (use assms in auto)

section \<open>Changes of the index\<close>

lemma serves_index [simp]: "serves A kv (e\<lparr>eg_index := m\<rparr>) k x = serves A kv e k x"
  by (simp add: serves_def serves_t1_def serves_t2_def)

lemma serves_other: "k' \<noteq> k \<Longrightarrow> serves A (kv(k := v)) e k' x = serves A kv e k' x"
  by (simp add: serves_def serves_t1_def serves_t2_def)

lemma cache_inv_upsert:
  assumes inv: "cache_inv V contents opened cap A kv e" and x: "serves A (kv(k \<mapsto> data)) e k x"
    and fits: "blob_fits cap data"
    and own: "\<And>k'. ie_tier x = tier_code kT1Dram \<Longrightarrow> in_t1 V e k' (entry_ptr x) \<Longrightarrow> k' = k"
  shows "cache_inv V contents opened cap A (kv(k \<mapsto> data)) (e\<lparr>eg_index := upsert (en_ck V) k x (eg_index e)\<rparr>)"
    (is "cache_inv _ _ _ _ _ ?kv ?e")
proof -
  note D = cache_invD [OF inv]
  have find: "look V ?e k' = (if k' = k then Some x else look V e k')" for k' by (simp add: index_find_upsert [OF D(1)])
  have "serves A ?kv ?e k' y" if "look V ?e k' = Some y" for k' y
  proof (cases "k' = k")
    case True
    then show ?thesis using that x unfolding find by simp
  next
    case False
    then show ?thesis using that D(6) [of k' y] unfolding find by (simp add: serves_other)
  qed
  moreover have "k1 = k2" if "in_t1 V ?e k1 p" "in_t1 V ?e k2 p" for k1 k2 p
  proof -
    have "in_t1 V e k' p \<or> k' = k \<and> ie_tier x = tier_code kT1Dram \<and> p = entry_ptr x" if "in_t1 V ?e k' p" for k'
      using that unfolding in_t1_def find by (auto split: if_splits)
    then show ?thesis using that own D(7) by blast
  qed
  ultimately show ?thesis
    using inv fits unfolding cache_inv_def index_serves_def parts_ok_def by auto
qed

lemma cache_inv_erase:
  assumes inv: "cache_inv V contents opened cap A kv e" and "kv' = kv \<or> kv' = kv(k := None)"
  shows "cache_inv V contents opened cap A kv' (e\<lparr>eg_index := snd (index_erase (en_ck V) k (eg_index e))\<rparr>)"
    (is "cache_inv _ _ _ _ _ _ ?e")
proof -
  note D = cache_invD [OF inv]
  have find: "look V ?e k' = (if k' = k then None else look V e k')" for k' by (simp add: index_find_erase [OF D(1)])
  have "serves A kv' ?e k' y" if "look V ?e k' = Some y" for k' y
    using that assms(2) D(6) [of k' y] unfolding find by (auto simp: serves_other split: if_splits)
  moreover have "k1 = k2" if "in_t1 V ?e k1 p" "in_t1 V ?e k2 p" for k1 k2 p
  proof -
    have "in_t1 V e k' p" if "in_t1 V ?e k' p" for k' using that unfolding in_t1_def find by (auto split: if_splits)
    with that D(7) show ?thesis by blast
  qed
  moreover have "\<forall>k data. kv' k = Some data \<longrightarrow> blob_fits cap data" using assms(2) D(8) by (auto split: if_splits)
  ultimately show ?thesis
    using inv unfolding cache_inv_def index_serves_def parts_ok_def by auto
qed

text \<open>Freeing a slot that no entry refers to any more.\<close>

lemma cache_inv_free:
  assumes inv: "cache_inv V contents opened cap A kv e" and a: "t1_allocator e = Some a" and p: "p \<in> live a"
    and free: "\<And>k. \<not> in_t1 V e k p"
  shows "cache_inv V contents opened cap A kv (e\<lparr>t1_allocator := Some (free_by_ptr p a)\<rparr>)"
proof (rule cache_inv_frame [OF inv])
  note R = slab.release_live [OF cache_invD(4) [OF inv a] p]
  show "parts_ok V contents opened cap A (e\<lparr>t1_allocator := Some (free_by_ptr p a)\<rparr>)"
    using inv R by (simp add: cache_inv_def parts_ok_def)
  show "\<exists>a'. t1_allocator (e\<lparr>t1_allocator := Some (free_by_ptr p a)\<rparr>) = Some a' \<and> entry_ptr x \<in> live a' \<and>
      room a' (entry_ptr x) = room b (entry_ptr x) \<and>
      mem_read (eg_memory (e\<lparr>t1_allocator := Some (free_by_ptr p a)\<rparr>)) (entry_ptr x) (entry_len x) =
        mem_read (eg_memory e) (entry_ptr x) (entry_len x)"
    if "t1_allocator e = Some b" "look V e k = Some x" "ie_tier x = tier_code kT1Dram" "entry_ptr x \<in> live b" for b k x
  proof -
    have "entry_ptr x \<noteq> p" using free [of k] that(2,3) by (auto simp: in_t1_def)
    then show ?thesis using R that a by simp
  qed
qed simp_all

section \<open>Storing in T1\<close>

lemma allocate_valid:
  assumes "slab_inv a" and "allocate n a = (h, p, a')"
  shows "handle_valid h \<longleftrightarrow> p \<noteq> nullptr"
proof (cases "p = nullptr")
  case True
  with allocate_miss(2) [OF assms] show ?thesis by simp
next
  case False
  show ?thesis
  proof (cases rule: allocate_cases [OF assms(1), of n, case_names fail hit])
    case (hit i)
    with assms(2) False handle_valid_class [OF assms(1) hit(1)] show ?thesis by auto
  qed (use assms(2) False in simp)
qed

lemma live_less:
  assumes "slab_inv a" and "p \<in> live a"
  shows "p < 2 ^ 64"
proof -
  from assms(2) obtain i j where ij: "i < length (classes a)" "j < num_slots (classes a ! i)"
    and p: "p = slot_ptr (classes a ! i) j" by (auto simp: live_iff dest: allocatedD)
  note c = slab_invD(1) [OF assms(1) ij(1)]
  have "p \<in> region (classes a ! i)" using slot_in_region(2) [OF c ij(2)] p by simp
  then show ?thesis using c by (auto simp: region_def class_ok_def)
qed

lemma unat_of_nat_64: "n < 2 ^ 64 \<Longrightarrow> unat (of_nat n :: 64 word) = n"
  by (simp add: unat_of_nat take_bit_nat_eq_self)

lemma unat_of_nat_32: "n < 2 ^ 32 \<Longrightarrow> unat (of_nat n :: 32 word) = n"
  by (simp add: unat_of_nat take_bit_nat_eq_self)

lemma put_t1_stored:
  assumes inv: "cache_inv V contents opened cap A kv e" and pt: "put_t1 V key blob opts entry e = (True, x, e')"
    and len: "ie_length entry = of_nat (length blob)" "length blob < 2 ^ 32"
  shows "cache_inv V contents opened cap A kv e'" and "serves A (kv(key \<mapsto> blob)) e' key x"
    and "ie_tier x = tier_code kT1Dram" and "\<not> in_t1 V e' k (entry_ptr x)"
    and "t2_store e' = t2_store e" and "eg_opened e' = eg_opened e"
proof -
  note D = cache_invD [OF inv]
  from pt obtain a h p a' where a: "t1_allocator e = Some a" and al: "allocate (length blob) a = (h, p, a')"
    and h: "handle_valid h" and x: "x = entry\<lparr>ie_tier := tier_code kT1Dram, ie_address := of_nat p, ie_segment_id := 0\<rparr>"
    and e': "e' = e\<lparr>t1_allocator := Some a', eg_memory := mem_write (eg_memory e) p blob,
      t1_eviction := on_insert (en_steady_us V (eg_world e)) key (po_recompute_cost opts) (chunk_index key) (t1_eviction e)\<rparr>"
    by (auto simp: put_t1_def split: option.splits prod.splits if_splits)
  note si = D(4) [OF a]
  have p0: "p \<noteq> nullptr" using allocate_valid [OF si al] h by simp
  note H = slab.alloc_hit [OF si al p0]
  have p: "entry_ptr x = p" using H live_less [of a' p] by (simp add: x unat_of_nat_64)
  have lx: "entry_len x = length blob" using len by (simp add: x unat_of_nat_32)
  show "ie_tier x = tier_code kT1Dram" "t2_store e' = t2_store e" "eg_opened e' = eg_opened e" by (simp_all add: x e')
  show "serves A (kv(key \<mapsto> blob)) e' key x"
    using H unfolding serves_def serves_t1_def p lx by (simp add: x e' mem_read_write_same)
  have old: "entry_ptr y \<in> live a" if "look V e k = Some y" "ie_tier y = tier_code kT1Dram" for k y
    using D(6) [OF that(1)] that(2) a by (auto simp: serves_def serves_t1_def)
  show "\<not> in_t1 V e' k (entry_ptr x)"
    using old H unfolding p by (auto simp: in_t1_def e')
  show "cache_inv V contents opened cap A kv e'"
  proof (rule cache_inv_frame [OF inv])
    show "parts_ok V contents opened cap A e'"
      using inv H slru.invar_ins [OF D(2)] by (simp add: cache_inv_def parts_ok_def e')
    show "\<exists>a'. t1_allocator e' = Some a' \<and> entry_ptr y \<in> live a' \<and> room a' (entry_ptr y) = room b (entry_ptr y) \<and>
        mem_read (eg_memory e') (entry_ptr y) (entry_len y) = mem_read (eg_memory e) (entry_ptr y) (entry_len y)"
      if "t1_allocator e = Some b" "look V e k = Some y" "entry_ptr y \<in> live b" "entry_len y \<le> room b (entry_ptr y)" for b k y
      using that a H slab.alloc_write_isolated [OF si al p0, of "entry_ptr y" blob "entry_len y"] by (simp add: e')
  qed (simp_all add: e')
qed

lemma put_t1_missed:
  assumes inv: "cache_inv V contents opened cap A kv e" and pt: "put_t1 V key blob opts entry e = (False, x, e')"
  shows "e' = e" and "x = entry"
proof -
  note D = cache_invD [OF inv]
  have "e' = e \<and> x = entry"
  proof (cases "t1_allocator e")
    case None
    with pt show ?thesis by (simp add: put_t1_def)
  next
    case (Some a)
    obtain h p a' where al: "allocate (length blob) a = (h, p, a')" by (metis prod_cases3)
    with pt Some have "\<not> handle_valid h" "e' = e\<lparr>t1_allocator := Some a'\<rparr>" "x = entry"
      by (auto simp: put_t1_def split: if_splits)
    moreover have "a' = a"
      using allocate_valid [OF D(4) [OF Some] al] allocate_miss(1) [OF D(4) [OF Some] al] \<open>\<not> handle_valid h\<close> by simp
    ultimately show ?thesis using Some by simp
  qed
  then show "e' = e" "x = entry" by simp_all
qed

section \<open>Storing in T2\<close>

lemma entry_location_to_t2:
  assumes "ie_length x = of_nat (length data)" and "length data < 2 ^ 32" and "sid < 2 ^ 32" and "off < 2 ^ 64"
  shows "entry_location (to_t2 (make_location sid off (length data) (entry_disk_size (length data))) x) =
    make_location sid off (length data) (entry_disk_size (length data))"
  using assms by (simp add: entry_location_def to_t2_def make_location_def unat_of_nat_32 unat_of_nat_64 wrap32_id)

text \<open>
  A blob written to T2: the new entry serves it, and nothing else changes. The write itself
  cannot fail.
\<close>

lemma t2_write_stored:
  assumes inv: "cache_inv V contents opened cap A kv e" and st: "t2_store e = Some st"
    and fits: "blob_fits cap data" and ids: "ids_used e < UINT32_MAX" and len: "ie_length x = of_nat (length data)"
  obtains loc st' w' A' where
    "t2_write (en_store V) key data checksum (st, eg_world e) = (Returned kOk (Some loc), st', w')"
    "next_segment_id st' \<le> Suc (ids_used e)"
    "\<And>ev. slru_inv ev \<Longrightarrow> cache_inv V contents opened cap A' kv (e\<lparr>t2_store := Some st', eg_world := w', t2_eviction := ev\<rparr>)"
    "\<And>ev. serves A' (kv(k \<mapsto> data)) (e\<lparr>t2_store := Some st', eg_world := w', t2_eviction := ev\<rparr>) k (to_t2 loc x)"
    "A \<subseteq> A'"
proof -
  note D = cache_invD [OF inv]
  have ids': "next_segment_id (fst (st, eg_world e)) < UINT32_MAX" using ids st by (simp add: ids_used_def)
  from t2.store_ok [OF D(5) [OF st] fits ids', of key checksum]
  obtain sid off s' where w: "t2_write (en_store V) key data checksum (st, eg_world e) =
      (Returned kOk (Some (make_location sid off (length data) (entry_disk_size (length data)))), s')"
    and b: "sid < 2 ^ 32" "off < 2 ^ 64" and n: "next_segment_id (fst s') \<le> Suc (next_segment_id st)"
    and ok: "backend_ok (en_store V) contents opened cap
      (insert (make_location sid off (length data) (entry_disk_size (length data)), data) A) s'" by auto
  let ?loc = "make_location sid off (length data) (entry_disk_size (length data))"
  show thesis
  proof (rule that)
    show "t2_write (en_store V) key data checksum (st, eg_world e) = (Returned kOk (Some ?loc), fst s', snd s')"
      using w by simp
    show "next_segment_id (fst s') \<le> Suc (ids_used e)" using n st by (simp add: ids_used_def)
    show "cache_inv V contents opened cap (insert (?loc, data) A) kv
        (e\<lparr>t2_store := Some (fst s'), eg_world := snd s', t2_eviction := ev\<rparr>)" if "slru_inv ev" for ev
      by (rule cache_inv_same [OF inv]) (use that ok D(2) in auto)
    show "serves (insert (?loc, data) A) (kv(k \<mapsto> data)) (e\<lparr>t2_store := Some (fst s'), eg_world := snd s', t2_eviction := ev\<rparr>)
        k (to_t2 ?loc x)" for ev
      using entry_location_to_t2 [OF len t2.fits_size [OF fits] b]
      by (simp add: serves_def serves_t2_def) (simp add: to_t2_def)
  qed blast
qed

section \<open>Eviction\<close>

lemma cache_inv_logger [simp]:
  "cache_inv V contents opened cap A kv (e\<lparr>eg_logger := l\<rparr>) = cache_inv V contents opened cap A kv e"
  "cache_inv V contents opened cap A kv (e\<lparr>eg_checkpoint := c\<rparr>) = cache_inv V contents opened cap A kv e"
  "cache_inv V contents opened cap A kv (e\<lparr>eg_admission := ad\<rparr>) = cache_inv V contents opened cap A kv e"
  "cache_inv V contents opened cap A kv (e\<lparr>eg_files := fs\<rparr>) = cache_inv V contents opened cap A kv e"
  "cache_inv V contents opened cap A kv (e\<lparr>eg_opened := b\<rparr>) = cache_inv V contents opened cap A kv e"
  by (simp_all add: cache_inv_def parts_ok_def index_serves_def serves_def serves_t1_def serves_t2_def in_t1_def)

lemma ids_used_simps [simp]:
  "ids_used (e\<lparr>eg_logger := l\<rparr>) = ids_used e" "ids_used (e\<lparr>eg_checkpoint := c\<rparr>) = ids_used e"
  "ids_used (e\<lparr>eg_admission := ad\<rparr>) = ids_used e" "ids_used (e\<lparr>eg_index := m\<rparr>) = ids_used e"
  "ids_used (e\<lparr>t1_allocator := al\<rparr>) = ids_used e" "ids_used (e\<lparr>t1_eviction := ev\<rparr>) = ids_used e"
  "ids_used (e\<lparr>t2_store := Some st, eg_world := w, t2_eviction := ev\<rparr>) = next_segment_id st"
  by (simp_all add: ids_used_def)

text \<open>
  Every entry is worth a write to T2, and a step that loses no entry: the keys of the index and
  the costs of their entries stay.
\<close>

definition min_cost :: "('m, 'w) AttentionDBEngine \<Rightarrow> 32 word" where
  "min_cost e = ac_min_recompute_cost (cfg_admission (eg_config e))"

definition costs :: "('m, 'w) engine_env \<Rightarrow> ('m, 'w) AttentionDBEngine \<Rightarrow> StorageKey \<Rightarrow> 32 word option" where
  "costs V e k = map_option ie_recompute_cost (look V e k)"

definition worthy :: "('m, 'w) engine_env \<Rightarrow> ('m, 'w) AttentionDBEngine \<Rightarrow> bool" where
  "worthy V e \<longleftrightarrow> t2_store e \<noteq> None \<and> (\<forall>k c. costs V e k = Some c \<longrightarrow> min_cost e \<le> c)"

definition keeps :: "('m, 'w) engine_env \<Rightarrow> ('m, 'w) AttentionDBEngine \<Rightarrow> ('m, 'w) AttentionDBEngine \<Rightarrow> bool" where
  "keeps V e e' \<longleftrightarrow> costs V e' = costs V e \<and> eg_config e' = eg_config e \<and> ad_config (eg_admission e') = ad_config (eg_admission e) \<and>
     eg_opened e' = eg_opened e \<and> (t2_store e \<noteq> None \<longrightarrow> t2_store e' \<noteq> None)"

lemma keeps_refl [simp]: "keeps V e e"
  by (simp add: keeps_def)

lemma keeps_trans: "keeps V e e' \<Longrightarrow> keeps V e' e'' \<Longrightarrow> keeps V e e''"
  by (simp add: keeps_def)

lemma keeps_worthy: "keeps V e e' \<Longrightarrow> worthy V e \<Longrightarrow> worthy V e'"
  by (simp add: keeps_def worthy_def min_cost_def)

lemma demote_ok:
  assumes inv: "cache_inv V contents opened cap A kv e" and ids: "ids_used e < UINT32_MAX"
    and x: "look V e k = Some x" "ie_tier x = tier_code kT1Dram"
  obtains demoted e' A' where "demote V k x e = Some (demoted, e')" "cache_inv V contents opened cap A' kv e'"
    "ids_used e' \<le> Suc (ids_used e)" "demoted \<Longrightarrow> \<not> in_t1 V e' k p" "\<And>k'. k' \<noteq> k \<Longrightarrow> in_t1 V e' k' p = in_t1 V e k' p"
    "\<not> demoted \<Longrightarrow> eg_index e' = eg_index e" "worthy V e \<longrightarrow> demoted \<and> keeps V e e'" "A \<subseteq> A'"
proof -
  note D = cache_invD [OF inv]
  let ?data = "mem_read (eg_memory e) (entry_ptr x) (entry_len x)"
  have kv: "kv k = Some ?data" using D(6) [OF x(1)] x(2) by (auto simp: serves_def serves_t1_def)
  have len: "ie_length x = of_nat (length ?data)" by simp
  show thesis
  proof (cases "t2_store e = None \<or> ie_recompute_cost x < ac_min_recompute_cost (cfg_admission (eg_config e))")
    case True
    then have "demote V k x e = Some (False, e)" by (auto simp: demote_def split: option.splits)
    moreover have "\<not> worthy V e" using True x(1) by (force simp: worthy_def costs_def min_cost_def)
    ultimately show thesis using inv by (intro that [of False e A]) simp_all
  next
    case False
    then obtain st where st: "t2_store e = Some st" by auto
    show thesis
    proof (rule t2_write_stored [OF inv st D(8) [OF kv] ids len, where key = k and checksum = "ie_checksum x" and k = k])
      fix loc st' w' A'
      assume W: "t2_write (en_store V) k ?data (ie_checksum x) (st, eg_world e) = (Returned kOk (Some loc), st', w')"
        "next_segment_id st' \<le> Suc (ids_used e)"
        "\<And>ev. slru_inv ev \<Longrightarrow> cache_inv V contents opened cap A' kv (e\<lparr>t2_store := Some st', eg_world := w', t2_eviction := ev\<rparr>)"
        "\<And>ev. serves A' (kv(k \<mapsto> ?data)) (e\<lparr>t2_store := Some st', eg_world := w', t2_eviction := ev\<rparr>) k (to_t2 loc x)"
        "A \<subseteq> A'"
      define ev where "ev = on_insert (en_steady_us V w') k (ie_recompute_cost x) (chunk_index k) (t2_eviction e)"
      let ?e = "e\<lparr>t2_store := Some st', eg_world := w', t2_eviction := ev\<rparr>"
      let ?e' = "?e\<lparr>eg_index := upsert (en_ck V) k (to_t2 loc x) (eg_index ?e)\<rparr>"
      have dm: "demote V k x e = Some (True, ?e')"
        using False st W(1) by (simp add: demote_def ev_def)
      have ev: "slru_inv ev" unfolding ev_def using D(3) by (rule slru.invar_ins)
      have "cache_inv V contents opened cap A' (kv(k \<mapsto> ?data)) ?e'"
        using W(3) [OF ev] W(4) D(8) [OF kv] by (rule cache_inv_upsert) (simp add: to_t2_def)
      then have "cache_inv V contents opened cap A' kv ?e'" unfolding fun_upd_idem [of kv k "Some ?data", OF kv] .
      moreover have "look V ?e' k' = (if k' = k then Some (to_t2 loc x) else look V e k')" for k'
        by (simp add: index_find_upsert [OF D(1)])
      then have "\<not> in_t1 V ?e' k p" "\<And>k'. k' \<noteq> k \<Longrightarrow> in_t1 V ?e' k' p = in_t1 V e k' p"
        "costs V ?e' = costs V e"
        unfolding in_t1_def costs_def using x(1) by (auto simp: to_t2_def)
      ultimately show thesis using dm W(2,5) by (intro that [of True ?e' A']) (simp_all add: keeps_def)
    qed
  qed
qed

lemma evict_one_ok:
  assumes inv: "cache_inv V contents opened cap A kv e" and ids: "ids_used e < UINT32_MAX"
  obtains e' A' where "evict_one V k e = Some e'" "cache_inv V contents opened cap A' kv e'"
    "ids_used e' \<le> Suc (ids_used e)" "worthy V e \<longrightarrow> keeps V e e'" "A \<subseteq> A'"
proof -
  note D = cache_invD [OF inv]
  show thesis
  proof (cases "\<exists>x. look V e k = Some x \<and> ie_tier x = tier_code kT1Dram")
    case False
    then have "evict_one V k e = Some e" by (auto simp: evict_one_def split: option.splits)
    with inv show thesis by (intro that [of e A]) simp_all
  next
    case True
    then obtain x where x: "look V e k = Some x" "ie_tier x = tier_code kT1Dram" by blast
    from D(6) [OF x(1)] x(2) obtain a where a: "t1_allocator e = Some a" and p: "entry_ptr x \<in> live a"
      by (auto simp: serves_def serves_t1_def)
    have mine: "k' = k" if "in_t1 V e k' (entry_ptr x)" for k' using D(7) [OF that, of k] x by (auto simp: in_t1_def)
    show thesis
    proof (rule demote_ok [OF inv ids x, where p = "entry_ptr x"])
      fix demoted e1 A'
      assume E: "demote V k x e = Some (demoted, e1)" "cache_inv V contents opened cap A' kv e1"
        "ids_used e1 \<le> Suc (ids_used e)" "demoted \<Longrightarrow> \<not> in_t1 V e1 k (entry_ptr x)"
        "\<And>k'. k' \<noteq> k \<Longrightarrow> in_t1 V e1 k' (entry_ptr x) = in_t1 V e k' (entry_ptr x)"
        "worthy V e \<longrightarrow> demoted \<and> keeps V e e1" "A \<subseteq> A'"
      define e2 where "e2 = (if demoted then e1 else e1\<lparr>eg_index := snd (index_erase (en_ck V) k (eg_index e1))\<rparr>)"
      have a2: "t1_allocator e2 = Some a" using demote_frame [OF E(1)] a by (simp add: e2_def)
      have inv2: "cache_inv V contents opened cap A' kv e2"
        using E(2) cache_inv_erase [OF E(2), of kv k] by (simp add: e2_def)
      have gone: "\<not> in_t1 V e2 k' (entry_ptr x)" for k'
      proof
        assume "in_t1 V e2 k' (entry_ptr x)"
        then have "in_t1 V e1 k' (entry_ptr x)" "k' = k \<Longrightarrow> demoted"
          by (auto simp: e2_def in_t1_def index_find_erase [OF D(1)] split: if_splits)
        then show False using E(4) E(5) [of k'] mine [of k'] by (cases "k' = k") simp_all
      qed
      have "cache_inv V contents opened cap A' kv (e2\<lparr>t1_allocator := Some (free_by_ptr (entry_ptr x) a)\<rparr>)"
        using inv2 a2 p gone by (rule cache_inv_free)
      then have "cache_inv V contents opened cap A' kv (set_stats (\<lambda>s. s\<lparr>ps_evictions := ps_evictions s + 1\<rparr>)
          (e2\<lparr>t1_allocator := Some (free_by_ptr (entry_ptr x) a)\<rparr>))" by simp
      moreover have ev: "evict_one V k e = Some (set_stats (\<lambda>s. s\<lparr>ps_evictions := ps_evictions s + 1\<rparr>)
          (e2\<lparr>t1_allocator := Some (free_by_ptr (entry_ptr x) a)\<rparr>))"
        using x E(1) a2 by (simp add: evict_one_def Let_def e2_def)
      moreover have "ids_used e2 = ids_used e1" by (simp add: e2_def)
      moreover have "worthy V e \<longrightarrow> keeps V e (set_stats (\<lambda>s. s\<lparr>ps_evictions := ps_evictions s + 1\<rparr>)
          (e2\<lparr>t1_allocator := Some (free_by_ptr (entry_ptr x) a)\<rparr>))"
        using E(6) by (auto simp: keeps_def e2_def costs_def fun_eq_iff)
      ultimately show thesis using E(3,7) by (intro that [OF ev, of A']) simp_all
    qed
  qed
qed

text \<open>Segment ids used, with one for each tracked key that may still be demoted; enough are left when this is no more than 32 bits count.\<close>

definition spent :: "('m, 'w) AttentionDBEngine \<Rightarrow> nat" where
  "spent e = ids_used e + length (protected_list (t1_eviction e)) + length (probationary_list (t1_eviction e))"

definition ids_left :: "('m, 'w) AttentionDBEngine \<Rightarrow> bool" where
  "ids_left e \<longleftrightarrow> spent e < UINT32_MAX"

lemma evict_if_needed_ok:
  assumes "cache_inv V contents opened cap A kv e" and "ids_left e"
  shows "\<exists>e' A'. evict_if_needed V e = Some e' \<and> cache_inv V contents opened cap A' kv e' \<and> (worthy V e \<longrightarrow> keeps V e e') \<and>
    spent e' \<le> spent e \<and> A \<subseteq> A'"
  using assms
proof (induction V e arbitrary: A rule: evict_if_needed.induct)
  case (1 V e)
  note D = cache_invD [OF 1(2)]
  show ?case
  proof (cases "\<exists>a. t1_allocator e = Some a \<and> over_limit a")
    case False
    then have "evict_if_needed V e = Some e" by (subst evict_if_needed.simps) (auto split: option.splits)
    with 1(2) show ?thesis using keeps_refl by blast
  next
    case True
    then obtain a where a: "t1_allocator e = Some a" "over_limit a" by blast
    obtain r ev where ev: "evict (t1_eviction e) = (r, ev)" by fastforce
    have "slru_inv ev" using slru.invar_evi [OF D(2)] ev by simp
    then have inv1: "cache_inv V contents opened cap A kv (e\<lparr>t1_eviction := ev\<rparr>)"
      by (intro cache_inv_same [OF 1(2)]) (use D(3,5) in auto)
    have "spent (e\<lparr>t1_eviction := ev\<rparr>) \<le> spent e" if "r = None"
      using ev that by (auto simp: evict_def Let_def spent_def split: option.splits)
    note none = this
    have keep1: "keeps V e (e\<lparr>t1_eviction := ev\<rparr>)" by (simp add: keeps_def costs_def fun_eq_iff)
    show ?thesis
    proof (cases r)
      case None
      then have "evict_if_needed V e = Some (e\<lparr>t1_eviction := ev\<rparr>)"
        using a ev by (subst evict_if_needed.simps) simp
      with inv1 keep1 none [OF None] show ?thesis by blast
    next
      case (Some k)
      note shorter = evict_length [OF ev [unfolded Some]]
      have "ids_used (e\<lparr>t1_eviction := ev\<rparr>) < UINT32_MAX" using 1(3) by (simp add: ids_left_def spent_def)
      from inv1 this obtain e' A' where E: "evict_one V k (e\<lparr>t1_eviction := ev\<rparr>) = Some e'"
        "cache_inv V contents opened cap A' kv e'" "ids_used e' \<le> Suc (ids_used e)"
        "worthy V (e\<lparr>t1_eviction := ev\<rparr>) \<longrightarrow> keeps V (e\<lparr>t1_eviction := ev\<rparr>) e'" "A \<subseteq> A'"
        by (rule evict_one_ok [where k = k]) simp
      have less: "spent e' \<le> spent e"
        using E(3) shorter evict_one_eviction [OF E(1)] by (simp add: spent_def)
      then have "ids_left e'" using 1(3) by (simp add: ids_left_def)
      from 1(1) [OF a(1) _ ev [symmetric] Some E(1) E(2) this] a(2)
      obtain e'' A'' where "evict_if_needed V e' = Some e''" "cache_inv V contents opened cap A'' kv e''"
        "worthy V e' \<longrightarrow> keeps V e' e''" "spent e'' \<le> spent e'" "A' \<subseteq> A''" by blast
      moreover have "worthy V e \<longrightarrow> keeps V e e''"
        using calculation(3) E(4) keep1 keeps_trans keeps_worthy by blast
      moreover have "evict_if_needed V e = evict_if_needed V e'"
        using a ev Some E(1) by (subst evict_if_needed.simps) simp
      ultimately show ?thesis using less E(5) by (metis order_trans)
    qed
  qed
qed

end
