(* ===== verification/Engine_Runs.thy ===== *)
theory Engine_Runs
  imports Engine_Cache
begin

text \<open>
  The operations of the engine keep the cache contract, and so do the turns of its background
  threads: the flush thread and the collector of the blob store, the checkpoint thread and
  the summary thread. Runs of the engine are sequences of these steps.
\<close>

section \<open>Put\<close>

lemma on_insert_length:
  "length (protected_list (on_insert now k c ch s)) + length (probationary_list (on_insert now k c ch s)) \<le>
     Suc (length (protected_list s) + length (probationary_list s))"
  by (auto simp: on_insert_def push_front_probationary_def list_modify_def split: option.splits)

text \<open>A put that loses no entry: the new key joins the others.\<close>

definition put_keeps :: "('m, 'w) engine_env \<Rightarrow> StorageKey \<Rightarrow> 32 word \<Rightarrow> ('m, 'w) AttentionDBEngine \<Rightarrow>
    ('m, 'w) AttentionDBEngine \<Rightarrow> bool" where
  "put_keeps V key c e e' \<longleftrightarrow> costs V e' = (costs V e)(key \<mapsto> c) \<and> eg_config e' = eg_config e \<and>
     ad_config (eg_admission e') = ad_config (eg_admission e) \<and> eg_opened e' = eg_opened e \<and> (t2_store e \<noteq> None \<longrightarrow> t2_store e' \<noteq> None)"

lemma put_commit_ok:
  assumes inv: "cache_inv V contents opened cap A kv e" and x: "serves A (kv(key \<mapsto> blob)) e key x"
    and fits: "blob_fits cap blob" and own: "\<And>k. ie_tier x = tier_code kT1Dram \<Longrightarrow> in_t1 V e k (entry_ptr x) \<Longrightarrow> k = key"
    and ids: "ids_left e"
  shows "\<exists>e' A'. put_commit V key x e = Some e' \<and> cache_inv V contents opened cap A' (kv(key \<mapsto> blob)) e' \<and>
    (worthy V e \<and> min_cost e \<le> ie_recompute_cost x \<longrightarrow> put_keeps V key (ie_recompute_cost x) e e') \<and>
    spent e' \<le> spent e \<and> A \<subseteq> A'"
proof -
  let ?e = "e\<lparr>eg_index := upsert (en_ck V) key x (eg_index e)\<rparr>\<lparr>eg_checkpoint := mark_dirty (eg_checkpoint e)\<rparr>"
  have "cache_inv V contents opened cap A (kv(key \<mapsto> blob)) ?e"
    unfolding cache_inv_logger using inv x fits own by (rule cache_inv_upsert)
  moreover have "ids_left ?e" using ids by (simp add: ids_left_def spent_def)
  ultimately obtain e' A' where E: "evict_if_needed V ?e = Some e'" "cache_inv V contents opened cap A' (kv(key \<mapsto> blob)) e'"
    "worthy V ?e \<longrightarrow> keeps V ?e e'" "spent e' \<le> spent ?e" "A \<subseteq> A'"
    using evict_if_needed_ok by blast
  have c: "costs V ?e = (costs V e)(key \<mapsto> ie_recompute_cost x)"
    by (simp add: costs_def fun_eq_iff index_find_upsert [OF cache_invD(1) [OF inv]])
  then have "worthy V ?e" if "worthy V e" "min_cost e \<le> ie_recompute_cost x"
    using that by (auto simp: worthy_def min_cost_def)
  with E(3) c have "worthy V e \<and> min_cost e \<le> ie_recompute_cost x \<longrightarrow> put_keeps V key (ie_recompute_cost x) e e'"
    by (auto simp: keeps_def put_keeps_def)
  with E(1,2,4,5) show ?thesis
    by (intro exI [of _ "set_stats (\<lambda>s. s\<lparr>ps_puts := ps_puts s + 1\<rparr>) e'"] exI [of _ A'])
      (auto simp: put_commit_def put_keeps_def costs_def [abs_def] spent_def)
qed

text \<open>Segment ids for the blob itself and for one demotion of each tracked key.\<close>

definition put_room :: "('m, 'w) AttentionDBEngine \<Rightarrow> bool" where
  "put_room e \<longleftrightarrow> spent e + 1 < UINT32_MAX"

lemma new_entry_length [simp]: "ie_length (new_entry now opts blob) = of_nat (length blob)"
  by (simp add: new_entry_def set_last_access_us_def set_created_at_us_def)

lemma new_entry_cost [simp]: "ie_recompute_cost (new_entry now opts blob) = po_recompute_cost opts"
  by (simp add: new_entry_def set_last_access_us_def set_created_at_us_def)

text \<open>The status of a put on an open engine.\<close>

definition t1_takes :: "nat \<Rightarrow> ('m, 'w) AttentionDBEngine \<Rightarrow> bool" where
  "t1_takes n e \<longleftrightarrow> (\<exists>a. t1_allocator e = Some a \<and> handle_valid (fst (allocate n a)))"

definition put_status :: "PutOpts \<Rightarrow> bytes \<Rightarrow> ('m, 'w) AttentionDBEngine \<Rightarrow> Status" where
  "put_status opts blob e =
     (if \<not> eg_opened e then kShutdown
      else if evaluate (eg_admission e) opts (storage_utilization e) \<noteq> kAdmit then kRejectedAdmission
      else if t1_takes (length blob) e \<or> t2_store e \<noteq> None then kOk else kIOError)"

lemma put_t1_takes: "fst (put_t1 V key blob opts entry e) = t1_takes (length blob) e"
  by (auto simp: put_t1_def t1_takes_def split: option.splits prod.splits)

lemma put_t1_keeps:
  assumes "put_t1 V key blob opts entry e = (stored, x, e')"
  shows "keeps V e e'" and "ie_recompute_cost x = ie_recompute_cost entry"
  using assms by (auto simp: put_t1_def keeps_def costs_def fun_eq_iff split: option.splits prod.splits if_splits)

lemma put_keeps_trans: "keeps V e e' \<Longrightarrow> put_keeps V key c e' e'' \<Longrightarrow> put_keeps V key c e e''"
  by (simp add: keeps_def put_keeps_def)

lemma put_commit_from:
  assumes "cache_inv V contents opened cap A kv e1" and "serves A (kv(key \<mapsto> blob)) e1 key x"
    and "blob_fits cap blob" and "\<And>k. ie_tier x = tier_code kT1Dram \<Longrightarrow> in_t1 V e1 k (entry_ptr x) \<Longrightarrow> k = key"
    and "ids_left e1" and keep: "keeps V e e1" and c: "ie_recompute_cost x = c"
  shows "\<exists>e' A'. put_commit V key x e1 = Some e' \<and> cache_inv V contents opened cap A' (kv(key \<mapsto> blob)) e' \<and>
    (worthy V e \<and> min_cost e \<le> c \<longrightarrow> put_keeps V key c e e') \<and> spent e' \<le> spent e1 \<and> A \<subseteq> A'"
proof -
  have "min_cost e1 = min_cost e" using keep by (simp add: keeps_def min_cost_def)
  then have "worthy V e \<and> min_cost e \<le> c \<longrightarrow> put_keeps V key c e e'"
    if "worthy V e1 \<and> min_cost e1 \<le> ie_recompute_cost x \<longrightarrow> put_keeps V key (ie_recompute_cost x) e1 e'" for e'
    using that c put_keeps_trans [OF keep] keeps_worthy [OF keep] by simp
  with put_commit_ok [OF assms(1-5)] show ?thesis by blast
qed

lemma engine_put_ok:
  assumes inv: "cache_inv V contents opened cap A kv e" and fits: "blob_fits cap blob" and room: "put_room e"
  shows "\<exists>e' A'. engine_put V key blob opts e = Some (put_status opts blob e, e') \<and>
    cache_inv V contents opened cap A' (if put_status opts blob e = kOk then kv(key \<mapsto> blob) else kv) e' \<and>
    (put_status opts blob e \<noteq> kOk \<longrightarrow> keeps V e e') \<and>
    (put_status opts blob e = kOk \<and> worthy V e \<and> min_cost e \<le> po_recompute_cost opts \<longrightarrow>
      put_keeps V key (po_recompute_cost opts) e e') \<and> spent e' \<le> Suc (spent e) \<and> A \<subseteq> A'"
proof (cases "eg_opened e \<and> evaluate (eg_admission e) opts (storage_utilization e) = kAdmit")
  case False
  then show ?thesis
    using inv by (auto simp: engine_put_def Let_def log_at_def put_status_def keeps_def costs_def [abs_def] spent_def)
next
  case True
  let ?e = "e\<lparr>eg_admission := record_evaluation kAdmit (eg_admission e)\<rparr>"
  let ?x = "new_entry (en_steady_us V (eg_world ?e)) opts blob"
  have inv1: "cache_inv V contents opened cap A kv ?e" using inv by simp
  have keep1: "keeps V e ?e" by (simp add: keeps_def costs_def [abs_def])
  have len: "length blob < 2 ^ 32" "\<not> length blob > UINT32_MAX" using fits by (simp_all add: blob_fits_def)
  obtain stored x e1 where pt: "put_t1 V key blob opts ?x ?e = (stored, x, e1)" by (metis prod_cases3)
  have stored: "stored = t1_takes (length blob) e"
    using put_t1_takes [of V key blob opts ?x ?e] pt by (simp add: t1_takes_def)
  show ?thesis
  proof (cases stored)
    case True
    have pt1: "put_t1 V key blob opts ?x ?e = (True, x, e1)" using pt True by (simp only:)
    note P = put_t1_stored [OF inv1 pt1 new_entry_length len(1)]
    have sp: "spent e1 \<le> Suc (spent e)"
      using pt True on_insert_length [of "en_steady_us V (eg_world e)" key "po_recompute_cost opts" "chunk_index key" "t1_eviction e"]
      by (auto simp: put_t1_def spent_def ids_used_def split: option.splits prod.splits if_splits)
    then have "ids_left e1" using room by (simp add: ids_left_def put_room_def)
    moreover have "keeps V e e1" using keep1 put_t1_keeps(1) [OF pt1] by (rule keeps_trans)
    moreover have "ie_recompute_cost x = po_recompute_cost opts" using put_t1_keeps(2) [OF pt1] by simp
    ultimately obtain e' A' where "put_commit V key x e1 = Some e'" "cache_inv V contents opened cap A' (kv(key \<mapsto> blob)) e'"
      "worthy V e \<and> min_cost e \<le> po_recompute_cost opts \<longrightarrow> put_keeps V key (po_recompute_cost opts) e e'" "spent e' \<le> spent e1" "A \<subseteq> A'"
      using put_commit_from [OF P(1,2) fits] P(4) by blast
    with sp pt True stored \<open>eg_opened e \<and> _\<close> len(2) show ?thesis by (auto simp: engine_put_def Let_def put_status_def)
  next
    case False
    have pt1: "put_t1 V key blob opts ?x ?e = (False, x, e1)" using pt False by (simp only:)
    note M = put_t1_missed [OF inv1 pt1]
    have ep: "engine_put V key blob opts e = (case put_t2 V key blob opts ?x ?e of
        None \<Rightarrow> None | Some (Inl s, e) \<Rightarrow> Some (s, e) | Some (Inr x, e) \<Rightarrow> map_option (Pair kOk) (put_commit V key x e))"
      using pt False True len(2) M by (simp add: engine_put_def Let_def)
    show ?thesis
    proof (cases "t2_store e")
      case None
      then show ?thesis
        using inv ep True False stored by (auto simp: put_t2_def put_status_def keeps_def costs_def [abs_def] spent_def)
    next
      case (Some st)
      have st: "t2_store ?e = Some st" and ids: "ids_used ?e < UINT32_MAX" using Some room by (simp_all add: put_room_def spent_def)
      show ?thesis
      proof (rule t2_write_stored [OF inv1 st fits ids new_entry_length, where key = key and checksum = "ie_checksum ?x" and k = key])
        fix loc st' w' A'
        assume W: "t2_write (en_store V) key blob (ie_checksum ?x) (st, eg_world ?e) = (Returned kOk (Some loc), st', w')"
          "next_segment_id st' \<le> Suc (ids_used ?e)"
          "\<And>ev. slru_inv ev \<Longrightarrow> cache_inv V contents opened cap A' kv (?e\<lparr>t2_store := Some st', eg_world := w', t2_eviction := ev\<rparr>)"
          "\<And>ev. serves A' (kv(key \<mapsto> blob)) (?e\<lparr>t2_store := Some st', eg_world := w', t2_eviction := ev\<rparr>) key (to_t2 loc ?x)"
          "A \<subseteq> A'"
        define ev where "ev = on_insert (en_steady_us V w') key (po_recompute_cost opts) (chunk_index key) (t2_eviction ?e)"
        let ?e2 = "?e\<lparr>t2_store := Some st', eg_world := w', t2_eviction := ev\<rparr>"
        have p2: "put_t2 V key blob opts ?x ?e = Some (Inr (to_t2 loc ?x), ?e2)"
          using W(1) st by (simp add: put_t2_def ev_def)
        have ev: "slru_inv ev" unfolding ev_def using cache_invD(3) [OF inv1] by (rule slru.invar_ins)
        have sp: "spent ?e2 \<le> Suc (spent e)" using W(2) by (simp add: spent_def ids_used_def)
        then have left: "ids_left ?e2" using room by (simp add: ids_left_def put_room_def)
        have keep2: "keeps V e ?e2" by (simp add: keeps_def costs_def [abs_def])
        have tier: "ie_tier (to_t2 loc ?x) \<noteq> tier_code kT1Dram"
          and cost: "ie_recompute_cost (to_t2 loc ?x) = po_recompute_cost opts" by (simp_all add: to_t2_def)
        have "\<exists>e' A''. put_commit V key (to_t2 loc ?x) ?e2 = Some e' \<and>
            cache_inv V contents opened cap A'' (kv(key \<mapsto> blob)) e' \<and>
            (worthy V e \<and> min_cost e \<le> po_recompute_cost opts \<longrightarrow> put_keeps V key (po_recompute_cost opts) e e') \<and>
            spent e' \<le> spent ?e2 \<and> A' \<subseteq> A''"
          by (rule put_commit_from [OF W(3) [OF ev] W(4) fits _ left keep2 cost]) (use tier in simp)
        moreover have "put_status opts blob e = kOk" using True Some by (simp add: put_status_def)
        ultimately show ?thesis using ep p2 sp W(5) by fastforce
      qed
    qed
  qed
qed

section \<open>Get\<close>

lemma serves_touch: "serves A kv e k (touch now x) = serves A kv e k x"
  by (simp add: serves_def serves_t1_def serves_t2_def entry_location_def)

lemma cache_inv_touch:
  assumes inv: "cache_inv V contents opened cap A kv e"
  shows "cache_inv V contents opened cap A kv (e\<lparr>eg_index := snd (update_fn (en_ck V) k (touch now) (eg_index e))\<rparr>)"
    (is "cache_inv _ _ _ _ _ _ ?e")
proof -
  note D = cache_invD [OF inv]
  have find: "look V ?e k' = (if k' = k then map_option (touch now) (look V e k) else look V e k')" for k'
    by (simp add: index_find_update [OF D(1)])
  have "serves A kv ?e k' y" if "look V ?e k' = Some y" for k' y
    using that D(6) unfolding find by (auto simp: serves_touch split: if_splits)
  moreover have "in_t1 V ?e k' p = in_t1 V e k' p" for k' p
    unfolding in_t1_def find by (cases "k' = k") auto
  ultimately show ?thesis using inv unfolding cache_inv_def index_serves_def parts_ok_def by auto
qed

lemma get_finish_ok:
  assumes "cache_inv V contents opened cap A kv e"
  shows "cache_inv V contents opened cap A kv (get_finish V key e)"
  using cache_inv_touch [OF assms, of key "en_steady_us V (eg_world e)"] by (simp add: get_finish_def Let_def)

text \<open>What a lookup answers.\<close>

definition cache_answer :: "(StorageKey \<rightharpoonup> bytes) \<Rightarrow> bool \<Rightarrow> StorageKey \<Rightarrow> nat \<Rightarrow> Status \<times> bytes" where
  "cache_answer kv present k n =
     (if \<not> present then (kNotFound, [])
      else if length (the (kv k)) \<le> n then (kOk, the (kv k)) else (kBufferTooSmall, []))"

lemma engine_get_ok:
  assumes inv: "cache_inv V contents opened cap A kv e" and op: "eg_opened e"
  shows "fst (engine_get V k n e) = cache_answer kv (look V e k \<noteq> None) k n"
    and "cache_inv V contents opened cap A kv (snd (engine_get V k n e))"
proof -
  note D = cache_invD [OF inv]
  have "fst (engine_get V k n e) = cache_answer kv (look V e k \<noteq> None) k n \<and>
    cache_inv V contents opened cap A kv (snd (engine_get V k n e))"
  proof (cases "look V e k")
    case None
    then show ?thesis using inv op by (simp add: engine_get_def get_entry_def cache_answer_def log_at_def)
  next
    case (Some x)
    from D(6) [OF Some] consider (t1) "ie_tier x = tier_code kT1Dram" "serves_t1 kv e k x"
      | (t2) "ie_tier x = tier_code kT2Nvme" "serves_t2 A kv e k x" by (auto simp: serves_def)
    then show ?thesis
    proof cases
      case t1
      then obtain a where a: "t1_allocator e = Some a" and kv: "kv k = Some (mem_read (eg_memory e) (entry_ptr x) (entry_len x))"
        by (auto simp: serves_t1_def)
      define ev where "ev = on_access (en_steady_us V (eg_world e)) k (ie_recompute_cost x) (chunk_index k) (t1_eviction e)"
      have "slru_inv ev" unfolding ev_def using D(2) by (rule slru.invar_acc)
      then have "cache_inv V contents opened cap A kv (e\<lparr>t1_eviction := ev\<rparr>)"
        by (intro cache_inv_same [OF inv]) (use D(3,5) in auto)
      then have "cache_inv V contents opened cap A kv (set_stats (\<lambda>s. s\<lparr>ps_t1_hits := ps_t1_hits s + 1\<rparr>) (e\<lparr>t1_eviction := ev\<rparr>))"
        by simp
      from get_finish_ok [OF this, of k] show ?thesis
        using Some a kv t1(1) op inv by (simp add: engine_get_def get_entry_def cache_answer_def ev_def)
    next
      case t2
      then obtain st data where st: "t2_store e = Some st" and kv: "kv k = Some data" and A: "(entry_location x, data) \<in> A"
        by (auto simp: serves_t2_def)
      obtain r w where rd: "blob_read (en_store V) (entry_location x) n (st, eg_world e) = (r, w)" by fastforce
      have r: "r = (if length data \<le> n then (kOk, data) else (kBufferTooSmall, []))"
        using t2.fetch_ok [OF D(5) [OF st] A, of n] rd by (simp add: fetch_blob_def)
      have ok: "backend_ok (en_store V) contents opened cap A (st, w)"
        using t2.fetch_keeps [OF D(5) [OF st], of "entry_location x" n] rd by (simp add: fetch_blob_def)
      define ev where "ev = on_access (en_steady_us V w) k (ie_recompute_cost x) (chunk_index k) (t2_eviction e)"
      have "slru_inv ev" unfolding ev_def using D(3) by (rule slru.invar_acc)
      with ok st have "cache_inv V contents opened cap A kv (e\<lparr>eg_world := w, t2_eviction := ev\<rparr>)"
        "cache_inv V contents opened cap A kv (e\<lparr>eg_world := w\<rparr>)"
        by (intro cache_inv_same [OF inv]; use D(2,3) in auto)+
      then have "cache_inv V contents opened cap A kv (get_finish V k (set_stats (\<lambda>s. s\<lparr>ps_t2_hits := ps_t2_hits s + 1\<rparr>)
          (e\<lparr>eg_world := w, t2_eviction := ev\<rparr>)))" "cache_inv V contents opened cap A kv (get_finish V k (e\<lparr>eg_world := w\<rparr>))"
        by (intro get_finish_ok; simp)+
      then show ?thesis
        using Some st kv t2(1) op rd r by (simp add: engine_get_def get_entry_def cache_answer_def ev_def Let_def)
    qed
  qed
  then show "fst (engine_get V k n e) = cache_answer kv (look V e k \<noteq> None) k n"
    and "cache_inv V contents opened cap A kv (snd (engine_get V k n e))" by blast+
qed

section \<open>Delete\<close>

lemma engine_del_ok:
  assumes inv: "cache_inv V contents opened cap A kv e" and del: "engine_del V k e = (s, e')"
  shows "cache_inv V contents opened cap A (if s = kOk then kv(k := None) else kv) e'"
proof (cases "eg_opened e \<and> look V e k \<noteq> None")
  case False
  then show ?thesis using inv del by (auto simp: engine_del_def del_entry_def split: if_splits)
next
  case True
  then obtain x where x: "look V e k = Some x" by blast
  note D = cache_invD [OF inv]
  define e1 where "e1 = e\<lparr>eg_index := snd (index_erase (en_ck V) k (eg_index e))\<rparr>"
  have inv1: "cache_inv V contents opened cap A (kv(k := None)) e1"
    unfolding e1_def using inv by (rule cache_inv_erase) simp
  have s: "s = kOk" using del True x by (simp add: engine_del_def del_entry_def Let_def)
  have ev: "slru_inv (on_remove k (t1_eviction e))" "slru_inv (on_remove k (t2_eviction e))"
    using slru.invar_rem D(2,3) by blast+
  from D(6) [OF x] consider (t1) "ie_tier x = tier_code kT1Dram" "serves_t1 kv e k x"
    | (t2) "ie_tier x = tier_code kT2Nvme" by (auto simp: serves_def)
  then have "cache_inv V contents opened cap A (kv(k := None)) e'"
  proof cases
    case t1
    then obtain a where a: "t1_allocator e = Some a" and p: "entry_ptr x \<in> live a" by (auto simp: serves_t1_def)
    have "\<not> in_t1 V e1 k' (entry_ptr x)" for k'
    proof
      assume *: "in_t1 V e1 k' (entry_ptr x)"
      then have "k' \<noteq> k" "in_t1 V e k' (entry_ptr x)"
        by (auto simp: e1_def in_t1_def index_find_erase [OF D(1)] split: if_splits)
      moreover have "in_t1 V e k (entry_ptr x)" using x t1(1) by (simp add: in_t1_def)
      ultimately show False using D(7) by blast
    qed
    with inv1 a p have "cache_inv V contents opened cap A (kv(k := None)) (e1\<lparr>t1_allocator := Some (free_by_ptr (entry_ptr x) a)\<rparr>)"
      by (intro cache_inv_free) (simp_all add: e1_def)
    then show ?thesis
      by (rule cache_inv_same) (use del True x t1(1) a ev D(5) in \<open>auto simp: engine_del_def del_entry_def Let_def e1_def\<close>)
  next
    case t2
    then show ?thesis
      by (intro cache_inv_same [OF inv1])
        (use del True x ev D(5) backend_ok_mark_dead in \<open>auto simp: engine_del_def del_entry_def Let_def e1_def\<close>)
  qed
  with s show ?thesis by simp
qed

section \<open>Runs\<close>

text \<open>
  A configuration is the engine and what the client remembers. Blobs that are put are not
  empty and fit a write block of the blob store; \<open>allowed\<close> says which options puts may have.
\<close>

inductive engine_step :: "('m, 'w) engine_env \<Rightarrow> nat \<Rightarrow> (PutOpts \<Rightarrow> bool) \<Rightarrow> ('m, 'w) AttentionDBEngine \<times> (StorageKey \<rightharpoonup> bytes) \<Rightarrow>
    ('m, 'w) AttentionDBEngine \<times> (StorageKey \<rightharpoonup> bytes) \<Rightarrow> bool" for V cap allowed where
  put: "engine_put V k blob opts e = Some (s, e') \<Longrightarrow> blob_fits cap blob \<Longrightarrow> put_room e \<Longrightarrow> allowed opts \<Longrightarrow>
     engine_step V cap allowed (e, kv) (e', if s = kOk then kv(k \<mapsto> blob) else kv)"
| get: "engine_get V k n e = (r, e') \<Longrightarrow> engine_step V cap allowed (e, kv) (e', kv)"
| del: "engine_del V k e = (s, e') \<Longrightarrow> engine_step V cap allowed (e, kv) (e', if s = kOk then kv(k := None) else kv)"
| flush_begin: "t2_store e = Some st \<Longrightarrow> flushing_block st = None \<Longrightarrow>
     engine_step V cap allowed (e, kv) (e\<lparr>t2_store := Some (flush_take st)\<rparr>, kv)"
| flush_end: "t2_store e = Some st \<Longrightarrow> flush_write (en_store V) (st, eg_world e) = (st', w') \<Longrightarrow>
     engine_step V cap allowed (e, kv) (e\<lparr>t2_store := Some st', eg_world := w'\<rparr>, kv)"
| collect: "t2_store e = Some st \<Longrightarrow> gc_tick (en_store V) None (st, eg_world e) = (st', w') \<Longrightarrow>
     engine_step V cap allowed (e, kv) (e\<lparr>t2_store := Some st', eg_world := w'\<rparr>, kv)"
| checkpoint: "periodic_tick (en_ck V) (en_xxh32 V) (en_faults V (eg_world e)) (eg_index e) (eg_checkpoint e, eg_files e) = (r, c, fs) \<Longrightarrow>
     engine_step V cap allowed (e, kv) (e\<lparr>eg_checkpoint := c, eg_files := fs\<rparr>, kv)"
| summary: "summary_tick (en_wall_us V (eg_world e)) (eg_logger e) = (b, l) \<Longrightarrow>
     engine_step V cap allowed (e, kv) (e\<lparr>eg_logger := l\<rparr>, kv)"

definition cache_ok :: "('m, 'w) engine_env \<Rightarrow> ('w \<Rightarrow> string \<rightharpoonup> bytes) \<Rightarrow> ('w \<Rightarrow> int \<rightharpoonup> string) \<Rightarrow> nat \<Rightarrow>
    ('m, 'w) AttentionDBEngine \<times> (StorageKey \<rightharpoonup> bytes) \<Rightarrow> bool" where
  "cache_ok V contents opened cap x \<longleftrightarrow> eg_opened (fst x) \<and> (\<exists>A. cache_inv V contents opened cap A (snd x) (fst x))"

lemma evict_one_opened: "evict_one V k e = Some e' \<Longrightarrow> eg_opened e' = eg_opened e"
  by (auto simp: evict_one_def Let_def split: option.splits if_splits dest: demote_frame)

text \<open>What every turn of the eviction loop keeps, the loop keeps.\<close>

lemma evict_if_needed_keeps:
  assumes "\<And>k e e'. P e \<Longrightarrow> evict_one V k e = Some e' \<Longrightarrow> P e'"
    and "\<And>e ev. P e \<Longrightarrow> P (e\<lparr>t1_eviction := ev\<rparr>)"
    and "P e" and "evict_if_needed V e = Some e'"
  shows "P e'"
proof -
  have "\<forall>k e e'. P e \<longrightarrow> evict_one V k e = Some e' \<longrightarrow> P e'" "\<forall>e ev. P e \<longrightarrow> P (e\<lparr>t1_eviction := ev\<rparr>)"
    using assms(1,2) by blast+
  then show ?thesis
    using assms(3,4)
  proof (induction V e arbitrary: e' rule: evict_if_needed.induct)
    case (1 V e)
    obtain v ev where ev: "evict (t1_eviction e) = (v, ev)" by fastforce
    have pop: "P (e\<lparr>t1_eviction := ev\<rparr>)" using 1(3,4) by blast
    show ?case
    proof (cases "\<exists>a k. t1_allocator e = Some a \<and> over_limit a \<and> v = Some k")
      case False
      then have "e' = e \<or> e' = e\<lparr>t1_eviction := ev\<rparr>"
        using 1(5) ev by (cases v) (simp_all add: evict_if_needed.simps [of V e] split: option.splits if_splits)
      with 1(4) pop show ?thesis by blast
    next
      case True
      then obtain a k where a: "t1_allocator e = Some a" "over_limit a" and k: "v = Some k" by blast
      then have lim: "\<not> \<not> over_limit a" by simp
      obtain e1 where e1: "evict_one V k (e\<lparr>t1_eviction := ev\<rparr>) = Some e1" "evict_if_needed V e1 = Some e'"
        using 1(5) a ev k by (simp add: evict_if_needed.simps [of V e] split: option.splits)
      have "P e1" using 1(2) pop e1(1) by blast
      from 1(1) [OF a(1) lim ev [symmetric] k e1(1) 1(2,3) this e1(2)] show ?thesis .
    qed
  qed
qed

lemma evict_if_needed_opened:
  assumes "evict_if_needed V e = Some e'"
  shows "eg_opened e' = eg_opened e"
  by (rule evict_if_needed_keeps [OF _ _ _ assms, where P = "\<lambda>e'. eg_opened e' = eg_opened e"])
    (simp_all add: evict_one_opened)

lemma engine_put_opened: "engine_put V k blob opts e = Some (s, e') \<Longrightarrow> eg_opened e' = eg_opened e"
  by (auto simp: engine_put_def Let_def put_t1_def put_t2_def put_commit_def log_at_def
      split: if_splits option.splits prod.splits sum.splits write_outcome.splits Status.splits dest!: evict_if_needed_opened)

lemma engine_get_opened: "engine_get V k n e = (r, e') \<Longrightarrow> eg_opened e' = eg_opened e"
  by (auto simp: engine_get_def get_entry_def Let_def get_finish_def log_at_def split: if_splits option.splits prod.splits)

lemma engine_del_opened: "engine_del V k e = (s, e') \<Longrightarrow> eg_opened e' = eg_opened e"
  by (auto simp: engine_del_def del_entry_def Let_def split: if_splits option.splits)

lemma cache_inv_store:
  assumes "cache_inv V contents opened cap A kv e" and "t2_store e = Some st"
    and "backend_ok (en_store V) contents opened cap A (st', w')"
  shows "cache_inv V contents opened cap A kv (e\<lparr>t2_store := Some st', eg_world := w'\<rparr>)"
  by (rule cache_inv_same [OF assms(1)]) (use assms cache_invD(2,3) [OF assms(1)] in auto)

text \<open>A step keeps the contract, and every blob that has been acknowledged in T2 stays.\<close>

lemma engine_step_inv:
  assumes step: "engine_step V cap allowed x y" and inv: "cache_inv V contents opened cap A (snd x) (fst x)" and op: "eg_opened (fst x)"
  shows "eg_opened (fst y) \<and> (\<exists>A'. A \<subseteq> A' \<and> cache_inv V contents opened cap A' (snd y) (fst y))"
proof -
  note D = cache_invD [OF inv]
  from step show ?thesis
  proof cases
    case (put k blob opts e s e' kv)
    with engine_put_ok [of V contents opened cap A kv e blob k opts] inv op engine_put_opened [OF put(3)]
    show ?thesis by auto
  next
    case (get k n e r e' kv)
    with engine_get_ok(2) [of V contents opened cap A kv e k n] inv op engine_get_opened [OF get(3)]
    show ?thesis by auto
  next
    case (del k e s e' kv)
    with engine_del_ok [of V contents opened cap A kv e k s e'] inv op engine_del_opened [OF del(3)]
    show ?thesis by auto
  next
    case (flush_begin e st kv)
    have "cache_inv V contents opened cap A kv (e\<lparr>t2_store := Some (flush_take st), eg_world := eg_world e\<rparr>)"
      using flush_begin inv D(5) by (intro cache_inv_store backend_ok_flush) auto
    with flush_begin op show ?thesis by auto
  next
    case (flush_end e st st' w' kv)
    with D(5) [of st] backend_ok_flush(2) [of "en_store V" contents opened cap A st "eg_world e"]
    have "cache_inv V contents opened cap A kv (e\<lparr>t2_store := Some st', eg_world := w'\<rparr>)"
      using inv by (intro cache_inv_store) auto
    with flush_end op show ?thesis by auto
  next
    case (collect e st st' w' kv)
    with D(5) [of st] have "cache_inv V contents opened cap A kv (e\<lparr>t2_store := Some st', eg_world := w'\<rparr>)"
      using inv by (intro cache_inv_store) (auto simp: gc_tick_counts intro: backend_ok_gc)
    with collect op show ?thesis by auto
  next
    case (checkpoint e r c fs kv)
    with inv op have "cache_inv V contents opened cap A kv (e\<lparr>eg_checkpoint := c\<rparr>\<lparr>eg_files := fs\<rparr>)"
      unfolding cache_inv_logger by simp
    with checkpoint op show ?thesis by auto
  next
    case (summary e b l kv)
    with inv op show ?thesis by auto
  qed
qed

lemma engine_step_ok:
  "engine_step V cap allowed x y \<Longrightarrow> cache_ok V contents opened cap x \<Longrightarrow> cache_ok V contents opened cap y"
  unfolding cache_ok_def using engine_step_inv by blast

lemma engine_steps_ok:
  "(engine_step V cap allowed)\<^sup>*\<^sup>* x y \<Longrightarrow> cache_ok V contents opened cap x \<Longrightarrow> cache_ok V contents opened cap y"
  by (induction rule: rtranclp_induct) (auto intro: engine_step_ok)

section \<open>Runs that lose nothing\<close>

text \<open>
  With T2 in use and entries worth a write to T2, eviction moves entries and drops none: the
  index holds exactly the keys of the client's map.
\<close>

definition demotable :: "AdmissionConfig \<Rightarrow> PutOpts \<Rightarrow> bool" where
  "demotable cfg opts \<longleftrightarrow> po_entry_type opts \<noteq> kSystemPrompt \<or> ac_min_recompute_cost cfg \<le> po_recompute_cost opts"

definition lossless :: "('m, 'w) engine_env \<Rightarrow> AdmissionConfig \<Rightarrow>
    ('m, 'w) AttentionDBEngine \<times> (StorageKey \<rightharpoonup> bytes) \<Rightarrow> bool" where
  "lossless V cfg x \<longleftrightarrow> worthy V (fst x) \<and> dom (costs V (fst x)) = dom (snd x) \<and>
     cfg_admission (eg_config (fst x)) = cfg \<and> ad_config (eg_admission (fst x)) = cfg"

lemma lossless_keeps: "keeps V e e' \<Longrightarrow> lossless V cfg (e, kv) \<Longrightarrow> lossless V cfg (e', kv)"
  using keeps_worthy [of V e e'] by (auto simp: lossless_def keeps_def)

lemma lossless_put:
  assumes "put_keeps V k c e e'" and "ac_min_recompute_cost cfg \<le> c" and "lossless V cfg (e, kv)"
  shows "lossless V cfg (e', kv(k \<mapsto> blob))"
  using assms by (auto simp: lossless_def put_keeps_def worthy_def min_cost_def)

lemma touch_cost [simp]: "ie_recompute_cost (touch now x) = ie_recompute_cost x"
  by (simp add: touch_def set_last_access_us_def Let_def)

lemma get_finish_keeps: "cuckoo_laws (en_ck V) \<Longrightarrow> keeps V e (get_finish V k e)"
  by (auto simp: get_finish_def Let_def keeps_def costs_def fun_eq_iff index_find_update option.map_comp comp_def)

lemma keeps_frame [simp]:
  "keeps V e (e'\<lparr>eg_logger := l\<rparr>) = keeps V e e'" "keeps V e (e'\<lparr>t1_eviction := ev\<rparr>) = keeps V e e'"
  "keeps V e (e'\<lparr>t2_eviction := ev\<rparr>) = keeps V e e'" "keeps V e (e'\<lparr>eg_world := w\<rparr>) = keeps V e e'"
  by (simp_all add: keeps_def costs_def [abs_def])

lemma engine_get_keeps:
  assumes "cuckoo_laws (en_ck V)"
  shows "keeps V e (snd (engine_get V k n e))"
proof -
  have "keeps V e (get_finish V k e1)" if "keeps V e e1" for e1
    using that get_finish_keeps [OF assms] by (rule keeps_trans)
  then show ?thesis
    by (simp add: engine_get_def get_entry_def Let_def log_at_def split: option.split prod.split)
qed

lemma engine_del_costs:
  assumes "cuckoo_laws (en_ck V)" and "engine_del V k e = (s, e')"
  shows "costs V e' = (if s = kOk then (costs V e)(k := None) else costs V e)" and "eg_config e' = eg_config e"
    and "eg_admission e' = eg_admission e" and "t2_store e \<noteq> None \<longrightarrow> t2_store e' \<noteq> None"
  using assms
  by (auto simp: engine_del_def del_entry_def Let_def costs_def index_find_erase fun_eq_iff split: if_splits option.splits)

lemma engine_del_lossless:
  assumes "cuckoo_laws (en_ck V)" and "engine_del V k e = (s, e')" and "lossless V cfg (e, kv)"
  shows "lossless V cfg (e', if s = kOk then kv(k := None) else kv)"
  using assms(3) engine_del_costs [OF assms(1,2)] by (auto simp: lossless_def worthy_def min_cost_def split: if_splits)

lemma engine_step_lossless:
  assumes step: "engine_step V cap (demotable cfg) x y" and ok: "cache_ok V contents opened cap x"
    and loss: "lossless V cfg x"
  shows "lossless V cfg y"
proof -
  from ok obtain A where inv: "cache_inv V contents opened cap A (snd x) (fst x)" and op: "eg_opened (fst x)"
    by (auto simp: cache_ok_def)
  note laws = cache_invD(1) [OF inv]
  from step show ?thesis
  proof cases
    case (put k blob opts e s e' kv)
    have inv': "cache_inv V contents opened cap A kv e" using inv put(1) by simp
    from engine_put_ok [OF inv' put(4,5), of k opts] put(3)
    have s: "s = put_status opts blob e" and other: "s \<noteq> kOk \<longrightarrow> keeps V e e'"
      and stored: "s = kOk \<and> worthy V e \<and> min_cost e \<le> po_recompute_cost opts \<longrightarrow> put_keeps V k (po_recompute_cost opts) e e'"
      by auto
    have loss': "lossless V cfg (e, kv)" using loss put(1) by simp
    show ?thesis
    proof (cases "s = kOk")
      case True
      then have "evaluate (eg_admission e) opts (storage_utilization e) = kAdmit"
        using s by (auto simp: put_status_def split: if_splits)
      then have "ac_min_recompute_cost cfg \<le> po_recompute_cost opts"
        using put(6) loss' by (auto simp: evaluate_def demotable_def lossless_def Let_def split: if_splits)
      then show ?thesis
        using True stored lossless_put [OF _ _ loss', of k "po_recompute_cost opts" e' blob] loss' put(2)
        by (auto simp: lossless_def min_cost_def)
    next
      case False
      then show ?thesis using other lossless_keeps [OF _ loss'] put(2) by auto
    qed
  next
    case (get k n e r e' kv)
    then show ?thesis using lossless_keeps [OF engine_get_keeps [OF laws, of e k n]] loss by simp
  next
    case (del k e s e' kv)
    then show ?thesis using engine_del_lossless [OF laws del(3)] loss by simp
  next
    case (flush_begin e st kv)
    then show ?thesis using loss by (auto simp: lossless_def worthy_def costs_def [abs_def] min_cost_def)
  next
    case (flush_end e st st' w' kv)
    then show ?thesis using loss by (auto simp: lossless_def worthy_def costs_def [abs_def] min_cost_def)
  next
    case (collect e st st' w' kv)
    then show ?thesis using loss by (auto simp: lossless_def worthy_def costs_def [abs_def] min_cost_def)
  next
    case (checkpoint e r c fs kv)
    then show ?thesis using loss by (auto simp: lossless_def worthy_def costs_def [abs_def] min_cost_def)
  next
    case (summary e b l kv)
    then show ?thesis using loss by (auto simp: lossless_def worthy_def costs_def [abs_def] min_cost_def)
  qed
qed

lemma engine_steps_lossless:
  assumes "(engine_step V cap (demotable cfg))\<^sup>*\<^sup>* x y" and "cache_ok V contents opened cap x" and "lossless V cfg x"
  shows "lossless V cfg y"
  using assms(1)
proof (induction rule: rtranclp_induct)
  case (step y z)
  from engine_steps_ok [OF step(1) assms(2)] step(2,3) show ?case by (blast intro: engine_step_lossless)
qed (rule assms(3))

end
