(* ===== verification/Engine_Start.thy ===== *)
theory Engine_Start
  imports Engine_Runs
begin

text \<open>
  Starting the engine: \<open>open\<close> establishes the cache contract, on a disk without data and on the
  files an earlier process left. The last part gives an environment that meets the hypotheses.
\<close>

section \<open>The first start\<close>

text \<open>
  The environment: the documented behaviour of libcuckoo, of a file system that works, and of
  the memory allocator, which touches no file.
\<close>

definition alloc_keeps :: "'w alloc_env \<Rightarrow> ('w \<Rightarrow> 'a) \<Rightarrow> bool" where
  "alloc_keeps A view \<longleftrightarrow> (\<forall>w n. view (snd (sys_mmap_huge A w n)) = view w) \<and>
     (\<forall>w a n. view (snd (sys_aligned_alloc A w a n)) = view w) \<and>
     (\<forall>w p n. view (sys_munmap A w p n) = view w) \<and> (\<forall>w p. view (sys_free A w p) = view w)"

definition environment_ok :: "('m, 'w) engine_env \<Rightarrow> ('w \<Rightarrow> string \<rightharpoonup> bytes) \<Rightarrow> ('w \<Rightarrow> int \<rightharpoonup> string) \<Rightarrow> ('w \<Rightarrow> ptr set) \<Rightarrow> bool" where
  "environment_ok V contents opened owned \<longleftrightarrow> cuckoo_laws (en_ck V) \<and> reliable (en_store V) contents opened \<and>
     alloc_laws (en_alloc V) owned \<and> alloc_keeps (en_alloc V) contents"

lemma environment_okD:
  assumes "environment_ok V contents opened owned"
  shows "cuckoo_laws (en_ck V)" "reliable (en_store V) contents opened" "alloc_laws (en_alloc V) owned"
    "alloc_keeps (en_alloc V) contents"
  using assms by (simp_all add: environment_ok_def)

lemma alloc_backing_keeps:
  assumes "alloc_keeps A view" and "alloc_backing A hp n (w, m) = Inr (r, w', m')"
  shows "view w' = view w"
proof -
  have al: "view w' = view v" if "alloc_aligned A n (v, m) = Inr (r, w', m')" for v
    using assms(1) that unfolding alloc_keeps_def alloc_aligned_def by (auto split: prod.splits if_splits) (metis snd_conv)
  have mm: "view v = view w" if "sys_mmap_huge A w n = (p, v)" for p v
    using assms(1) that unfolding alloc_keeps_def by (metis snd_conv)
  show ?thesis
    using assms(2) al mm by (auto simp: alloc_backing_def split: if_splits prod.splits option.splits)
qed

lemma add_classes_keeps:
  "alloc_keeps A view \<Longrightarrow> add_classes A bpc sizes (s, w, m) = Inr (s', w', m') \<Longrightarrow> view w' = view w"
proof (induction sizes arbitrary: s w m)
  case (Cons sz sizes)
  then obtain s1 w1 m1 where one: "add_class A bpc sz (s, w, m) = Inr (s1, w1, m1)"
    and rest: "add_classes A bpc sizes (s1, w1, m1) = Inr (s', w', m')" by (auto split: sum.splits)
  have "view w1 = view w"
    using one alloc_backing_keeps [OF Cons.prems(1)] by (auto simp: add_class_def Let_def split: if_splits sum.splits)
  with Cons.IH [OF Cons.prems(1) rest] show ?case by simp
qed simp

lemma slab_create_keeps:
  "alloc_keeps A view \<Longrightarrow> slab_create A cfg (w, m) = Inr (s, w', m') \<Longrightarrow> view w' = view w"
  using add_classes_keeps by (auto simp: slab_create_def Let_def split: if_splits)

lemma destroy_keeps:
  assumes "alloc_keeps A view"
  shows "view (destroy A s w) = view w"
proof -
  have "view (free_backing A p n how w) = view w" for p n how w
    using assms by (simp add: free_backing_def alloc_keeps_def split: AllocMethod.split)
  then have "view (fold (\<lambda>i w. free_backing A (ps i) (ns i) (ms i) w) is w) = view w" for ps ns ms "is" w
    by (induction "is" arbitrary: w) simp_all
  then show ?thesis by (simp add: destroy_def)
qed

abbreviation checkpoint_dir :: "Config \<Rightarrow> string" where
  "checkpoint_dir cfg \<equiv> (if nv_enabled (cfg_nvme_store cfg) then hd (nv_paths (cfg_nvme_store cfg)) @ ''/checkpoint''
     else ''/tmp/attentiondb_checkpoint'')"

text \<open>Settings in range; a first start finds no data of an earlier process.\<close>

definition settings_ok :: "('m, 'w) engine_env \<Rightarrow> Config \<Rightarrow> bool" where
  "settings_ok V cfg \<longleftrightarrow>
     (nv_enabled (cfg_nvme_store cfg) \<longrightarrow> sane_config (cfg_nvme_store cfg) \<and> readable_dirs (en_store V) (cfg_nvme_store cfg)) \<and>
     (dc_enabled (cfg_dram_cache cfg) \<longrightarrow>
        config_in_range (dc_size_bytes (cfg_dram_cache cfg) div length (dc_size_classes (cfg_dram_cache cfg)))
          (sort (dc_size_classes (cfg_dram_cache cfg))))"

definition first_start :: "('m, 'w) engine_env \<Rightarrow> ('w \<Rightarrow> string \<rightharpoonup> bytes) \<Rightarrow> Config \<Rightarrow> 'w \<Rightarrow> file_system \<Rightarrow> bool" where
  "first_start V contents cfg w fs \<longleftrightarrow> settings_ok V cfg \<and>
     (nv_enabled (cfg_nvme_store cfg) \<longrightarrow> no_segments_yet (cfg_nvme_store cfg) (contents w)) \<and>
     fs (checkpoint_dir cfg @ ''/index.checkpoint'') = None"

abbreviation blob_limit :: "Config \<Rightarrow> nat" where
  "blob_limit cfg \<equiv> block_capacity (cfg_nvme_store cfg)"

lemma backend_ok_world:
  "contents w' = contents w \<Longrightarrow> opened w' = opened w \<Longrightarrow> backend_ok env contents opened cap A (st, w) \<Longrightarrow>
     backend_ok env contents opened cap A (st, w')"
  by (simp add: backend_ok_def)

text \<open>What an earlier process left for the blob store: its segment files and, in them, acknowledged blobs.\<close>

definition left_behind :: "NvmeStoreConfig \<Rightarrow> nat \<Rightarrow> (BlobLocation \<times> bytes) set \<Rightarrow> (string \<rightharpoonup> bytes) \<Rightarrow> bool" where
  "left_behind cfg n A files \<longleftrightarrow> n < UINT32_MAX \<and> own_files cfg n files \<and>
     (\<exists>E. (\<forall>e \<in> E. saved cfg files e) \<and> (\<forall>a \<in> A. logged E a))"

lemma left_behind_none: "no_segments_yet cfg files \<Longrightarrow> left_behind cfg 0 {} files"
  by (auto simp: left_behind_def)

lemma open_t1_ok:
  assumes "alloc_laws (en_alloc V) owned" "alloc_keeps (en_alloc V) contents" and "t1_allocator e = None" and "open_t1 V e = Inr e'"
    and "settings_ok V (eg_config e)"
  shows "\<exists>al w mem. e' = e\<lparr>t1_allocator := al, eg_world := w, eg_memory := mem\<rparr> \<and> (\<forall>a. al = Some a \<longrightarrow> slab_inv a) \<and>
    contents w = contents (eg_world e) \<and> (dc_enabled (cfg_dram_cache (eg_config e)) \<longleftrightarrow> al \<noteq> None)"
proof (cases "dc_enabled (cfg_dram_cache (eg_config e))")
  case True
  with assms(3,4) obtain a w mem where c: "slab_create (en_alloc V) (cfg_dram_cache (eg_config e)) (eg_world e, eg_memory e) = Inr (a, w, mem)"
    and e': "e' = e\<lparr>t1_allocator := Some a, eg_memory := mem, eg_world := w\<rparr>"
    by (auto simp: open_t1_def split: sum.splits)
  from slab_create_inv [OF assms(1) _ c] assms(5) True have "slab_inv a" by (auto simp: settings_ok_def)
  then show ?thesis using e' True slab_create_keeps [OF assms(2) c] by (intro exI [of _ "Some a"] exI [of _ w] exI [of _ mem]) simp
next
  case False
  with assms(3,4) False show ?thesis by (intro exI [of _ None] exI [of _ "eg_world e"] exI [of _ "eg_memory e"]) (simp add: open_t1_def)
qed

lemma open_t2_ok:
  assumes rel: "reliable (en_store V) contents opened" and "t2_store e = None" and set: "settings_ok V (eg_config e)"
    and left: "nv_enabled (cfg_nvme_store (eg_config e)) \<longrightarrow> left_behind (cfg_nvme_store (eg_config e)) n A (contents (eg_world e))"
  shows "\<exists>st w. open_t2 V e = (kOk, e\<lparr>t2_store := st, eg_world := w\<rparr>) \<and>
    (\<forall>s. st = Some s \<longrightarrow> backend_ok (en_store V) contents opened (blob_limit (eg_config e)) A (s, w) \<and>
       next_segment_id s \<le> Suc n \<and> bs_config s = cfg_nvme_store (eg_config e) \<and>
       fresh_store (cfg_nvme_store (eg_config e)) (contents (eg_world e)) (contents w) s) \<and>
    (nv_enabled (cfg_nvme_store (eg_config e)) \<longleftrightarrow> st \<noteq> None)"
proof (cases "nv_enabled (cfg_nvme_store (eg_config e))")
  case True
  with left obtain E where n: "n < UINT32_MAX" and own: "own_files (cfg_nvme_store (eg_config e)) n (contents (eg_world e))"
    and E: "\<And>x. x \<in> E \<Longrightarrow> saved (cfg_nvme_store (eg_config e)) (contents (eg_world e)) x" and A: "\<forall>a \<in> A. logged E a"
    by (auto simp: left_behind_def)
  have cfg: "sane_config (cfg_nvme_store (eg_config e))" "readable_dirs (en_store V) (cfg_nvme_store (eg_config e))"
    using set True by (simp_all add: settings_ok_def)
  show ?thesis
  proof (rule blob_open_inv [OF rel cfg own n E])
    fix s w
    assume S: "blob_open (en_store V) (blob_store_create (cfg_nvme_store (eg_config e)), eg_world e) = (kOk, s, w)"
      "store_inv (blob_limit (eg_config e)) False (opened w) (contents w) E s" "next_segment_id s \<le> Suc n"
      "\<exists>p q. active_block s = Some p \<and> active_segment s = Some q \<and> wb_pos (all_blocks s ! p) = 0 \<and>
         si_write_offset (seg_of s q) = 4096 \<and> bs_config s = cfg_nvme_store (eg_config e)"
      "fresh_store (cfg_nvme_store (eg_config e)) (contents (eg_world e)) (contents w) s"
    from S(1) True assms(2) have "open_t2 V e = (kOk, e\<lparr>t2_store := Some s, eg_world := w\<rparr>)" by (simp add: open_t2_def)
    moreover have "backend_ok (en_store V) contents opened (blob_limit (eg_config e)) A (s, w)"
      using rel S(2) A by (auto simp: backend_ok_def)
    ultimately show ?thesis using S(3-5) True by (intro exI [of _ "Some s"] exI [of _ w]) auto
  qed
next
  case False
  with assms(2) show ?thesis by (intro exI [of _ None] exI [of _ "eg_world e"]) (simp add: open_t2_def)
qed

lemma load_checkpoint_none:
  "eg_files e (dir (eg_checkpoint e) @ ''/index.checkpoint'') = None \<Longrightarrow> load_checkpoint V e = e"
  by (simp add: load_checkpoint_def load_def checkpoint_path_def)

lemma load_checkpoint_frame:
  "eg_checkpoint (load_checkpoint V e) = eg_checkpoint e" "eg_files (load_checkpoint V e) = eg_files e"
  "t1_allocator (load_checkpoint V e) = t1_allocator e" "t2_store (load_checkpoint V e) = t2_store e"
  "eg_config (load_checkpoint V e) = eg_config e" "eg_admission (load_checkpoint V e) = eg_admission e"
  "eg_world (load_checkpoint V e) = eg_world e" "t1_eviction (load_checkpoint V e) = t1_eviction e"
  "t2_eviction (load_checkpoint V e) = t2_eviction e" "eg_memory (load_checkpoint V e) = eg_memory e"
  by (simp_all add: load_checkpoint_def Let_def log_at_def split: prod.split)

lemma open_rest_parts:
  assumes e': "e' = open_rest V e"
  shows "t1_allocator e' = t1_allocator e \<and> t2_store e' = t2_store e \<and> eg_opened e' \<and> eg_config e' = eg_config e \<and>
    ad_config (eg_admission e') = cfg_admission (eg_config e) \<and> eg_files e' = eg_files e \<and>
    eg_world e' = se_create_directories (en_store V) (eg_world e) (checkpoint_dir (eg_config e)) \<and>
    (\<exists>c. t1_eviction e' = slru_create c) \<and> (\<exists>c. t2_eviction e' = slru_create c) \<and>
    eg_checkpoint e' = start_periodic (checkpoint_create (cfg_checkpoint (eg_config e)) (checkpoint_dir (eg_config e)))"
proof -
  define d where "d = checkpoint_dir (eg_config e)"
  show ?thesis
    unfolding e' open_rest_def Let_def d_def [symmetric]
    by (auto simp: load_checkpoint_frame log_at_def admission_create_def)
qed

text \<open>What \<open>open\<close> establishes whatever the index holds afterwards.\<close>

lemma engine_open_parts:
  assumes env: "environment_ok V contents opened owned" and set: "settings_ok V cfg"
    and left: "nv_enabled (cfg_nvme_store cfg) \<longrightarrow> left_behind (cfg_nvme_store cfg) n A (contents w0)"
    and op: "engine_open V cfg (engine_create V w0 mem0 fs) = (r, e)"
  shows "(\<exists>exn. r = Throws exn) \<or> r = Ret kOk \<and> parts_ok V contents opened (blob_limit cfg) A e \<and> eg_opened e \<and>
    eg_config e = cfg \<and> ad_config (eg_admission e) = cfg_admission cfg \<and> (nv_enabled (cfg_nvme_store cfg) \<longleftrightarrow> t2_store e \<noteq> None) \<and>
    (\<forall>s. t2_store e = Some s \<longrightarrow> next_segment_id s \<le> Suc n \<and> bs_config s = cfg_nvme_store cfg \<and>
       fresh_store (cfg_nvme_store cfg) (contents w0) (contents (eg_world e)) s) \<and>
    (\<exists>c. t1_eviction e = slru_create c) \<and> (dc_enabled (cfg_dram_cache cfg) \<longleftrightarrow> t1_allocator e \<noteq> None) \<and> eg_files e = fs \<and>
    eg_checkpoint e = start_periodic (checkpoint_create (cfg_checkpoint cfg) (checkpoint_dir cfg))"
proof -
  let ?e = "(engine_create V w0 mem0 fs)\<lparr>eg_config := cfg, eg_logger := logger_create (cfg_logging cfg),
      eg_index := index_new (en_ck V) 1048576\<rparr>"
  note laws = environment_okD [OF env]
  show ?thesis
  proof (cases "open_t1 V ?e")
    case (Inl exn)
    with op show ?thesis by (auto simp: engine_open_def engine_create_def Let_def)
  next
    case (Inr e1)
    have t1: "t1_allocator ?e = None" "t2_store ?e = None" "eg_config ?e = cfg" "eg_world ?e = w0" "eg_files ?e = fs"
      by (simp_all add: engine_create_def)
    obtain al w1 mem where e1: "e1 = ?e\<lparr>t1_allocator := al, eg_world := w1, eg_memory := mem\<rparr>"
      and al: "\<forall>a. al = Some a \<longrightarrow> slab_inv a" and c1: "contents w1 = contents w0"
      and dc: "dc_enabled (cfg_dram_cache cfg) \<longleftrightarrow> al \<noteq> None"
      using open_t1_ok [OF laws(3,4) t1(1) Inr] set unfolding t1 by blast
    have p1: "t2_store e1 = None" "eg_config e1 = cfg" "eg_world e1 = w1" using t1 by (simp_all add: e1)
    obtain st w2 where t2: "open_t2 V e1 = (kOk, e1\<lparr>t2_store := st, eg_world := w2\<rparr>)"
      and st: "\<forall>s. st = Some s \<longrightarrow> backend_ok (en_store V) contents opened (blob_limit cfg) A (s, w2) \<and>
        next_segment_id s \<le> Suc n \<and> bs_config s = cfg_nvme_store cfg \<and>
        fresh_store (cfg_nvme_store cfg) (contents w0) (contents w2) s" "nv_enabled (cfg_nvme_store cfg) \<longleftrightarrow> st \<noteq> None"
      using open_t2_ok [OF laws(2) p1(1), of n A] set left unfolding p1 c1 by blast
    let ?e2 = "e1\<lparr>t2_store := st, eg_world := w2\<rparr>"
    have res: "r = Ret kOk" "e = open_rest V ?e2"
      using op Inr t2 by (simp_all add: engine_open_def engine_create_def Let_def)
    have cfg: "eg_config ?e2 = cfg" "t1_allocator ?e2 = al" "t2_store ?e2 = st" "eg_world ?e2 = w2" "eg_files ?e2 = fs"
      using t1 by (simp_all add: e1)
    note R = open_rest_parts [OF res(2), unfolded cfg]
    have "slru_inv (t1_eviction e)" "slru_inv (t2_eviction e)" using R slru_inv_create by auto
    moreover have w: "contents (eg_world e) = contents w2" "opened (eg_world e) = opened w2"
    proof -
      have "eg_world e = se_create_directories (en_store V) w2 (checkpoint_dir cfg)" using R by blast
      then show "contents (eg_world e) = contents w2" "opened (eg_world e) = opened w2"
        by (simp_all only: reliable_keeps(1,2) [OF laws(2)])
    qed
    moreover have "backend_ok (en_store V) contents opened (blob_limit cfg) A (s, eg_world e)" if "st = Some s" for s
      using w by (rule backend_ok_world) (use st(1) that in blast)
    moreover have "t1_allocator e = al" "t2_store e = st" using R by blast+
    ultimately have "parts_ok V contents opened (blob_limit cfg) A e" using laws al by (simp add: parts_ok_def)
    moreover have "dc_enabled (cfg_dram_cache cfg) \<longleftrightarrow> t1_allocator e \<noteq> None"
      unfolding \<open>t1_allocator e = al\<close> by (fact dc)
    moreover have "nv_enabled (cfg_nvme_store cfg) \<longleftrightarrow> t2_store e \<noteq> None"
      unfolding \<open>t2_store e = st\<close> by (fact st(2))
    moreover have "\<forall>s. t2_store e = Some s \<longrightarrow> next_segment_id s \<le> Suc n \<and> bs_config s = cfg_nvme_store cfg \<and>
        fresh_store (cfg_nvme_store cfg) (contents w0) (contents (eg_world e)) s"
      unfolding \<open>t2_store e = st\<close> w(1) using st(1) by simp
    ultimately show ?thesis using R res(1) by (elim conjE) (intro disjI2 conjI; assumption)
  qed
qed

lemma engine_open_rest:
  assumes "engine_open V cfg (engine_create V w mem fs) = (Ret kOk, e)"
  shows "\<exists>e1. e = open_rest V e1 \<and> eg_index e1 = index_new (en_ck V) 1048576 \<and> eg_config e1 = cfg \<and> eg_files e1 = fs"
  using assms
  by (auto simp: engine_open_def engine_create_def Let_def open_t1_def open_t2_def split: sum.splits prod.splits if_splits)

lemma engine_open_fresh:
  assumes env: "environment_ok V contents opened owned" and first: "first_start V contents cfg w0 fs"
    and op: "engine_open V cfg (engine_create V w0 mem0 fs) = (r, e)"
  shows "r = Ret kOk \<or> (\<exists>exn. r = Throws exn)"
    and "r = Ret kOk \<Longrightarrow> cache_ok V contents opened (blob_limit cfg) (e, Map.empty)"
    and "r = Ret kOk \<Longrightarrow> nv_enabled (cfg_nvme_store cfg) \<Longrightarrow> lossless V (cfg_admission cfg) (e, Map.empty)"
    and "r = Ret kOk \<Longrightarrow> spent e \<le> 1"
proof -
  have "nv_enabled (cfg_nvme_store cfg) \<longrightarrow> left_behind (cfg_nvme_store cfg) 0 {} (contents w0)" and set: "settings_ok V cfg"
    and none: "fs (checkpoint_dir cfg @ ''/index.checkpoint'') = None"
    using first left_behind_none unfolding first_start_def by blast+
  note P = engine_open_parts [OF env set this(1) op]
  note laws = environment_okD [OF env]
  show "r = Ret kOk \<or> (\<exists>exn. r = Throws exn)" using P by blast
  have empty: "look V e k = None" if "r = Ret kOk" for k
  proof -
    from engine_open_rest [OF op [unfolded that]] obtain e1 where e: "e = open_rest V e1"
      and e1: "eg_index e1 = index_new (en_ck V) 1048576" "eg_config e1 = cfg" "eg_files e1 = fs" by blast
    define d where "d = checkpoint_dir cfg"
    have "fs (d @ ''/index.checkpoint'') = None" using none by (simp add: d_def)
    then have "eg_index e = index_new (en_ck V) 1048576"
      unfolding e open_rest_def Let_def e1 d_def [symmetric] log_at_def
      by (simp add: load_checkpoint_none e1 checkpoint_create_def)
    then show ?thesis by (simp add: index_find_new [OF laws(1)])
  qed
  show "cache_ok V contents opened (blob_limit cfg) (e, Map.empty)" if "r = Ret kOk"
    using P that empty [OF that] by (auto simp: cache_ok_def cache_inv_def index_serves_def in_t1_def)
  show "lossless V (cfg_admission cfg) (e, Map.empty)" if "r = Ret kOk" "nv_enabled (cfg_nvme_store cfg)"
    using P that empty [OF that(1)] by (auto simp: lossless_def worthy_def costs_def dom_def)
  show "spent e \<le> 1" if "r = Ret kOk"
    using P that by (auto simp: spent_def ids_used_def slru_create_def split: option.split)
qed

lemma contains_look: "cuckoo_laws (en_ck V) \<Longrightarrow> eg_opened e \<Longrightarrow> engine_contains V k e \<longleftrightarrow> look V e k \<noteq> None"
  by (simp add: engine_contains_def index_contains_iff)

lemma lossless_get:
  assumes "cache_ok V contents opened cap (e, kv)" and "lossless V cfg (e, kv)"
  shows "engine_contains V k e \<longleftrightarrow> kv k \<noteq> None" and "fst (engine_get V k n e) = (case kv k of None \<Rightarrow> (kNotFound, [])
      | Some blob \<Rightarrow> if length blob \<le> n then (kOk, blob) else (kBufferTooSmall, []))"
proof -
  from assms(1) obtain A where inv: "cache_inv V contents opened cap A kv e" and op: "eg_opened e"
    by (auto simp: cache_ok_def)
  from assms(2) have "dom (costs V e) = dom kv" by (simp add: lossless_def)
  then have "costs V e k = None \<longleftrightarrow> kv k = None" by (metis domIff)
  then have "look V e k = None \<longleftrightarrow> kv k = None" by (simp add: costs_def)
  with engine_get_ok(1) [OF inv op, of k n] show "engine_contains V k e \<longleftrightarrow> kv k \<noteq> None"
    and "fst (engine_get V k n e) = (case kv k of None \<Rightarrow> (kNotFound, [])
      | Some blob \<Rightarrow> if length blob \<le> n then (kOk, blob) else (kBufferTooSmall, []))"
    by (auto simp: contains_look [OF cache_invD(1) [OF inv] op] cache_answer_def split: option.splits)
qed

text \<open>The first put of a system prompt is stored.\<close>

lemma first_put:
  assumes env: "environment_ok V contents opened owned" and first: "first_start V contents cfg w0 fs"
    and op: "engine_open V cfg (engine_create V w0 mem0 fs) = (Ret kOk, e0)" and nv: "nv_enabled (cfg_nvme_store cfg)"
    and fits: "blob_fits (blob_limit cfg) blob" and opts: "po_entry_type opts = kSystemPrompt" "demotable (cfg_admission cfg) opts"
  obtains e where "engine_put V k blob opts e0 = Some (kOk, e)" "spent e \<le> 2"
    "engine_step V (blob_limit cfg) (demotable (cfg_admission cfg)) (e0, Map.empty) (e, [k \<mapsto> blob])"
proof -
  note start = engine_open_fresh [OF env first op]
  have room: "put_room e0" using start(4) by (simp add: put_room_def)
  have "t2_store e0 \<noteq> None" using start(3) [OF refl nv] by (simp add: lossless_def worthy_def)
  moreover have "eg_opened e0" using start(2) by (simp add: cache_ok_def)
  ultimately have ok: "put_status opts blob e0 = kOk" using opts(1) by (simp add: put_status_def evaluate_def)
  from start(2) obtain A where inv: "cache_inv V contents opened (blob_limit cfg) A Map.empty e0" by (auto simp: cache_ok_def)
  from engine_put_ok [OF inv fits room, of k opts] ok start(4)
  obtain e where put: "engine_put V k blob opts e0 = Some (kOk, e)" and sp: "spent e \<le> 2" by force
  from engine_step.put [OF put fits room, of "demotable (cfg_admission cfg)" Map.empty] opts(2)
  show thesis by (intro that [OF put sp]) simp
qed

section \<open>An environment\<close>

text \<open>The world has two halves: the files of \<open>mem_env\<close> and the break of \<open>brk_env\<close>.\<close>

definition at_snd :: "('v \<Rightarrow> 'r \<times> 'v) \<Rightarrow> 'w \<times> 'v \<Rightarrow> 'r \<times> 'w \<times> 'v" where
  "at_snd f w = (case f (snd w) of (r, v) \<Rightarrow> (r, fst w, v))"

definition alloc_half :: "'v alloc_env \<Rightarrow> ('w \<times> 'v) alloc_env" where
  "alloc_half A = \<lparr>sys_mmap_huge = (\<lambda>w n. at_snd (\<lambda>v. sys_mmap_huge A v n) w),
     sys_aligned_alloc = (\<lambda>w a n. at_snd (\<lambda>v. sys_aligned_alloc A v a n) w),
     sys_munmap = (\<lambda>w p n. (fst w, sys_munmap A (snd w) p n)), sys_free = (\<lambda>w p. (fst w, sys_free A (snd w) p))\<rparr>"

lemma alloc_keeps_half: "alloc_keeps (alloc_half A) (\<lambda>w. view (fst w))"
  by (simp add: alloc_keeps_def alloc_half_def at_snd_def split: prod.split)

lemma alloc_laws_half:
  assumes "alloc_laws A owned"
  shows "alloc_laws (alloc_half A :: ('w \<times> 'v) alloc_env) (\<lambda>w. owned (snd w))"
proof -
  have "fresh_block (\<lambda>w. owned (snd w)) w n p w' = fresh_block owned (snd w) n p (snd w')" for w w' :: "'w \<times> 'v" and n p
    by (simp add: fresh_block_def)
  then show ?thesis
    using assms by (simp add: alloc_laws_def alloc_half_def at_snd_def split: prod.splits)
qed

definition demo_env :: "((StorageKey \<times> IndexEntry) list, mem_world \<times> nat) engine_env" where
  "demo_env = \<lparr>en_ck = alist_table, en_store = store_half mem_env, en_alloc = alloc_half brk_env, en_xxh32 = (\<lambda>bs. 0),
     en_faults = (\<lambda>w. good_io\<lparr>out_limit := 2 ^ 40, in_limit := 2 ^ 40\<rparr>), en_steady_us = (\<lambda>w. 0), en_wall_us = (\<lambda>w. 0), en_elapsed_us = (\<lambda>w. 0)\<rparr>"

definition demo_config :: Config where
  "demo_config = Default\<lparr>cfg_dram_cache := small_dram, cfg_nvme_store := mem_config\<rparr>"

definition demo_engine :: "((StorageKey \<times> IndexEntry) list, mem_world \<times> nat) AttentionDBEngine" where
  "demo_engine = snd (engine_open demo_env demo_config (engine_create demo_env (([], [], 0), 4096) (\<lambda>_. 0) Map.empty))"

abbreviation demo_files :: "mem_world \<times> nat \<Rightarrow> string \<rightharpoonup> bytes" where
  "demo_files w \<equiv> mem_files (fst w)"

abbreviation demo_fds :: "mem_world \<times> nat \<Rightarrow> int \<rightharpoonup> string" where
  "demo_fds w \<equiv> mem_opened (fst w)"

lemma demo_env_ok: "environment_ok demo_env demo_files demo_fds (\<lambda>w. {..<snd w})"
  unfolding environment_ok_def
  using alist_table_laws reliable_half [OF mem_env_reliable] alloc_laws_half [OF brk_env_laws]
    alloc_keeps_half [of brk_env mem_files]
  by (simp add: demo_env_def)

lemma demo_first: "first_start demo_env demo_files demo_config (([], [], 0), 4096) Map.empty"
proof -
  have "readable_dirs (store_half mem_env :: (mem_world \<times> nat) store_env) mem_config"
    using mem_config_ok(2) by (simp add: readable_dirs_def store_half_def)
  then show ?thesis
    using mem_config_ok(1,3)
    by (simp add: first_start_def settings_ok_def demo_env_def demo_config_def config_in_range_def
        small_dram_def flip: numeral_2_eq_2)
qed

lemma demo_slab: "\<exists>a w mem. slab_create (en_alloc demo_env) small_dram ((f, 4096), m) = Inr (a, w, mem)"
  by (cases f) (simp add: slab_create_def small_dram_def demo_env_def alloc_half_def at_snd_def brk_env_def alloc_backing_def
      alloc_aligned_def add_class_def page_up_def wrap64_def wrap32_def Let_def upt_rec flip: numeral_2_eq_2)

lemma demo_open:
  "engine_open demo_env demo_config (engine_create demo_env (([], [], 0), 4096) (\<lambda>_. 0) Map.empty) = (Ret kOk, demo_engine)"
proof -
  let ?c = "engine_create demo_env (([], [], 0), 4096) (\<lambda>_. 0) Map.empty"
  obtain r e where op: "engine_open demo_env demo_config ?c = (r, e)" by fastforce
  have "\<exists>e'. open_t1 demo_env (?c\<lparr>eg_config := demo_config, eg_logger := logger_create (cfg_logging demo_config),
      eg_index := index_new (en_ck demo_env) 1048576\<rparr>) = Inr e'"
    using demo_slab [of "([], [], 0)" "\<lambda>_. 0"] by (auto simp: open_t1_def engine_create_def demo_config_def)
  then have "\<nexists>exn. r = Throws exn"
    using op by (auto simp: engine_open_def Let_def engine_create_def split: prod.splits if_splits)
  with engine_open_fresh(1) [OF demo_env_ok demo_first op] op show ?thesis by (simp add: demo_engine_def)
qed

text \<open>A put that is stored.\<close>

definition demo_opts :: PutOpts where
  "demo_opts = \<lparr>po_num_tokens = 1, po_recompute_cost = 100, po_entry_type = kSystemPrompt, po_ttl_seconds = 0\<rparr>"

abbreviation demo_key :: StorageKey where
  "demo_key \<equiv> key_of_bytes [7]"

lemma demo_fits: "blob_fits (blob_limit demo_config) [1, 2, 3]"
proof -
  have "entry_disk_size (length [1, 2, 3 :: byte]) = 4096" by (simp add: entry_disk_size_eq)
  then show ?thesis unfolding blob_fits_def by (simp add: demo_config_def mem_config_def)
qed

lemmas demo_opened = engine_open_fresh [OF demo_env_ok demo_first demo_open]

lemma demo_room: "put_room demo_engine"
  using demo_opened(4) by (simp add: put_room_def)

lemma demo_put:
  obtains e where "engine_put demo_env demo_key [1, 2, 3] demo_opts demo_engine = Some (kOk, e)"
    "engine_step demo_env (blob_limit demo_config) (demotable (cfg_admission demo_config))
      (demo_engine, Map.empty) (e, [demo_key \<mapsto> [1, 2, 3]])"
  by (rule first_put [OF demo_env_ok demo_first demo_open _ demo_fits, of demo_opts demo_key])
    (simp_all add: demo_opts_def demo_config_def mem_config_def default_nvme_store_def demotable_def Default_def)

lemma demo_run:
  obtains e where "(engine_step demo_env (blob_limit demo_config) (demotable (cfg_admission demo_config)))\<^sup>*\<^sup>*
    (demo_engine, Map.empty) (e, [demo_key \<mapsto> [1, 2, 3]])"
  by (rule demo_put) blast

end
