(* ===== verification/Engine_Restart.thy ===== *)
theory Engine_Restart
  imports Engine_Start
begin

text \<open>
  Closing and starting again: what the checkpoint and the segment files written at shutdown
  give the next process.
\<close>

section \<open>Scrubbing\<close>

lemma stale_keys_eq: "stale_keys ck m = map fst (filter (\<lambda>(k, e). ie_tier e = tier_code kT1Dram) (ck_lock_table ck m))"
proof -
  have "foldl (\<lambda>acc (k, e). if ie_tier e = tier_code kT1Dram then acc @ [k] else acc) acc ps =
      acc @ map fst (filter (\<lambda>(k, e). ie_tier e = tier_code kT1Dram) ps)" for acc and ps :: "(StorageKey \<times> IndexEntry) list"
    by (induction ps arbitrary: acc) auto
  then show ?thesis unfolding stale_keys_def by (subst iterate_all) auto
qed

lemma index_find_erase_all:
  assumes "cuckoo_laws ck"
  shows "index_find ck (fold (\<lambda>k m. snd (index_erase ck k m)) ks m) k = (if k \<in> set ks then None else index_find ck m k)"
  by (induction ks arbitrary: m) (auto simp: index_find_erase [OF assms])

text \<open>The part of an index that outlives the process.\<close>

definition t2_part :: "'m cuckoo \<Rightarrow> 'm \<Rightarrow> StorageKey \<rightharpoonup> IndexEntry" where
  "t2_part ck m k = (case index_find ck m k of None \<Rightarrow> None
     | Some x \<Rightarrow> if ie_tier x = tier_code kT1Dram then None else Some x)"

lemma scrub_t1_find:
  assumes laws: "cuckoo_laws ck"
  shows "index_find ck (scrub_t1 ck m) = t2_part ck m"
proof
  fix k
  have tab: "map_of (ck_lock_table ck m) = index_find ck m" "distinct (map fst (ck_lock_table ck m))"
    using snapshot_exact [OF laws, of m] by (simp_all add: snapshot_lock_table)
  have "k \<in> set (stale_keys ck m) \<longleftrightarrow> (\<exists>e. index_find ck m k = Some e \<and> ie_tier e = tier_code kT1Dram)"
    using tab(2) by (force simp: stale_keys_eq simp flip: tab(1))
  then show "index_find ck (scrub_t1 ck m) k = t2_part ck m k"
    by (auto simp: scrub_t1_def t2_part_def index_find_erase_all [OF laws] split: option.splits)
qed

lemma t2_part_cong: "index_find ck m = index_find ck m' \<Longrightarrow> t2_part ck m = t2_part ck m'"
  by (simp add: t2_part_def fun_eq_iff)

lemma t2_part_scrubbed:
  assumes "index_find ck m = t2_part ck m'"
  shows "t2_part ck m = t2_part ck m'"
  unfolding t2_part_def [of ck m] fun_eq_iff assms by (auto simp: t2_part_def split: option.splits)

section \<open>The checkpoint of a running engine\<close>

text \<open>The settings an engine runs with: its configuration, whether it lacks a T1, its T2 store's settings.\<close>

definition layout :: "('m, 'w) AttentionDBEngine \<Rightarrow> Config \<times> bool \<times> NvmeStoreConfig option" where
  "layout e = (eg_config e, t1_allocator e = None, map_option bs_config (t2_store e))"

definition planned :: "Config \<Rightarrow> Config \<times> bool \<times> NvmeStoreConfig option" where
  "planned cfg = (cfg, \<not> dc_enabled (cfg_dram_cache cfg),
     if nv_enabled (cfg_nvme_store cfg) then Some (cfg_nvme_store cfg) else None)"

text \<open>The image of an index of at most \<open>n\<close> entries whose T2 part is \<open>p\<close>; no file stands for the empty index.\<close>

definition image_of :: "('m, 'w) engine_env \<Rightarrow> nat \<Rightarrow> (StorageKey \<rightharpoonup> IndexEntry) \<Rightarrow> bytes option \<Rightarrow> bool" where
  "image_of V n p img \<longleftrightarrow> (case img of None \<Rightarrow> p = Map.empty
     | Some bs \<Rightarrow> \<exists>ts m. bs = checkpoint_image (en_xxh32 V) ts (snapshot (en_ck V) m) \<and> pairs_wf (snapshot (en_ck V) m) \<and>
         index_size (en_ck V) m \<le> n \<and> t2_part (en_ck V) m = p)"

lemma image_of_mono: "image_of V n p img \<Longrightarrow> n \<le> n' \<Longrightarrow> image_of V n' p img"
  by (force simp: image_of_def split: option.splits)

lemma image_of_snapshot:
  "pairs_wf (snapshot (en_ck V) m) \<Longrightarrow> index_size (en_ck V) m \<le> n \<Longrightarrow>
     image_of V n (t2_part (en_ck V) m) (Some (checkpoint_image (en_xxh32 V) ts (snapshot (en_ck V) m)))"
  unfolding image_of_def option.case by blast

definition wf_index :: "('m, 'w) engine_env \<Rightarrow> ('m, 'w) AttentionDBEngine \<Rightarrow> bool" where
  "wf_index V e \<longleftrightarrow> (\<forall>k x. look V e k = Some x \<longrightarrow> entry_wf x)"

text \<open>
  The engine has the planned parts, the periodic thread runs, entries can be written to the
  file, and as long as the dirty flag is down the file holds the T2 part of the index.
\<close>

definition ckpt_ok :: "('m, 'w) engine_env \<Rightarrow> Config \<Rightarrow> ('m, 'w) AttentionDBEngine \<Rightarrow> bool" where
  "ckpt_ok V cfg e \<longleftrightarrow> cuckoo_laws (en_ck V) \<and> layout e = planned cfg \<and> wf_index V e \<and>
     dir (eg_checkpoint e) = checkpoint_dir cfg \<and> thread_joinable (eg_checkpoint e) \<and>
     (dirty (eg_checkpoint e) \<or> image_of V (max kMaxEntries (index_size (en_ck V) (eg_index e)))
        (t2_part (en_ck V) (eg_index e)) (eg_files e (checkpoint_path (eg_checkpoint e))))"

lemma ckpt_okD:
  assumes "ckpt_ok V cfg e"
  shows "cuckoo_laws (en_ck V)" "layout e = planned cfg" "wf_index V e" "dir (eg_checkpoint e) = checkpoint_dir cfg"
    "thread_joinable (eg_checkpoint e)"
    "dirty (eg_checkpoint e) \<or> image_of V (max kMaxEntries (index_size (en_ck V) (eg_index e)))
        (t2_part (en_ck V) (eg_index e)) (eg_files e (checkpoint_path (eg_checkpoint e)))"
  using assms by (simp_all add: ckpt_ok_def)

lemma ckpt_ok_wf: "ckpt_ok V cfg e \<Longrightarrow> pairs_wf (snapshot (en_ck V) (eg_index e))"
  by (rule index_entries_wf) (auto simp: ckpt_ok_def wf_index_def)

text \<open>Steps that leave index, checkpoint manager and files alone, and steps that raise the flag.\<close>

lemma ckpt_ok_same:
  assumes "ckpt_ok V cfg e" and "eg_index e' = eg_index e" "eg_checkpoint e' = eg_checkpoint e" "eg_files e' = eg_files e"
    and "layout e' = layout e"
  shows "ckpt_ok V cfg e'"
  using assms(1) unfolding ckpt_ok_def wf_index_def assms(2-5) .

lemma ckpt_ok_dirty:
  assumes "ckpt_ok V cfg e" and "wf_index V e'" and "eg_checkpoint e' = mark_dirty (eg_checkpoint e)" and "layout e' = layout e"
  shows "ckpt_ok V cfg e'"
  using assms by (simp add: ckpt_ok_def mark_dirty_def)

lemma t2_write_config:
  assumes "t2_write env key data checksum (s, w) = (r, s', w')"
  shows "bs_config s' = bs_config s"
proof -
  have fl: "bs_config (fst (flush_write env st)) = bs_config (fst st)" for st
    using flush_config(2) [of env "fst st" "snd st"] by (metis prod.collapse)
  have wr: "bs_config s' = bs_config (fst st)" if "write_acquire env key data checksum d st = (r, s', w')" for st d r s' w'
    using write_acquire_config [of env key data checksum d "fst st" "snd st"] that by simp
  show ?thesis
    using assms
    by (auto simp: t2_write_def fl flush_config(1) split: prod.splits write_outcome.splits
        dest!: blob_write_config wr)
qed

lemma entry_wf_t2 [simp]: "entry_wf x \<Longrightarrow> entry_wf (to_t2 loc x)"
  by (simp add: entry_wf_def to_t2_def)

lemma entry_wf_new [simp]: "entry_wf (new_entry now opts blob)"
proof -
  have "entry_wf (zero_entry\<lparr>ie_recompute_cost := po_recompute_cost opts, ie_num_tokens := po_num_tokens opts,
      ie_access_count := 1, ie_slru_segment := slru_segment_code kProbationary,
      ie_checksum := compute_crc32 blob, ie_length := of_nat (length blob)\<rparr>)"
    using entry_wf_updates(1) by (simp add: entry_wf_def)
  then show ?thesis by (simp add: new_entry_def)
qed

lemma evict_one_wf:
  assumes laws: "cuckoo_laws (en_ck V)" and wf: "wf_index V e" and ev: "evict_one V k e = Some e'"
  shows "wf_index V e' \<and> eg_checkpoint e' = eg_checkpoint e \<and> eg_files e' = eg_files e \<and> layout e' = layout e"
proof -
  have d: "wf_index V e1 \<and> eg_checkpoint e1 = eg_checkpoint e \<and> eg_files e1 = eg_files e \<and> layout e1 = layout e"
    if "demote V k x e = Some (b, e1)" "look V e k = Some x" for x b e1
    using that wf
    by (auto simp: demote_def wf_index_def layout_def index_find_upsert [OF laws]
        split: option.splits if_splits prod.splits write_outcome.splits Status.splits dest!: t2_write_config)
  show ?thesis
    using ev wf d unfolding layout_def
    by (auto simp: evict_one_def Let_def wf_index_def index_find_erase [OF laws] split: option.splits if_splits)
qed

lemma put_commit_ckpt:
  assumes ok: "ckpt_ok V cfg e" and x: "entry_wf x" and c: "put_commit V key x e = Some e'"
  shows "ckpt_ok V cfg e'"
proof -
  let ?e = "e\<lparr>eg_index := upsert (en_ck V) key x (eg_index e), eg_checkpoint := mark_dirty (eg_checkpoint e)\<rparr>"
  let ?P = "\<lambda>e1. wf_index V e1 \<and> eg_checkpoint e1 = mark_dirty (eg_checkpoint e) \<and> layout e1 = layout e"
  note laws = ckpt_okD(1) [OF ok]
  obtain e1 where ev: "evict_if_needed V ?e = Some e1" and e': "eg_index e' = eg_index e1"
    "eg_checkpoint e' = eg_checkpoint e1" "eg_files e' = eg_files e1" "layout e' = layout e1"
    using c by (auto simp: put_commit_def layout_def)
  have "?P e1"
  proof (rule evict_if_needed_keeps [where P = ?P, OF _ _ _ ev])
    show "?P e3" if "?P e2" "evict_one V k e2 = Some e3" for k e2 e3
      using that evict_one_wf [OF laws, of e2 k e3] by simp
    show "?P (e2\<lparr>t1_eviction := ev\<rparr>)" if "?P e2" for e2 ev using that by (simp add: wf_index_def layout_def)
    show "?P ?e" using ckpt_okD(3) [OF ok] x by (auto simp: wf_index_def layout_def index_find_upsert [OF laws])
  qed
  then have "ckpt_ok V cfg e1" using ckpt_ok_dirty [OF ok] by blast
  then show ?thesis by (rule ckpt_ok_same) (simp_all add: e')
qed

lemma engine_put_ckpt:
  assumes ok: "ckpt_ok V cfg e" and put: "engine_put V key blob opts e = Some (s, e')"
  shows "ckpt_ok V cfg e'"
proof (cases "eg_opened e \<and> evaluate (eg_admission e) opts (storage_utilization e) = kAdmit \<and> \<not> length blob > UINT32_MAX")
  case False
  then show ?thesis
    using put by (intro ckpt_ok_same [OF ok]) (auto simp: engine_put_def Let_def log_at_def layout_def split: if_splits)
next
  case True
  let ?e = "e\<lparr>eg_admission := record_evaluation kAdmit (eg_admission e)\<rparr>"
  let ?x = "new_entry (en_steady_us V (eg_world ?e)) opts blob"
  obtain stored x e1 where pt: "put_t1 V key blob opts ?x ?e = (stored, x, e1)" by (metis prod_cases3)
  have x: "entry_wf x"
    using pt entry_wf_new [of "en_steady_us V (eg_world ?e)" opts blob]
    by (auto simp: put_t1_def entry_wf_def split: option.splits prod.splits if_splits)
  have ok1: "ckpt_ok V cfg e1"
    using pt by (intro ckpt_ok_same [OF ok]) (auto simp: put_t1_def layout_def split: option.splits prod.splits if_splits)
  show ?thesis
  proof (cases stored)
    case True
    then have "put_commit V key x e1 = Some e'"
      using put pt \<open>eg_opened e \<and> _\<close> by (auto simp: engine_put_def Let_def)
    with ok1 x show ?thesis by (rule put_commit_ckpt)
  next
    case False
    then obtain r e2 where p2: "put_t2 V key blob opts x e1 = Some (r, e2)"
      and r: "case r of Inl t \<Rightarrow> e' = e2 | Inr y \<Rightarrow> put_commit V key y e2 = Some e'"
      using put pt True by (auto simp: engine_put_def Let_def split: option.splits sum.splits)
    have "ckpt_ok V cfg e2"
      using p2 by (intro ckpt_ok_same [OF ok1])
        (auto simp: put_t2_def log_at_def layout_def
          split: option.splits prod.splits write_outcome.splits Status.splits dest!: t2_write_config)
    moreover have "entry_wf y" if "r = Inr y" for y
      using p2 x that by (auto simp: put_t2_def split: option.splits prod.splits write_outcome.splits Status.splits)
    ultimately show ?thesis using r put_commit_ckpt by (auto split: sum.splits)
  qed
qed

lemma engine_get_ckpt:
  assumes ok: "ckpt_ok V cfg e"
  shows "ckpt_ok V cfg (snd (engine_get V k n e))"
proof -
  have "ckpt_ok V cfg (get_finish V k e1)"
    if "eg_index e1 = eg_index e" "eg_checkpoint e1 = eg_checkpoint e" "layout e1 = layout e" for e1
    using that ckpt_okD(3) [OF ok]
    by (intro ckpt_ok_dirty [OF ok])
      (auto simp: get_finish_def Let_def wf_index_def layout_def index_find_update [OF ckpt_okD(1) [OF ok]] split: if_splits)
  then show ?thesis
    using ok ckpt_ok_same [OF ok]
    by (simp add: engine_get_def get_entry_def Let_def log_at_def layout_def split: option.split prod.split)
qed

lemma engine_del_ckpt:
  assumes ok: "ckpt_ok V cfg e"
  shows "ckpt_ok V cfg (snd (engine_del V k e))"
proof (cases "eg_opened e \<and> look V e k \<noteq> None")
  case False
  then show ?thesis using ok by (auto simp: engine_del_def del_entry_def)
next
  case True
  have "map_option bs_config (map_option (mark_dead loc) x) = map_option bs_config x" for loc and x :: "BlobStore option"
    by (cases x) (simp_all add: mark_dead_frame)
  with True ckpt_okD(3) [OF ok] show ?thesis
    by (intro ckpt_ok_dirty [OF ok])
      (auto simp: engine_del_def del_entry_def Let_def wf_index_def layout_def index_find_erase [OF ckpt_okD(1) [OF ok]] split: if_splits)
qed

lemma periodic_tick_ckpt:
  assumes ok: "ckpt_ok V cfg e"
    and tick: "periodic_tick (en_ck V) (en_xxh32 V) io (eg_index e) (eg_checkpoint e, eg_files e) = (r, c, fs)"
  shows "ckpt_ok V cfg (e\<lparr>eg_checkpoint := c, eg_files := fs\<rparr>)"
proof (cases "running (eg_checkpoint e) \<and> dirty (eg_checkpoint e)")
  case False
  then have "c = eg_checkpoint e" "fs = eg_files e" using tick by (auto simp: periodic_tick_def split: if_splits)
  then show ?thesis using ok by (intro ckpt_ok_same [OF ok]) (simp_all add: layout_def)
next
  case True
  obtain r' where s: "save_snapshot (en_xxh32 V) io (snapshot (en_ck V) (eg_index e)) (eg_checkpoint e, eg_files e) = (r', c, fs)"
    using tick True by (auto simp: periodic_tick_def save_def split: prod.splits sum.splits)
  from s show ?thesis
  proof (cases rule: save_cases)
    case idle
    with True show ?thesis by simp
  next
    case saved
    let ?p = "checkpoint_path (eg_checkpoint e)"
    have "image_of V (max kMaxEntries (index_size (en_ck V) (eg_index e))) (t2_part (en_ck V) (eg_index e)) (fs ?p)"
      using image_of_snapshot [OF ckpt_ok_wf [OF ok]] saved(4) by (simp add: checkpoint_path_def checkpoint_tmp_path_def)
    then show ?thesis
      using ok saved(3) by (auto simp: ckpt_ok_def wf_index_def layout_def checkpoint_path_def)
  next
    case (failed x)
    then show ?thesis using ok True by (simp add: ckpt_ok_def wf_index_def layout_def)
  qed
qed

lemma engine_step_ckpt:
  assumes "engine_step V cap allowed x y" and "ckpt_ok V cfg (fst x)"
  shows "ckpt_ok V cfg (fst y)"
  using assms(1)
proof cases
  case (put k blob opts e s e' kv)
  then show ?thesis using engine_put_ckpt [OF _ put(3)] assms(2) by simp
next
  case (get k n e r e' kv)
  then show ?thesis using engine_get_ckpt [of V cfg e k n] assms(2) by simp
next
  case (del k e s e' kv)
  then show ?thesis using engine_del_ckpt [of V cfg e k] assms(2) by simp
next
  case (checkpoint e r c fs kv)
  then show ?thesis using periodic_tick_ckpt [OF _ checkpoint(3)] assms(2) by simp
next
  case (flush_end e st st' w' kv)
  then show ?thesis
    using flush_config(2) [OF flush_end(4)] by (intro ckpt_ok_same [OF assms(2)]) (simp_all add: layout_def)
qed (use ckpt_ok_same [OF assms(2)] in \<open>auto simp: layout_def flush_config(1) gc_tick_counts\<close>)

section \<open>Shutdown\<close>

text \<open>A disk on which a checkpoint of any allowed size can be written and read back.\<close>

definition disk_healthy :: "('m, 'w) engine_env \<Rightarrow> bool" where
  "disk_healthy V \<longleftrightarrow> (\<forall>w. io_healthy kMaxEntries (en_faults V w))"

lemma io_healthy_mono: "io_healthy n io \<Longrightarrow> m \<le> n \<Longrightarrow> io_healthy m io"
  by (simp add: io_healthy_def)

lemma disk_healthyD: "disk_healthy V \<Longrightarrow> n \<le> kMaxEntries \<Longrightarrow> io_healthy n (en_faults V w)"
  using io_healthy_mono unfolding disk_healthy_def by blast

lemma stop_saves:
  assumes ok: "ckpt_ok V cfg e" and few: "index_size (en_ck V) (eg_index e) \<le> kMaxEntries" and io: "disk_healthy V"
  shows "\<exists>c fs. stop (en_ck V) (en_xxh32 V) (en_faults V w) (eg_index e) (eg_checkpoint e, eg_files e) = Some (c, fs) \<and>
    image_of V kMaxEntries (t2_part (en_ck V) (eg_index e)) (fs (checkpoint_dir cfg @ ''/index.checkpoint''))"
proof -
  let ?c = "(eg_checkpoint e)\<lparr>running := False\<rparr>" and ?ps = "snapshot (en_ck V) (eg_index e)"
  note D = ckpt_okD [OF ok]
  have path: "checkpoint_path c = checkpoint_dir cfg @ ''/index.checkpoint''" if "dir c = dir (eg_checkpoint e)" for c
    unfolding checkpoint_path_def that D(4) ..
  have len: "length ?ps = index_size (en_ck V) (eg_index e)" using D(1) by (rule snapshot_exact)
  show ?thesis
  proof (cases "dirty (eg_checkpoint e)")
    case True
    let ?fs = "(eg_files e)(checkpoint_path ?c \<mapsto> checkpoint_image (en_xxh32 V) (wall_clock (en_faults V w)) ?ps,
        checkpoint_tmp_path ?c := None)"
    have "save_snapshot (en_xxh32 V) (en_faults V w) ?ps (?c, eg_files e) =
      (Inr kOk, ?c\<lparr>dirty := False, last_entries := of_nat (length ?ps), last_duration_ms := elapsed_ms (en_faults V w)\<rparr>, ?fs)"
      using True ckpt_ok_wf [OF ok] disk_healthyD [OF io few] by (intro save_healthy) (simp_all add: len)
    with True D(5) have "\<exists>c. stop (en_ck V) (en_xxh32 V) (en_faults V w) (eg_index e) (eg_checkpoint e, eg_files e) = Some (c, ?fs)"
      by (simp add: stop_def periodic_final_def save_def Let_def)
    moreover have "image_of V kMaxEntries (t2_part (en_ck V) (eg_index e)) (?fs (checkpoint_path ?c))"
      using image_of_snapshot [OF ckpt_ok_wf [OF ok] few] by (simp add: checkpoint_path_def checkpoint_tmp_path_def)
    ultimately show ?thesis unfolding path [of ?c, simplified] by blast
  next
    case False
    with D(6) few have "image_of V kMaxEntries (t2_part (en_ck V) (eg_index e)) (eg_files e (checkpoint_path (eg_checkpoint e)))"
      using max_absorb1 [OF few] by simp
    with False D(5) show ?thesis
      unfolding path [OF refl] by (simp add: stop_def periodic_final_def Let_def)
  qed
qed

text \<open>What the destructor leaves: a checkpoint of the T2 part and every acknowledged T2 blob.\<close>

lemma engine_delete_leaves:
  assumes env: "environment_ok V contents opened owned" and inv: "cache_inv V contents opened (blob_limit cfg) A kv e"
    and op: "eg_opened e" and ok: "ckpt_ok V cfg e" and few: "index_size (en_ck V) (eg_index e) \<le> kMaxEntries"
    and io: "disk_healthy V" and ids: "ids_used e < UINT32_MAX"
  shows "\<exists>w mem fs. engine_delete V e = Some (w, mem, fs) \<and>
    image_of V kMaxEntries (t2_part (en_ck V) (eg_index e)) (fs (checkpoint_dir cfg @ ''/index.checkpoint'')) \<and>
    (nv_enabled (cfg_nvme_store cfg) \<longrightarrow> left_behind (cfg_nvme_store cfg) (ids_used e) A (contents w))"
proof -
  note laws = environment_okD [OF env]
  let ?e = "log_at V (\<lambda>now. log_info now ''engine_closing'' []) (e\<lparr>eg_opened := False\<rparr>)"
  have e: "eg_index ?e = eg_index e" "eg_checkpoint ?e = eg_checkpoint e" "eg_files ?e = eg_files e" "t2_store ?e = t2_store e"
    "eg_world ?e = eg_world e" "t1_allocator ?e = t1_allocator e"
    by (simp_all add: log_at_def)
  obtain c fs where st: "stop (en_ck V) (en_xxh32 V) (en_faults V (eg_world ?e)) (eg_index e) (eg_checkpoint e, eg_files e) = Some (c, fs)"
    and img: "image_of V kMaxEntries (t2_part (en_ck V) (eg_index e)) (fs (checkpoint_dir cfg @ ''/index.checkpoint''))"
    using stop_saves [OF ok few io] by blast
  let ?e1 = "?e\<lparr>eg_checkpoint := c, eg_files := fs, eg_logger := logger_stop (eg_logger ?e)\<rparr>"
  define free where "free w = (case t1_allocator e of None \<Rightarrow> w | Some a \<Rightarrow> destroy (en_alloc V) a w)" for w
  have free: "contents (free w) = contents w" for w
    using destroy_keeps [OF laws(4)] by (simp add: free_def split: option.split)
  have lay: "map_option bs_config (t2_store e) = (if nv_enabled (cfg_nvme_store cfg) then Some (cfg_nvme_store cfg) else None)"
    using ckpt_okD(2) [OF ok] by (simp add: layout_def planned_def)
  show ?thesis
  proof (cases "t2_store e")
    case None
    then have "engine_close V e = (Ret (), ?e1)" using op st by (simp add: engine_close_def Let_def e)
    then have "engine_delete V e = Some (free (eg_world e), eg_memory ?e1, fs)"
      using None by (simp add: engine_delete_def e free_def Let_def split: option.split)
    then show ?thesis using img lay None by (simp split: if_splits)
  next
    case (Some s)
    obtain s' w' where cl: "blob_close (en_store V) (s, eg_world e) = (s', w')" by fastforce
    have "engine_close V e = (Ret (), ?e1\<lparr>t2_store := Some s', eg_world := w'\<rparr>)"
      using op st Some cl by (simp add: engine_close_def Let_def e)
    then have del: "engine_delete V e = Some (free w', eg_memory ?e1, fs)"
      using blob_close_again [OF cl] by (simp add: engine_delete_def e free_def Let_def split: option.split)
    from cache_invD(5) [OF inv Some] obtain E where
      store: "store_inv (blob_limit cfg) False (opened (eg_world e)) (contents (eg_world e)) E s" and A: "\<forall>a \<in> A. logged E a"
      by (auto simp: backend_ok_def)
    have "left_behind (bs_config s) (next_segment_id s) A (contents (free w'))"
      unfolding left_behind_def free
      using blob_close_saves [OF laws(2) store cl] A ids Some by (intro conjI exI [of _ E]) (simp_all add: ids_used_def)
    then show ?thesis using del img lay Some by (auto simp: ids_used_def split: if_splits)
  qed
qed

section \<open>The next start\<close>

lemma engine_open_index:
  assumes "engine_open V cfg (engine_create V w mem fs) = (Ret kOk, e)"
  obtains w' c where "dir c = checkpoint_dir cfg" "eg_index e =
    (case load (en_ck V) (en_xxh32 V) (en_faults V w') c fs (index_new (en_ck V) 1048576) of
       (s, m) \<Rightarrow> if s \<noteq> kOk then m else scrub_t1 (en_ck V) m)"
proof -
  from engine_open_rest [OF assms] obtain e1 where e: "e = open_rest V e1"
    and e1: "eg_index e1 = index_new (en_ck V) 1048576" "eg_config e1 = cfg" "eg_files e1 = fs" by blast
  have idx: "eg_index (load_checkpoint V f) =
    (case load (en_ck V) (en_xxh32 V) (en_faults V (eg_world f)) (eg_checkpoint f) (eg_files f) (eg_index f) of
       (s, m) \<Rightarrow> if s \<noteq> kOk then m else scrub_t1 (en_ck V) m)" for f
    by (simp add: load_checkpoint_def Let_def log_at_def split: prod.split)
  define c where "c = checkpoint_create (cfg_checkpoint cfg) (checkpoint_dir cfg)"
  have "eg_index e =
    (case load (en_ck V) (en_xxh32 V) (en_faults V (se_create_directories (en_store V) (eg_world e1) (checkpoint_dir cfg))) c fs
        (index_new (en_ck V) 1048576) of (s, m) \<Rightarrow> if s \<noteq> kOk then m else scrub_t1 (en_ck V) m)"
    unfolding e open_rest_def Let_def e1 c_def log_at_def by (simp add: idx e1 log_at_def)
  then show thesis by (intro that) (simp_all add: c_def checkpoint_create_def)
qed

lemma reopened_index:
  assumes laws: "cuckoo_laws (en_ck V)" and io: "fs (checkpoint_dir cfg @ ''/index.checkpoint'') \<noteq> None \<longrightarrow> disk_healthy V"
    and img: "image_of V kMaxEntries p (fs (checkpoint_dir cfg @ ''/index.checkpoint''))"
    and op: "engine_open V cfg (engine_create V w mem fs) = (Ret kOk, e)"
  shows "index_find (en_ck V) (eg_index e) = p"
proof -
  obtain w' c where c: "dir c = checkpoint_dir cfg" and idx: "eg_index e =
      (case load (en_ck V) (en_xxh32 V) (en_faults V w') c fs (index_new (en_ck V) 1048576) of
         (s, m) \<Rightarrow> if s \<noteq> kOk then m else scrub_t1 (en_ck V) m)" using op by (rule engine_open_index)
  have path: "checkpoint_path c = checkpoint_dir cfg @ ''/index.checkpoint''" unfolding checkpoint_path_def c ..
  show ?thesis
  proof (cases "fs (checkpoint_path c)")
    case None
    then have "eg_index e = index_new (en_ck V) 1048576" by (simp add: idx load_def)
    moreover have "p = Map.empty" using img None unfolding image_of_def path by simp
    ultimately show ?thesis by (simp add: index_find_new [OF laws] fun_eq_iff)
  next
    case (Some bs)
    with img obtain ts m where f: "fs (checkpoint_path c) = Some (checkpoint_image (en_xxh32 V) ts (snapshot (en_ck V) m))"
      and m: "pairs_wf (snapshot (en_ck V) m)" "index_size (en_ck V) m \<le> kMaxEntries" "t2_part (en_ck V) m = p"
      unfolding image_of_def path by auto
    have "disk_healthy V" using io Some unfolding path by simp
    from load_saved_image [where c = c and fs = fs, OF laws m(1,2) disk_healthyD [OF this m(2), of w'] f, of 1048576]
    obtain m' where "load (en_ck V) (en_xxh32 V) (en_faults V w') c fs (index_new (en_ck V) 1048576) = (kOk, m')"
      and m': "index_find (en_ck V) m' = index_find (en_ck V) m" by blast
    then show ?thesis using t2_part_cong [OF m'] by (simp add: idx scrub_t1_find [OF laws] m(3))
  qed
qed

text \<open>A start after an orderly stop of an engine whose index had T2 part \<open>p\<close>.\<close>

lemma engine_reopen:
  assumes env: "environment_ok V contents opened owned" and set: "settings_ok V cfg"
    and io: "fs (checkpoint_dir cfg @ ''/index.checkpoint'') \<noteq> None \<longrightarrow> disk_healthy V"
    and img: "image_of V kMaxEntries p (fs (checkpoint_dir cfg @ ''/index.checkpoint''))"
    and p: "\<And>k x. p k = Some x \<Longrightarrow> entry_wf x \<and> ie_tier x \<noteq> tier_code kT1Dram"
    and left: "nv_enabled (cfg_nvme_store cfg) \<longrightarrow> left_behind (cfg_nvme_store cfg) n A (contents w)"
    and op: "engine_open V cfg (engine_create V w mem fs) = (Ret kOk, e)"
  shows "index_find (en_ck V) (eg_index e) = p" and "ckpt_ok V cfg e"
    and "parts_ok V contents opened (blob_limit cfg) A e" and "eg_opened e" and "ad_config (eg_admission e) = cfg_admission cfg"
proof -
  note P = engine_open_parts [OF env set left op]
  show find: "index_find (en_ck V) (eg_index e) = p"
    using environment_okD(1) [OF env] io img op by (rule reopened_index)
  show "parts_ok V contents opened (blob_limit cfg) A e" "eg_opened e" "ad_config (eg_admission e) = cfg_admission cfg"
    using P by simp_all
  have "eg_checkpoint e = start_periodic (checkpoint_create (cfg_checkpoint cfg) (checkpoint_dir cfg))" using P by simp
  then have ck: "dir (eg_checkpoint e) = checkpoint_dir cfg" "thread_joinable (eg_checkpoint e)"
    "checkpoint_path (eg_checkpoint e) = checkpoint_dir cfg @ ''/index.checkpoint''"
    unfolding checkpoint_path_def by (simp_all add: start_periodic_def checkpoint_create_def)
  have "layout e = planned cfg" using P by (auto simp: layout_def planned_def)
  moreover have "t2_part (en_ck V) (eg_index e) = p"
    using p by (fastforce simp: t2_part_def find fun_eq_iff split: option.split)
  moreover have "image_of V (max kMaxEntries (index_size (en_ck V) (eg_index e))) p (eg_files e (checkpoint_path (eg_checkpoint e)))"
    using image_of_mono [OF img] P unfolding ck by simp
  ultimately show "ckpt_ok V cfg e"
    unfolding ckpt_ok_def using environment_okD(1) [OF env] p ck by (auto simp: wf_index_def find)
qed

end
