(* ===== verification/Engine_Life.thy ===== *)
theory Engine_Life
  imports Engine_Restart
begin

text \<open>
  The life of a cache: operations, background turns and orderly restarts in any order. The
  theorems say what clients observe in every state of such a life.
\<close>

section \<open>Lives\<close>

text \<open>
  Beside the steps of a running engine there is the restart: the engine is deleted and a new
  process opens another one, with the same settings, on the files left behind. The second
  component of a state records the acknowledged blobs; a restart takes those out of it that
  were in DRAM only. A restart needs a disk that works, an index no larger than a checkpoint
  may be, and a segment id that is still free.
\<close>

inductive engine_life :: "('m, 'w) engine_env \<Rightarrow> Config \<Rightarrow> (PutOpts \<Rightarrow> bool) \<Rightarrow>
    ('m, 'w) AttentionDBEngine \<times> (StorageKey \<rightharpoonup> bytes) \<Rightarrow> ('m, 'w) AttentionDBEngine \<times> (StorageKey \<rightharpoonup> bytes) \<Rightarrow> bool"
  for V cfg allowed where
  operate: "engine_step V (blob_limit cfg) allowed x y \<Longrightarrow> engine_life V cfg allowed x y"
| restart: "engine_delete V e = Some (w, mem, fs) \<Longrightarrow> engine_open V cfg (engine_create V w mem' fs) = (Ret kOk, e') \<Longrightarrow>
     index_size (en_ck V) (eg_index e) \<le> kMaxEntries \<Longrightarrow> ids_used e < UINT32_MAX \<Longrightarrow> disk_healthy V \<Longrightarrow>
     engine_life V cfg allowed (e, kv) (e', kv |` dom (t2_part (en_ck V) (eg_index e)))"

definition alive :: "('m, 'w) engine_env \<Rightarrow> ('w \<Rightarrow> string \<rightharpoonup> bytes) \<Rightarrow> ('w \<Rightarrow> int \<rightharpoonup> string) \<Rightarrow> Config \<Rightarrow>
    ('m, 'w) AttentionDBEngine \<times> (StorageKey \<rightharpoonup> bytes) \<Rightarrow> bool" where
  "alive V contents opened cfg x \<longleftrightarrow> cache_ok V contents opened (blob_limit cfg) x \<and> ckpt_ok V cfg (fst x)"

lemma aliveE:
  assumes "alive V contents opened cfg (e, kv)"
  obtains A where "cache_inv V contents opened (blob_limit cfg) A kv e" "eg_opened e" "ckpt_ok V cfg e"
  using assms by (auto simp: alive_def cache_ok_def)

lemma life_start:
  assumes env: "environment_ok V contents opened owned" and first: "first_start V contents cfg w0 fs"
    and op: "engine_open V cfg (engine_create V w0 mem0 fs) = (Ret kOk, e0)"
  shows "alive V contents opened cfg (e0, Map.empty)"
proof -
  have "ckpt_ok V cfg e0"
  proof (rule engine_reopen(2) [where p = Map.empty and n = 0 and A = "{}", OF env _ _ _ _ _ op])
    show "image_of V kMaxEntries Map.empty (fs (checkpoint_dir cfg @ ''/index.checkpoint''))"
      using first unfolding first_start_def image_of_def by simp
  qed (use first left_behind_none in \<open>auto simp: first_start_def\<close>)
  then show ?thesis using engine_open_fresh(2) [OF env first op] by (simp add: alive_def)
qed

lemma t2_part_Some:
  assumes "cache_inv V contents opened cap A kv e"
  shows "t2_part (en_ck V) (eg_index e) k = Some x \<longleftrightarrow> look V e k = Some x \<and> ie_tier x = tier_code kT2Nvme"
  using cache_invD(6) [OF assms, of k] by (auto simp: t2_part_def serves_def split: option.splits)

text \<open>What the next engine has, and that it meets the contract again.\<close>

lemma life_restart:
  assumes env: "environment_ok V contents opened owned" and set: "settings_ok V cfg" and al: "alive V contents opened cfg (e, kv)"
    and few: "index_size (en_ck V) (eg_index e) \<le> kMaxEntries" and ids: "ids_used e < UINT32_MAX" and io: "disk_healthy V"
    and del: "engine_delete V e = Some (w, mem, fs)" and op: "engine_open V cfg (engine_create V w mem' fs) = (Ret kOk, e')"
  defines "p \<equiv> t2_part (en_ck V) (eg_index e)"
  shows "index_find (en_ck V) (eg_index e') = p" and "alive V contents opened cfg (e', kv |` dom p)"
    and "lossless V acfg (e, kv) \<Longrightarrow> lossless V acfg (e', kv |` dom p)"
proof -
  from al obtain A where inv: "cache_inv V contents opened (blob_limit cfg) A kv e" and opn: "eg_opened e" and ck: "ckpt_ok V cfg e"
    by (rule aliveE)
  have img: "image_of V kMaxEntries p (fs (checkpoint_dir cfg @ ''/index.checkpoint''))"
    and left: "nv_enabled (cfg_nvme_store cfg) \<longrightarrow> left_behind (cfg_nvme_store cfg) (ids_used e) A (contents w)"
    using engine_delete_leaves [OF env inv opn ck few io ids] del unfolding p_def by auto
  have p: "entry_wf x \<and> ie_tier x \<noteq> tier_code kT1Dram" if "p k = Some x" for k x
    using ckpt_okD(3) [OF ck] that by (auto simp: p_def t2_part_def wf_index_def split: option.splits if_splits)
  note R = engine_reopen [OF env set impI [OF io] img p left op]
  show find: "index_find (en_ck V) (eg_index e') = p" by (rule R(1))
  have lay: "layout e' = layout e" using ckpt_okD(2) [OF ck] ckpt_okD(2) [OF R(2)] by simp
  then have t2: "t2_store e' = None \<longleftrightarrow> t2_store e = None" unfolding layout_def by (metis map_option_is_None prod.inject)
  have serves: "serves_t2 A (kv |` dom p) e' k x \<and> ie_tier x = tier_code kT2Nvme" if "p k = Some x" for k x
    using that cache_invD(6) [OF inv, of k x] t2_part_Some [OF inv, of k x]
    by (auto simp: p_def serves_def serves_t2_def t2 restrict_map_def)
  have "cache_inv V contents opened (blob_limit cfg) A (kv |` dom p) e'"
    unfolding cache_inv_def index_serves_def
    using R(3) serves inv by (fastforce simp: find serves_def in_t1_def cache_inv_def restrict_map_def split: if_splits)
  then show "alive V contents opened cfg (e', kv |` dom p)" using R(2,4) by (auto simp: alive_def cache_ok_def)
  show "lossless V acfg (e', kv |` dom p)" if "lossless V acfg (e, kv)"
  proof -
    from that have l: "t2_store e \<noteq> None" "\<And>k c. costs V e k = Some c \<Longrightarrow> min_cost e \<le> c" "dom (costs V e) = dom kv"
      "cfg_admission (eg_config e) = acfg"
      by (simp_all add: lossless_def worthy_def)
    have conf: "eg_config e' = eg_config e" "cfg_admission cfg = cfg_admission (eg_config e)"
      using lay ckpt_okD(2) [OF ck] by (simp_all add: layout_def planned_def)
    have sub: "costs V e k = costs V e' k" if "p k \<noteq> None" for k
      using that by (auto simp: costs_def find p_def t2_part_def split: option.splits if_splits)
    have none: "costs V e' k = None" if "p k = None" for k using that by (simp add: costs_def find)
    have "min_cost e' \<le> c" if "costs V e' k = Some c" for k c
      using that l(2) [of k c] none [of k] sub [of k] by (cases "p k") (simp_all add: conf min_cost_def)
    moreover have "dom (costs V e') = dom p" by (auto simp: costs_def find)
    moreover have "dom p \<subseteq> dom kv" using l(3) sub \<open>dom (costs V e') = dom p\<close> by (metis domIff subsetI)
    ultimately show ?thesis
      unfolding lossless_def worthy_def using l t2 conf R(5) by (auto simp: dom_restrict)
  qed
qed

lemma life_alive:
  assumes "(engine_life V cfg allowed)\<^sup>*\<^sup>* x y" and "environment_ok V contents opened owned" and "settings_ok V cfg"
    and "alive V contents opened cfg x"
  shows "alive V contents opened cfg y"
  using assms(1)
proof (induction rule: rtranclp_induct)
  case (step y z)
  from step(2) show ?case
  proof cases
    case operate
    with step.IH show ?thesis by (auto simp: alive_def intro: engine_step_ok engine_step_ckpt)
  next
    case (restart e w mem fs mem' e' kv)
    with step.IH show ?thesis using life_restart(2) [OF assms(2,3)] by blast
  qed
qed (rule assms(4))

lemma life_lossless:
  assumes "(engine_life V cfg (demotable acfg))\<^sup>*\<^sup>* x y" and env: "environment_ok V contents opened owned" and set: "settings_ok V cfg"
    and al: "alive V contents opened cfg x" and "lossless V acfg x"
  shows "lossless V acfg y"
  using assms(1)
proof (induction rule: rtranclp_induct)
  case (step y z)
  have "alive V contents opened cfg y" using step(1) env set al by (rule life_alive)
  with step(2,3) show ?case
  proof cases
    case operate
    with \<open>alive V contents opened cfg y\<close> step(3) show ?thesis by (auto simp: alive_def intro: engine_step_lossless)
  next
    case (restart e w mem fs mem' e' kv)
    with \<open>alive V contents opened cfg y\<close> step(3) show ?thesis using life_restart(3) [OF env set] by blast
  qed
qed (rule assms(5))

lemma life_from_start:
  assumes "environment_ok V contents opened owned" and "first_start V contents cfg w0 fs"
    and "engine_open V cfg (engine_create V w0 mem0 fs) = (Ret kOk, e0)"
    and "(engine_life V cfg allowed)\<^sup>*\<^sup>* (e0, Map.empty) (e, kv)"
  shows "alive V contents opened cfg (e, kv)"
  using life_alive [OF assms(4,1) _ life_start [OF assms(1-3)]] assms(2) by (simp add: first_start_def)

text \<open>What a get answers in a state that meets the contract.\<close>

lemma alive_get:
  assumes "alive V contents opened cfg (e, kv)"
  shows "if engine_contains V k e
    then \<exists>blob. kv k = Some blob \<and>
      fst (engine_get V k n e) = (if length blob \<le> n then (kOk, blob) else (kBufferTooSmall, []))
    else fst (engine_get V k n e) = (kNotFound, [])"
proof -
  from assms obtain A where inv: "cache_inv V contents opened (blob_limit cfg) A kv e" and op: "eg_opened e" by (rule aliveE)
  have "kv k \<noteq> None" if "look V e k \<noteq> None"
    using that cache_invD(6) [OF inv, of k] by (auto simp: serves_def serves_t1_def serves_t2_def)
  with engine_get_ok(1) [OF inv op, of k n] show ?thesis
    by (cases "kv k"; cases "look V e k") (simp_all add: contains_look [OF cache_invD(1) [OF inv] op] cache_answer_def)
qed

text \<open>With DRAM off, every entry is in T2.\<close>

lemma t2_part_no_dram:
  assumes "alive V contents opened cfg (e, kv)" and "\<not> dc_enabled (cfg_dram_cache cfg)"
  shows "t2_part (en_ck V) (eg_index e) = index_find (en_ck V) (eg_index e)"
proof
  fix k
  from assms(1) obtain A where inv: "cache_inv V contents opened (blob_limit cfg) A kv e" and ck: "ckpt_ok V cfg e" by (rule aliveE)
  have "t1_allocator e = None" using ckpt_okD(2) [OF ck] assms(2) by (simp add: layout_def planned_def)
  then show "t2_part (en_ck V) (eg_index e) k = look V e k"
    using cache_invD(6) [OF inv, of k] by (auto simp: t2_part_def serves_def serves_t1_def split: option.split)
qed

section \<open>A life with a restart\<close>

text \<open>The engine of the demonstration without a DRAM tier: a put, a stop and a new start.\<close>

definition nvme_config :: Config where
  "nvme_config = demo_config\<lparr>cfg_dram_cache := small_dram\<lparr>dc_enabled := False\<rparr>\<rparr>"

definition nvme_engine :: "((StorageKey \<times> IndexEntry) list, mem_world \<times> nat) AttentionDBEngine" where
  "nvme_engine = snd (engine_open demo_env nvme_config (engine_create demo_env (([], [], 0), 4096) (\<lambda>_. 0) Map.empty))"

lemma nvme_config_facts:
  "cfg_nvme_store nvme_config = cfg_nvme_store demo_config" "cfg_admission nvme_config = cfg_admission demo_config"
  "\<not> dc_enabled (cfg_dram_cache nvme_config)" "nv_enabled (cfg_nvme_store nvme_config)"
  by (simp_all add: nvme_config_def demo_config_def mem_config_def default_nvme_store_def)

lemma nvme_first: "first_start demo_env demo_files nvme_config (([], [], 0), 4096) Map.empty"
  using demo_first nvme_config_facts(3) by (simp add: first_start_def settings_ok_def nvme_config_facts(1))

text \<open>Without a DRAM tier \<open>open\<close> allocates no slab and cannot throw.\<close>

lemma open_no_dram:
  assumes "environment_ok V contents opened owned" and "settings_ok V cfg" and "\<not> dc_enabled (cfg_dram_cache cfg)"
    and "nv_enabled (cfg_nvme_store cfg) \<longrightarrow> left_behind (cfg_nvme_store cfg) n A (contents w)"
  obtains e where "engine_open V cfg (engine_create V w mem fs) = (Ret kOk, e)"
proof -
  obtain r e where op: "engine_open V cfg (engine_create V w mem fs) = (r, e)" by fastforce
  then have "\<nexists>exn. r = Throws exn"
    using assms(3) by (auto simp: engine_open_def open_t1_def Let_def engine_create_def split: prod.splits if_splits)
  with engine_open_parts [OF assms(1,2,4) op] op show thesis by (intro that) auto
qed

lemma nvme_open: "engine_open demo_env nvme_config (engine_create demo_env (([], [], 0), 4096) (\<lambda>_. 0) Map.empty) = (Ret kOk, nvme_engine)"
proof (rule open_no_dram [OF demo_env_ok _ nvme_config_facts(3), where mem = "\<lambda>_. 0" and fs = Map.empty])
  show "settings_ok demo_env nvme_config" using nvme_first by (simp add: first_start_def)
  show "nv_enabled (cfg_nvme_store nvme_config) \<longrightarrow>
      left_behind (cfg_nvme_store nvme_config) 0 {} (demo_files (([], [], 0), 4096))"
    using nvme_first left_behind_none by (auto simp: first_start_def)
qed (simp add: nvme_engine_def)

lemma demo_disk: "disk_healthy demo_env"
  by (simp add: disk_healthy_def io_healthy_def demo_env_def good_io_def)

lemma index_size_card:
  assumes "cuckoo_laws ck"
  shows "index_size ck m = card (dom (index_find ck m))"
  using snapshot_exact [OF assms, of m]
  by (metis dom_map_of_conv_image_fst distinct_card length_map set_map)

lemma nvme_put:
  obtains e where "engine_put demo_env demo_key [1, 2, 3] demo_opts nvme_engine = Some (kOk, e)"
    "(engine_life demo_env nvme_config (demotable (cfg_admission nvme_config)))\<^sup>*\<^sup>* (nvme_engine, Map.empty) (e, [demo_key \<mapsto> [1, 2, 3]])"
    "index_size (en_ck demo_env) (eg_index e) \<le> kMaxEntries" "ids_used e \<le> 2"
    "dom (t2_part (en_ck demo_env) (eg_index e)) = {demo_key}"
proof -
  have fits: "blob_fits (blob_limit nvme_config) [1, 2, 3]" using demo_fits by (simp add: nvme_config_facts)
  have dem: "demotable (cfg_admission nvme_config) demo_opts"
    by (simp add: demotable_def nvme_config_facts demo_config_def Default_def demo_opts_def)
  from first_put [OF demo_env_ok nvme_first nvme_open nvme_config_facts(4) fits _ dem, of demo_key]
  obtain e where put: "engine_put demo_env demo_key [1, 2, 3] demo_opts nvme_engine = Some (kOk, e)" and sp: "spent e \<le> 2"
    and step: "engine_step demo_env (blob_limit nvme_config) (demotable (cfg_admission nvme_config))
      (nvme_engine, Map.empty) (e, [demo_key \<mapsto> [1, 2, 3]])" by (auto simp: demo_opts_def)
  from step have run: "(engine_life demo_env nvme_config (demotable (cfg_admission nvme_config)))\<^sup>*\<^sup>*
      (nvme_engine, Map.empty) (e, [demo_key \<mapsto> [1, 2, 3]])"
    by (intro r_into_rtranclp operate)
  have set: "settings_ok demo_env nvme_config" using nvme_first by (simp add: first_start_def)
  note start = life_start [OF demo_env_ok nvme_first nvme_open]
  have al: "alive demo_env demo_files demo_fds nvme_config (e, [demo_key \<mapsto> [1, 2, 3]])"
    using run by (rule life_from_start [OF demo_env_ok nvme_first nvme_open])
  have "lossless demo_env (cfg_admission nvme_config) (e, [demo_key \<mapsto> [1, 2, 3]])"
    by (rule life_lossless [OF run demo_env_ok set start engine_open_fresh(3) [OF demo_env_ok nvme_first nvme_open refl nvme_config_facts(4)]])
  then have dom: "dom (index_find (en_ck demo_env) (eg_index e)) = {demo_key}" by (auto simp: lossless_def costs_def dom_def)
  show thesis
  proof (rule that [OF put run])
    show "index_size (en_ck demo_env) (eg_index e) \<le> kMaxEntries"
      by (simp add: index_size_card [OF environment_okD(1) [OF demo_env_ok]] dom)
    show "ids_used e \<le> 2" using sp by (simp add: spent_def)
    show "dom (t2_part (en_ck demo_env) (eg_index e)) = {demo_key}"
      by (simp add: t2_part_no_dram [OF al nvme_config_facts(3)] dom)
  qed
qed

lemma nvme_restart:
  obtains e w mem fs e' where "engine_put demo_env demo_key [1, 2, 3] demo_opts nvme_engine = Some (kOk, e)"
    "engine_delete demo_env e = Some (w, mem, fs)"
    "engine_open demo_env nvme_config (engine_create demo_env w (\<lambda>_. 0) fs) = (Ret kOk, e')"
    "(engine_life demo_env nvme_config (demotable (cfg_admission nvme_config)))\<^sup>*\<^sup>* (nvme_engine, Map.empty) (e', [demo_key \<mapsto> [1, 2, 3]])"
    "dom (index_find (en_ck demo_env) (eg_index e')) = {demo_key}" "ids_used e' \<le> 3"
    "\<And>s. t2_store e' = Some s \<Longrightarrow> fresh_store (cfg_nvme_store nvme_config) (demo_files w) (demo_files (eg_world e')) s"
proof (rule nvme_put)
  fix e
  assume put: "engine_put demo_env demo_key [1, 2, 3] demo_opts nvme_engine = Some (kOk, e)"
    and run: "(engine_life demo_env nvme_config (demotable (cfg_admission nvme_config)))\<^sup>*\<^sup>* (nvme_engine, Map.empty)
      (e, [demo_key \<mapsto> [1, 2, 3]])"
    and few: "index_size (en_ck demo_env) (eg_index e) \<le> kMaxEntries" and two: "ids_used e \<le> 2"
    and dom: "dom (t2_part (en_ck demo_env) (eg_index e)) = {demo_key}"
  have ids: "ids_used e < UINT32_MAX" using two by simp
  from life_from_start [OF demo_env_ok nvme_first nvme_open run] obtain A
    where A: "cache_inv demo_env demo_files demo_fds (blob_limit nvme_config) A [demo_key \<mapsto> [1, 2, 3]] e" "eg_opened e"
      "ckpt_ok demo_env nvme_config e" by (rule aliveE)
  from engine_delete_leaves [OF demo_env_ok A few demo_disk ids] obtain w mem fs
    where del: "engine_delete demo_env e = Some (w, mem, fs)" and left: "nv_enabled (cfg_nvme_store nvme_config) \<longrightarrow>
      left_behind (cfg_nvme_store nvme_config) (ids_used e) A (demo_files w)" by blast
  have set: "settings_ok demo_env nvme_config" using nvme_first by (simp add: first_start_def)
  from open_no_dram [OF demo_env_ok set nvme_config_facts(3) left]
  obtain e' where op: "engine_open demo_env nvme_config (engine_create demo_env w (\<lambda>_. 0) fs) = (Ret kOk, e')" .
  from restart [OF del op few ids demo_disk, of "demotable (cfg_admission nvme_config)" "[demo_key \<mapsto> [1, 2, 3]]"]
  have "engine_life demo_env nvme_config (demotable (cfg_admission nvme_config)) (e, [demo_key \<mapsto> [1, 2, 3]])
      (e', [demo_key \<mapsto> [1, 2, 3]])" unfolding dom by simp
  moreover have "dom (index_find (en_ck demo_env) (eg_index e')) = {demo_key}"
    using life_restart(1) [OF demo_env_ok set life_from_start [OF demo_env_ok nvme_first nvme_open run] few ids demo_disk del op] dom
    by simp
  moreover have "next_segment_id s \<le> 3 \<and> fresh_store (cfg_nvme_store nvme_config) (demo_files w) (demo_files (eg_world e')) s"
    if "t2_store e' = Some s" for s
    using engine_open_parts [OF demo_env_ok set left op] that two by auto
  ultimately show thesis using run by (intro that [OF put del op]) (auto simp: ids_used_def split: option.split)
qed

section \<open>Properties\<close>

text \<open>
  C1. The cache never lies. From the first start on, under any sequence of puts, gets, deletes,
  flushes, collections, checkpoints, summaries and orderly restarts, a get of a key the engine
  contains returns exactly the blob of the last acknowledged put of that key (or
  \<open>kBufferTooSmall\<close> when it does not fit the caller's buffer), wherever eviction and restarts have
  moved the blob meanwhile; a get of any other key returns \<open>kNotFound\<close>. A deleted key is not
  contained.
\<close>

theorem cache_never_lies:
  assumes "environment_ok V contents opened owned" and "first_start V contents cfg w0 fs"
    and "engine_open V cfg (engine_create V w0 mem0 fs) = (Ret kOk, e0)"
    and "(engine_life V cfg allowed)\<^sup>*\<^sup>* (e0, Map.empty) (e, kv)"
  shows "if engine_contains V k e
    then \<exists>blob. kv k = Some blob \<and>
      fst (engine_get V k n e) = (if length blob \<le> n then (kOk, blob) else (kBufferTooSmall, []))
    else fst (engine_get V k n e) = (kNotFound, [])"
  using life_from_start [OF assms] by (rule alive_get)

theorem cache_never_lies_witness:
  "\<exists>e w mem fs e'. engine_put demo_env demo_key [1, 2, 3] demo_opts nvme_engine = Some (kOk, e) \<and>
     engine_delete demo_env e = Some (w, mem, fs) \<and>
     engine_open demo_env nvme_config (engine_create demo_env w (\<lambda>_. 0) fs) = (Ret kOk, e') \<and>
     fst (engine_get demo_env (key_of_bytes [8]) 9 e') = (kNotFound, [])"
proof (rule nvme_restart)
  fix e w mem fs e'
  assume D: "engine_put demo_env demo_key [1, 2, 3] demo_opts nvme_engine = Some (kOk, e)"
    "engine_delete demo_env e = Some (w, mem, fs)"
    "engine_open demo_env nvme_config (engine_create demo_env w (\<lambda>_. 0) fs) = (Ret kOk, e')"
    and run: "(engine_life demo_env nvme_config (demotable (cfg_admission nvme_config)))\<^sup>*\<^sup>* (nvme_engine, Map.empty)
      (e', [demo_key \<mapsto> [1, 2, 3]])"
  from cache_never_lies [OF demo_env_ok nvme_first nvme_open run, of "key_of_bytes [8]" 9]
  have "fst (engine_get demo_env (key_of_bytes [8]) 9 e') = (kNotFound, [])"
    by (auto simp: key_of_bytes_def split: if_splits)
  with D show ?thesis by blast
qed

text \<open>
  C2. With the NVMe tier on, the engine is a map. When every put that bypasses the cost check
  (a system prompt) still carries the configured minimum cost, eviction only moves blobs: the
  engine contains exactly the keys whose last put was acknowledged, that were not deleted
  since and were not in DRAM at a restart since, and a get answers as a lookup in that map
  does.
\<close>

theorem engine_refines_map:
  assumes "environment_ok V contents opened owned" and "first_start V contents cfg w0 fs"
    and "engine_open V cfg (engine_create V w0 mem0 fs) = (Ret kOk, e0)" and "nv_enabled (cfg_nvme_store cfg)"
    and "(engine_life V cfg (demotable (cfg_admission cfg)))\<^sup>*\<^sup>* (e0, Map.empty) (e, kv)"
  shows "(engine_contains V k e \<longleftrightarrow> kv k \<noteq> None) \<and>
    fst (engine_get V k n e) = (case kv k of None \<Rightarrow> (kNotFound, [])
      | Some blob \<Rightarrow> if length blob \<le> n then (kOk, blob) else (kBufferTooSmall, []))"
proof -
  have "settings_ok V cfg" using assms(2) by (simp add: first_start_def)
  from life_lossless [OF assms(5,1) this life_start [OF assms(1-3)] engine_open_fresh(3) [OF assms(1-3) refl assms(4)]]
  have "lossless V (cfg_admission cfg) (e, kv)" .
  moreover have "cache_ok V contents opened (blob_limit cfg) (e, kv)"
    using life_from_start [OF assms(1-3,5)] by (simp add: alive_def)
  ultimately show ?thesis by (intro conjI lossless_get)
qed

theorem engine_refines_map_witness:
  "\<exists>e w mem fs e'. engine_put demo_env demo_key [1, 2, 3] demo_opts nvme_engine = Some (kOk, e) \<and>
     engine_delete demo_env e = Some (w, mem, fs) \<and>
     engine_open demo_env nvme_config (engine_create demo_env w (\<lambda>_. 0) fs) = (Ret kOk, e') \<and>
     fst (engine_get demo_env demo_key 3 e') = (kOk, [1, 2, 3])"
proof (rule nvme_restart)
  fix e w mem fs e'
  assume D: "engine_put demo_env demo_key [1, 2, 3] demo_opts nvme_engine = Some (kOk, e)"
    "engine_delete demo_env e = Some (w, mem, fs)"
    "engine_open demo_env nvme_config (engine_create demo_env w (\<lambda>_. 0) fs) = (Ret kOk, e')"
    and run: "(engine_life demo_env nvme_config (demotable (cfg_admission nvme_config)))\<^sup>*\<^sup>* (nvme_engine, Map.empty)
      (e', [demo_key \<mapsto> [1, 2, 3]])"
  from engine_refines_map [OF demo_env_ok nvme_first nvme_open nvme_config_facts(4) run, of demo_key 3]
  have "fst (engine_get demo_env demo_key 3 e') = (kOk, [1, 2, 3])" by simp
  with D show ?thesis by blast
qed

text \<open>
  C3. The outcome of a put. In every state the engine reaches, a put of a non-empty blob that
  fits a write block neither crashes nor waits for ever, and its status is determined by the
  state: \<open>kRejectedAdmission\<close> when admission control rejects it, \<open>kIOError\<close> when no T1 slot is
  free and there is no T2, and \<open>kOk\<close> otherwise.
\<close>

theorem put_outcome:
  assumes "environment_ok V contents opened owned" and "first_start V contents cfg w0 fs"
    and "engine_open V cfg (engine_create V w0 mem0 fs) = (Ret kOk, e0)"
    and "(engine_life V cfg allowed)\<^sup>*\<^sup>* (e0, Map.empty) (e, kv)"
    and "blob_fits (blob_limit cfg) blob" and "put_room e"
  shows "\<exists>e'. engine_put V k blob opts e = Some (
    if evaluate (eg_admission e) opts (storage_utilization e) \<noteq> kAdmit then kRejectedAdmission
    else if (\<exists>a. t1_allocator e = Some a \<and> handle_valid (fst (allocate (length blob) a))) \<or> t2_store e \<noteq> None then kOk
    else kIOError, e')"
proof -
  from life_from_start [OF assms(1-4)]
  obtain A where inv: "cache_inv V contents opened (blob_limit cfg) A kv e" and op: "eg_opened e" by (rule aliveE)
  from engine_put_ok [OF inv assms(5,6), of k opts]
  have "\<exists>e'. engine_put V k blob opts e = Some (put_status opts blob e, e')" by blast
  then show ?thesis by (simp only: put_status_def t1_takes_def op not_True_eq_False if_False)
qed

theorem put_outcome_witness:
  "\<exists>e. engine_put demo_env demo_key [1, 2, 3] (demo_opts\<lparr>po_entry_type := kRagContext, po_recompute_cost := 3\<rparr>) demo_engine =
     Some (kRejectedAdmission, e)"
proof -
  have "ad_config (eg_admission demo_engine) = cfg_admission demo_config"
    using demo_opened(3) by (simp add: lossless_def demo_config_def mem_config_def default_nvme_store_def)
  then have "evaluate (eg_admission demo_engine) (demo_opts\<lparr>po_entry_type := kRagContext, po_recompute_cost := 3\<rparr>)
      (storage_utilization demo_engine) = kRejectLowCost"
    by (simp add: evaluate_def demo_config_def Default_def)
  with put_outcome [OF demo_env_ok demo_first demo_open rtranclp.rtrancl_refl demo_fits demo_room,
      where opts = "demo_opts\<lparr>po_entry_type := kRagContext, po_recompute_cost := 3\<rparr>" and k = demo_key]
  show ?thesis by simp
qed

text \<open>
  C4. An orderly restart keeps the NVMe entries. In every state of a life, on a working disk,
  deleting the engine succeeds; opening an engine on the files it leaves throws (out of memory)
  or succeeds, and then a get answers, for every key, what the deleted engine would have
  answered when the key's entry was in T2, and \<open>kNotFound\<close> otherwise. Nothing written since the
  last periodic checkpoint or still in a write block is lost by the shutdown.
\<close>

theorem restart_keeps_t2:
  assumes env: "environment_ok V contents opened owned" and first: "first_start V contents cfg w0 fs"
    and op: "engine_open V cfg (engine_create V w0 mem0 fs) = (Ret kOk, e0)"
    and run: "(engine_life V cfg allowed)\<^sup>*\<^sup>* (e0, Map.empty) (e, kv)"
    and few: "index_size (en_ck V) (eg_index e) \<le> kMaxEntries" and ids: "ids_used e < UINT32_MAX" and io: "disk_healthy V"
  shows "\<exists>w mem fs. engine_delete V e = Some (w, mem, fs) \<and>
    (\<forall>mem' r e'. engine_open V cfg (engine_create V w mem' fs) = (r, e') \<longrightarrow> (\<exists>exn. r = Throws exn) \<or> r = Ret kOk \<and>
      (\<forall>k n. fst (engine_get V k n e') =
        (if \<exists>x. index_find (en_ck V) (eg_index e) k = Some x \<and> ie_tier x = tier_code kT2Nvme
         then fst (engine_get V k n e) else (kNotFound, []))))"
proof -
  have set: "settings_ok V cfg" using first by (simp add: first_start_def)
  have al: "alive V contents opened cfg (e, kv)" using env first op run by (rule life_from_start)
  then obtain A where inv: "cache_inv V contents opened (blob_limit cfg) A kv e" "eg_opened e" "ckpt_ok V cfg e" by (rule aliveE)
  from engine_delete_leaves [OF env inv few io ids] obtain w mem fs where del: "engine_delete V e = Some (w, mem, fs)"
    and left: "nv_enabled (cfg_nvme_store cfg) \<longrightarrow> left_behind (cfg_nvme_store cfg) (ids_used e) A (contents w)" by blast
  have get: "fst (engine_get V k n e') =
      (if \<exists>x. look V e k = Some x \<and> ie_tier x = tier_code kT2Nvme then fst (engine_get V k n e) else (kNotFound, []))"
    if op: "engine_open V cfg (engine_create V w mem' fs) = (Ret kOk, e')" for mem' e' k n
  proof -
    note R = life_restart(1,2) [OF env set al few ids io del op]
    from R(2) have op': "eg_opened e'" by (auto simp: alive_def cache_ok_def)
    have "engine_contains V k e' \<longleftrightarrow> (\<exists>x. look V e k = Some x \<and> ie_tier x = tier_code kT2Nvme)"
      using t2_part_Some [OF inv(1), of k] by (auto simp: contains_look [OF environment_okD(1) [OF env] op'] R(1))
    moreover have "engine_contains V k e" if "look V e k = Some x" for x
      using that by (simp add: contains_look [OF environment_okD(1) [OF env] inv(2)])
    ultimately show ?thesis
      using alive_get [OF R(2), of k n] alive_get [OF al, of k n] by (auto simp: restrict_map_def split: if_splits)
  qed
  have "(\<exists>exn. r = Throws exn) \<or> r = Ret kOk" if "engine_open V cfg (engine_create V w mem' fs) = (r, e')" for mem' r e'
    using engine_open_parts [OF env set left that] by blast
  with del get show ?thesis by blast
qed

theorem restart_keeps_t2_witness:
  "\<exists>e w mem fs. engine_put demo_env demo_key [1, 2, 3] demo_opts nvme_engine = Some (kOk, e) \<and>
     engine_delete demo_env e = Some (w, mem, fs) \<and>
    (\<forall>mem' r e'. engine_open demo_env nvme_config (engine_create demo_env w mem' fs) = (r, e') \<longrightarrow> (\<exists>exn. r = Throws exn) \<or>
      r = Ret kOk \<and> fst (engine_get demo_env demo_key 3 e') = fst (engine_get demo_env demo_key 3 e))"
proof (rule nvme_put)
  fix e
  assume put: "engine_put demo_env demo_key [1, 2, 3] demo_opts nvme_engine = Some (kOk, e)"
    and run: "(engine_life demo_env nvme_config (demotable (cfg_admission nvme_config)))\<^sup>*\<^sup>* (nvme_engine, Map.empty)
      (e, [demo_key \<mapsto> [1, 2, 3]])"
    and few: "index_size (en_ck demo_env) (eg_index e) \<le> kMaxEntries" and two: "ids_used e \<le> 2"
    and dom: "dom (t2_part (en_ck demo_env) (eg_index e)) = {demo_key}"
  have ids: "ids_used e < UINT32_MAX" using two by simp
  from life_from_start [OF demo_env_ok nvme_first nvme_open run] obtain A
    where A: "cache_inv demo_env demo_files demo_fds (blob_limit nvme_config) A [demo_key \<mapsto> [1, 2, 3]] e" by (rule aliveE)
  have "\<exists>x. look demo_env e demo_key = Some x \<and> ie_tier x = tier_code kT2Nvme"
    using dom t2_part_Some [OF A, of demo_key] by blast
  with restart_keeps_t2 [OF demo_env_ok nvme_first nvme_open run few ids demo_disk] put show ?thesis by fastforce
qed

text \<open>
  C6. Index entries are well typed. The packed entry keeps its enumerations as raw bytes and its
  timestamps as six bytes. In every state of a life each entry has six-byte timestamps, its
  tier byte is one of the two enumerators and names a tier that is switched on, and its
  length field is the length of the blob stored under the key, not cut to 32 bits.
\<close>

theorem entries_well_typed:
  assumes "environment_ok V contents opened owned" and "first_start V contents cfg w0 fs"
    and "engine_open V cfg (engine_create V w0 mem0 fs) = (Ret kOk, e0)"
    and "(engine_life V cfg allowed)\<^sup>*\<^sup>* (e0, Map.empty) (e, kv)" and "index_find (en_ck V) (eg_index e) k = Some x"
  shows "entry_wf x \<and> (ie_tier x = tier_code kT1Dram \<and> dc_enabled (cfg_dram_cache cfg) \<or>
      ie_tier x = tier_code kT2Nvme \<and> nv_enabled (cfg_nvme_store cfg)) \<and>
    (\<exists>blob. kv k = Some blob \<and> unat (ie_length x) = length blob)"
proof -
  from life_from_start [OF assms(1-4)] obtain A where inv: "cache_inv V contents opened (blob_limit cfg) A kv e"
    and ck: "ckpt_ok V cfg e" by (rule aliveE)
  have lay: "t1_allocator e = None \<longleftrightarrow> \<not> dc_enabled (cfg_dram_cache cfg)"
    "t2_store e = None \<longleftrightarrow> \<not> nv_enabled (cfg_nvme_store cfg)"
    using ckpt_okD(2) [OF ck] by (auto simp: layout_def planned_def split: if_splits)
  have t2: "unat (ie_length x) = length data" if "(entry_location x, data) \<in> A" "t2_store e = Some st" for data st
  proof -
    from cache_invD(5) [OF inv that(2)] that(1) obtain E where "logged E (entry_location x, data)" by (auto simp: backend_ok_def)
    then show ?thesis by (auto simp: logged_def make_location_def entry_location_def wrap32_id)
  qed
  have "entry_wf x" using ckpt_okD(3) [OF ck] assms(5) by (simp add: wf_index_def)
  then show ?thesis using cache_invD(6) [OF inv assms(5)] t2 lay by (auto simp: serves_def serves_t1_def serves_t2_def)
qed

theorem entries_well_typed_witness:
  "\<exists>e x. engine_put demo_env demo_key [1, 2, 3] demo_opts nvme_engine = Some (kOk, e) \<and>
     index_find (en_ck demo_env) (eg_index e) demo_key = Some x \<and> ie_tier x = tier_code kT2Nvme \<and> unat (ie_length x) = 3"
proof (rule nvme_put)
  fix e
  assume put: "engine_put demo_env demo_key [1, 2, 3] demo_opts nvme_engine = Some (kOk, e)"
    and run: "(engine_life demo_env nvme_config (demotable (cfg_admission nvme_config)))\<^sup>*\<^sup>* (nvme_engine, Map.empty)
      (e, [demo_key \<mapsto> [1, 2, 3]])"
    and dom: "dom (t2_part (en_ck demo_env) (eg_index e)) = {demo_key}"
  from dom obtain x where x: "index_find (en_ck demo_env) (eg_index e) demo_key = Some x"
    by (auto simp: t2_part_def dom_def split: option.splits)
  from entries_well_typed [OF demo_env_ok nvme_first nvme_open run x] put x nvme_config_facts(3) show ?thesis by auto
qed

end
