(* ===== verification/Engine_Client.thy ===== *)
theory Engine_Client
  imports Engine_Life
begin

text \<open>
  The engine as its clients, the C interface and the Python class, see it: with the NVMe tier
  on it is a map from keys to blobs whose puts may be rejected.
\<close>

section \<open>The interface\<close>

text \<open>
  \<open>ok m e\<close>: the engine \<open>e\<close> stands for the map \<open>m\<close>. A put of a blob that fits, with options that
  may be demoted, needs two more segment ids at most; \<open>spent\<close> counts those in use.
\<close>

locale kv_cache =
  fixes ok :: "(StorageKey \<rightharpoonup> bytes) \<Rightarrow> 'e \<Rightarrow> bool"
    and fits :: "bytes \<Rightarrow> bool"
    and allowed :: "PutOpts \<Rightarrow> bool"
    and admits :: "PutOpts \<Rightarrow> 'e \<Rightarrow> bool"
    and ids :: "'e \<Rightarrow> nat"
    and get :: "StorageKey \<Rightarrow> nat \<Rightarrow> 'e \<Rightarrow> (Status \<times> bytes) \<times> 'e"
    and put :: "StorageKey \<Rightarrow> bytes \<Rightarrow> PutOpts \<Rightarrow> 'e \<Rightarrow> (Status \<times> 'e) option"
    and del :: "StorageKey \<Rightarrow> 'e \<Rightarrow> Status \<times> 'e"
  assumes get_answer: "ok m e \<Longrightarrow> fst (get k n e) = (case m k of None \<Rightarrow> (kNotFound, [])
      | Some blob \<Rightarrow> if length blob \<le> n then (kOk, blob) else (kBufferTooSmall, []))"
    and get_ok: "ok m e \<Longrightarrow> ok m (snd (get k n e))"
    and put_ok: "ok m e \<Longrightarrow> fits blob \<Longrightarrow> allowed opts \<Longrightarrow> ids e + 1 < UINT32_MAX \<Longrightarrow>
      \<exists>e'. put k blob opts e = Some (if admits opts e then kOk else kRejectedAdmission, e') \<and>
        ok (if admits opts e then m(k \<mapsto> blob) else m) e' \<and> ids e' \<le> Suc (ids e)"
    and del_ok: "ok m e \<Longrightarrow> fst (del k e) = (if m k = None then kNotFound else kOk) \<and> ok (m(k := None)) (snd (del k e))"
begin

text \<open>A get after another one, a second attempt with a larger buffer say, answers as if it were the only one.\<close>

lemma get_again:
  assumes "ok m e"
  shows "fst (get k n' (snd (get j n e))) = (case m k of None \<Rightarrow> (kNotFound, [])
      | Some blob \<Rightarrow> if length blob \<le> n' then (kOk, blob) else (kBufferTooSmall, []))"
  using get_ok [OF assms] by (rule get_answer)

text \<open>Reading one's own writes: an acknowledged put is read back, a rejected one changes nothing.\<close>

lemma put_get:
  assumes "ok m e" and "fits blob" and "allowed opts" and "ids e + 1 < UINT32_MAX" and "put k blob opts e = Some (s, e')"
  shows "s = kOk \<Longrightarrow> fst (get k (length blob) e') = (kOk, blob)"
    and "s = kOk \<Longrightarrow> k' \<noteq> k \<Longrightarrow> fst (get k' n e') = fst (get k' n e)"
    and "s \<noteq> kOk \<Longrightarrow> fst (get k' n e') = fst (get k' n e)"
  using put_ok [OF assms(1-4), of k] assms(5) get_answer [OF assms(1), of k' n] by (auto simp: get_answer split: if_splits)

text \<open>A deleted key is gone, the others stay, and deleting twice is deleting once.\<close>

lemma del_get:
  assumes "ok m e"
  shows "fst (get k n (snd (del k e))) = (kNotFound, [])"
    and "k' \<noteq> k \<Longrightarrow> fst (get k' n (snd (del k e))) = fst (get k' n e)"
    and "fst (del k (snd (del k e))) = kNotFound"
  using del_ok [OF assms, of k] del_ok [of "m(k := None)" "snd (del k e)" k] get_answer [OF assms, of k' n]
  by (auto simp: get_answer)

end

section \<open>The engine provides it\<close>

definition engine_ok :: "('m, 'w) engine_env \<Rightarrow> ('w \<Rightarrow> string \<rightharpoonup> bytes) \<Rightarrow> ('w \<Rightarrow> int \<rightharpoonup> string) \<Rightarrow> nat \<Rightarrow> AdmissionConfig \<Rightarrow>
    (StorageKey \<rightharpoonup> bytes) \<Rightarrow> ('m, 'w) AttentionDBEngine \<Rightarrow> bool" where
  "engine_ok V contents opened cap acfg m e \<longleftrightarrow> cache_ok V contents opened cap (e, m) \<and> lossless V acfg (e, m)"

lemma engine_ok_step:
  assumes "engine_ok V contents opened cap acfg m e" and "engine_step V cap (demotable acfg) (e, m) (e', m')"
  shows "engine_ok V contents opened cap acfg m' e'"
  using assms engine_step_ok engine_step_lossless unfolding engine_ok_def by blast

definition engine_admits :: "PutOpts \<Rightarrow> ('m, 'w) AttentionDBEngine \<Rightarrow> bool" where
  "engine_admits opts e \<longleftrightarrow> evaluate (eg_admission e) opts (storage_utilization e) = kAdmit"

interpretation kv: kv_cache "engine_ok V contents opened cap acfg" "blob_fits cap" "demotable acfg" engine_admits spent
  "engine_get V" "engine_put V" "engine_del V" for V contents opened cap acfg
proof (unfold_locales, goal_cases)
  case (1 m e k n)
  then show ?case by (intro lossless_get(2)) (auto simp: engine_ok_def)
next
  case (2 m e k n)
  then show ?case by (rule engine_ok_step) (rule engine_step.get [OF prod.collapse [symmetric]])
next
  case (3 m e blob opts k)
  then obtain A where inv: "cache_inv V contents opened cap A m e" and op: "eg_opened e" by (auto simp: engine_ok_def cache_ok_def)
  have room: "put_room e" using 3(4) by (simp add: put_room_def)
  let ?s = "put_status opts blob e"
  from engine_put_ok [OF inv 3(2) room, of k opts]
  obtain e' where put: "engine_put V k blob opts e = Some (?s, e')" and sp: "spent e' \<le> Suc (spent e)" by blast
  have "engine_step V cap (demotable acfg) (e, m) (e', if ?s = kOk then m(k \<mapsto> blob) else m)"
    using put 3(2) room 3(3) by (rule engine_step.put)
  moreover have "?s = (if engine_admits opts e then kOk else kRejectedAdmission)"
    using 3(1) op by (simp add: put_status_def engine_ok_def engine_admits_def lossless_def worthy_def)
  ultimately show ?case using put sp engine_ok_step [OF 3(1)] by (intro exI [of _ e']) (simp split: if_splits)
next
  case (4 m e k)
  obtain s e' where del: "engine_del V k e = (s, e')" by fastforce
  from 4 have op: "eg_opened e" and loss: "dom (costs V e) = dom m" by (auto simp: engine_ok_def cache_ok_def lossless_def)
  have "s = (if look V e k = None then kNotFound else kOk)"
    using op del by (auto simp: engine_del_def del_entry_def Let_def split: option.splits)
  moreover have "costs V e k = None \<longleftrightarrow> m k = None" using loss by (metis domIff)
  then have "look V e k = None \<longleftrightarrow> m k = None" by (simp add: costs_def)
  ultimately have s: "s = (if m k = None then kNotFound else kOk)" by simp
  have "m(k := None) = (if s = kOk then m(k := None) else m)" using s by auto
  with engine_ok_step [OF 4 engine_step.del [OF del]] s del show ?case by simp
qed

text \<open>In every state of a life.\<close>

lemma life_engine_ok:
  assumes "environment_ok V contents opened owned" and "first_start V contents cfg w0 fs"
    and "engine_open V cfg (engine_create V w0 mem0 fs) = (Ret kOk, e0)" and "nv_enabled (cfg_nvme_store cfg)"
    and "(engine_life V cfg (demotable (cfg_admission cfg)))\<^sup>*\<^sup>* (e0, Map.empty) (e, kv)"
  shows "engine_ok V contents opened (blob_limit cfg) (cfg_admission cfg) kv e"
proof -
  have "settings_ok V cfg" using assms(2) by (simp add: first_start_def)
  from life_lossless [OF assms(5,1) this life_start [OF assms(1-3)] engine_open_fresh(3) [OF assms(1-3) refl assms(4)]]
  have "lossless V (cfg_admission cfg) (e, kv)" .
  then show ?thesis using life_from_start [OF assms(1-3,5)] by (simp add: alive_def engine_ok_def)
qed

end
