(* ===== verification/C_Api.thy ===== *)
theory C_Api
  imports Engine_Client
begin

text \<open>
  \<open>src/c_api.{h,cpp}\<close>: the C interface. A handle is the engine behind it and \<open>None\<close> is a null
  pointer, for handles and for every other pointer argument. C++ exceptions and crashes are
  not caught by the interface: \<open>None\<close> as the result of a call.
\<close>

section \<open>Types\<close>

text \<open>The C enumeration, by its values.\<close>

type_synonym attentiondb_status_t = int

abbreviation (input) ATTENTIONDB_OK :: attentiondb_status_t where
  "ATTENTIONDB_OK \<equiv> 0"

abbreviation (input) ATTENTIONDB_NOT_FOUND :: attentiondb_status_t where
  "ATTENTIONDB_NOT_FOUND \<equiv> 1"

abbreviation (input) ATTENTIONDB_IO_ERROR :: attentiondb_status_t where
  "ATTENTIONDB_IO_ERROR \<equiv> 7"

abbreviation (input) ATTENTIONDB_INVALID_ARGUMENT :: attentiondb_status_t where
  "ATTENTIONDB_INVALID_ARGUMENT \<equiv> 8"

record attentiondb_key_t =
  ck_model_id :: "64 word"
  ck_tenant_id :: "64 word"
  ck_chunk_hash :: "64 word"
  ck_layer_group_id :: "16 word"
  ck_chunk_index :: "32 word"

record attentiondb_put_opts_t =
  co_num_tokens :: "32 word"
  co_recompute_cost :: "32 word"
  co_entry_type :: "8 word"
  co_ttl_seconds :: "32 word"

record attentiondb_config_t =
  config_path :: "string option"
  config_yaml :: "string option"

definition to_c_status :: "Status \<Rightarrow> attentiondb_status_t" where
  "to_c_status s = uint (status_code s)"

definition to_storage_key :: "attentiondb_key_t \<Rightarrow> StorageKey" where
  "to_storage_key k =
     \<lparr>model_id = ck_model_id k, tenant_id = ck_tenant_id k, chunk_hash = ck_chunk_hash k,
      layer_group_id = ck_layer_group_id k, chunk_index = ck_chunk_index k\<rparr>"

text \<open>The cast to the enumeration, for values in its range.\<close>

definition to_entry_type :: "8 word \<Rightarrow> EntryType" where
  "to_entry_type v =
     (if v = entry_type_code kConversation then kConversation
      else if v = entry_type_code kSystemPrompt then kSystemPrompt else kRagContext)"

definition to_put_opts :: "attentiondb_put_opts_t \<Rightarrow> PutOpts" where
  "to_put_opts opts =
     (let po = \<lparr>po_num_tokens = co_num_tokens opts, po_recompute_cost = co_recompute_cost opts,
                po_entry_type = kConversation, po_ttl_seconds = co_ttl_seconds opts\<rparr>
      in if co_entry_type opts \<le> entry_type_code kRagContext
         then po\<lparr>po_entry_type := to_entry_type (co_entry_type opts)\<rparr> else po)"

section \<open>Lifecycle\<close>

text \<open>
  \<open>read_file\<close> is what opening a configuration file gives, \<open>out_null\<close> says whether the place
  for the handle is a null pointer and \<open>new_ok\<close> whether there is memory for the handle. The
  result is the handle, or the system that is left when there is none.
\<close>

definition attentiondb_open :: "('m, 'w) engine_env \<Rightarrow> 'n yaml \<Rightarrow> (string \<Rightarrow> string option) \<Rightarrow> bool \<Rightarrow>
    attentiondb_config_t option \<Rightarrow> bool \<Rightarrow> 'w \<times> memory \<times> file_system \<Rightarrow>
    (attentiondb_status_t \<times> (('m, 'w) AttentionDBEngine + 'w \<times> memory \<times> file_system)) option" where
  "attentiondb_open V Y read_file new_ok config out_null sys =
     (case config of
        None \<Rightarrow> Some (ATTENTIONDB_INVALID_ARGUMENT, Inr sys)
      | Some c \<Rightarrow>
          if out_null then Some (ATTENTIONDB_INVALID_ARGUMENT, Inr sys)
          else
            (case (case config_path c of
                     Some path \<Rightarrow> LoadFromFile Y (read_file path)
                   | None \<Rightarrow> (case config_yaml c of Some y \<Rightarrow> LoadFromString Y y | None \<Rightarrow> Some Default)) of
               None \<Rightarrow> None
             | Some cfg \<Rightarrow>
                 if \<not> new_ok then Some (ATTENTIONDB_IO_ERROR, Inr sys)
                 else
                   (case sys of (w, mem, fs) \<Rightarrow>
                      (case engine_open V cfg (engine_create V w mem fs) of
                         (Ret s, e) \<Rightarrow>
                           if s \<noteq> kOk then map_option (\<lambda>sys. (to_c_status s, Inr sys)) (engine_delete V e)
                           else Some (ATTENTIONDB_OK, Inl e)
                       | (r, e) \<Rightarrow> None))))"

definition attentiondb_close :: "('m, 'w) engine_env \<Rightarrow> ('m, 'w) AttentionDBEngine option \<Rightarrow>
    (attentiondb_status_t \<times> ('w \<times> memory \<times> file_system) option) option" where
  "attentiondb_close V handle =
     (case handle of
        None \<Rightarrow> Some (ATTENTIONDB_INVALID_ARGUMENT, None)
      | Some e \<Rightarrow>
          (case engine_close V e of
             (Ret u, e) \<Rightarrow> map_option (\<lambda>sys. (ATTENTIONDB_OK, Some sys)) (engine_delete V e)
           | (r, e) \<Rightarrow> None))"

section \<open>Operations\<close>

definition attentiondb_put :: "('m, 'w) engine_env \<Rightarrow> ('m, 'w) AttentionDBEngine option \<Rightarrow> attentiondb_key_t option \<Rightarrow>
    bytes option \<Rightarrow> attentiondb_put_opts_t option \<Rightarrow> (attentiondb_status_t \<times> ('m, 'w) AttentionDBEngine option) option" where
  "attentiondb_put V handle key blob opts =
     (case (handle, key, blob, opts) of
        (Some e, Some k, Some b, Some po) \<Rightarrow>
          map_option (\<lambda>(s, e). (to_c_status s, Some e)) (engine_put V (to_storage_key k) b (to_put_opts po) e)
      | x \<Rightarrow> Some (ATTENTIONDB_INVALID_ARGUMENT, handle))"

text \<open>The buffer and the length a get leaves: both are written only when it succeeds.\<close>

definition get_into :: "('m, 'w) engine_env \<Rightarrow> StorageKey \<Rightarrow> nat \<Rightarrow> bytes \<times> nat \<Rightarrow> ('m, 'w) AttentionDBEngine \<Rightarrow>
    Status \<times> (bytes \<times> nat) \<times> ('m, 'w) AttentionDBEngine" where
  "get_into V key buf_len out e =
     (case engine_get V key buf_len e of ((s, data), e) \<Rightarrow>
        (s, if s = kOk then (overwrite (fst out) 0 data, length data) else out, e))"

definition attentiondb_get :: "('m, 'w) engine_env \<Rightarrow> ('m, 'w) AttentionDBEngine option \<Rightarrow> attentiondb_key_t option \<Rightarrow>
    bytes option \<Rightarrow> nat \<Rightarrow> nat option \<Rightarrow>
    attentiondb_status_t \<times> (bytes option \<times> nat option) \<times> ('m, 'w) AttentionDBEngine option" where
  "attentiondb_get V handle key buf buf_len blob_len_out =
     (case (handle, key, buf, blob_len_out) of
        (Some e, Some k, Some b, Some n) \<Rightarrow>
          (case get_into V (to_storage_key k) buf_len (b, n) e of (s, (b, n), e) \<Rightarrow> (to_c_status s, (Some b, Some n), Some e))
      | x \<Rightarrow> (ATTENTIONDB_INVALID_ARGUMENT, (buf, blob_len_out), handle))"

fun contains_loop :: "('m, 'w) engine_env \<Rightarrow> ('m, 'w) AttentionDBEngine \<Rightarrow> attentiondb_key_t list \<Rightarrow> nat list \<Rightarrow> bool list \<Rightarrow> bool list" where
  "contains_loop V e keys [] results = results"
| "contains_loop V e keys (i # is) results =
     contains_loop V e keys is (results[i := engine_contains V (to_storage_key (keys ! i)) e])"

definition attentiondb_contains :: "('m, 'w) engine_env \<Rightarrow> ('m, 'w) AttentionDBEngine option \<Rightarrow> attentiondb_key_t list option \<Rightarrow>
    nat \<Rightarrow> bool list option \<Rightarrow> attentiondb_status_t \<times> bool list option" where
  "attentiondb_contains V handle keys num_keys results =
     (case (handle, keys, results) of
        (Some e, Some ks, Some rs) \<Rightarrow> (ATTENTIONDB_OK, Some (contains_loop V e ks [0..<num_keys] rs))
      | x \<Rightarrow> (ATTENTIONDB_INVALID_ARGUMENT, results))"

fun delete_loop :: "('m, 'w) engine_env \<Rightarrow> attentiondb_key_t list \<Rightarrow> nat list \<Rightarrow> attentiondb_status_t \<Rightarrow>
    ('m, 'w) AttentionDBEngine \<Rightarrow> attentiondb_status_t \<times> ('m, 'w) AttentionDBEngine" where
  "delete_loop V keys [] last_err e = (last_err, e)"
| "delete_loop V keys (i # is) last_err e =
     (case engine_del V (to_storage_key (keys ! i)) e of (s, e) \<Rightarrow>
        delete_loop V keys is (if s \<noteq> kOk \<and> s \<noteq> kNotFound then to_c_status s else last_err) e)"

definition attentiondb_delete :: "('m, 'w) engine_env \<Rightarrow> ('m, 'w) AttentionDBEngine option \<Rightarrow> attentiondb_key_t list option \<Rightarrow>
    nat \<Rightarrow> attentiondb_status_t \<times> ('m, 'w) AttentionDBEngine option" where
  "attentiondb_delete V handle keys num_keys =
     (case (handle, keys) of
        (Some e, Some ks) \<Rightarrow> apsnd Some (delete_loop V ks [0..<num_keys] ATTENTIONDB_OK e)
      | x \<Rightarrow> (ATTENTIONDB_INVALID_ARGUMENT, handle))"

section \<open>Batches\<close>





section \<open>Statistics\<close>

text \<open>The C structure has the fields of \<open>EngineStats\<close>; the engine's are copied one by one.\<close>

definition attentiondb_stats :: "('m, 'w) engine_env \<Rightarrow> ('m, 'w) AttentionDBEngine option \<Rightarrow> EngineStats option \<Rightarrow>
    (attentiondb_status_t \<times> EngineStats option) option" where
  "attentiondb_stats V handle stats_out =
     (case (handle, stats_out) of
        (Some e, Some old) \<Rightarrow>
          map_option (\<lambda>s. (ATTENTIONDB_OK, Some (old\<lparr>
            es_t1_total_bytes := es_t1_total_bytes s, es_t1_used_bytes := es_t1_used_bytes s,
            es_t2_total_bytes_on_disk := es_t2_total_bytes_on_disk s, es_t2_num_segments := es_t2_num_segments s,
            es_index_entries := es_index_entries s, es_eviction_protected := es_eviction_protected s,
            es_eviction_probationary := es_eviction_probationary s, es_admission_evaluated := es_admission_evaluated s,
            es_admission_rejected := es_admission_rejected s, es_last_checkpoint_entries := es_last_checkpoint_entries s,
            es_last_checkpoint_duration_ms := es_last_checkpoint_duration_ms s\<rparr>))) (engine_stats V e)
      | x \<Rightarrow> Some (ATTENTIONDB_INVALID_ARGUMENT, stats_out))"

section \<open>Null pointers\<close>

text \<open>A null pointer is refused before anything happens.\<close>

lemma null_arguments:
  "attentiondb_put V None key blob opts = Some (ATTENTIONDB_INVALID_ARGUMENT, None)"
  "attentiondb_put V handle None blob opts = Some (ATTENTIONDB_INVALID_ARGUMENT, handle)"
  "attentiondb_put V handle key None opts = Some (ATTENTIONDB_INVALID_ARGUMENT, handle)"
  "attentiondb_put V handle key blob None = Some (ATTENTIONDB_INVALID_ARGUMENT, handle)"
  by (simp_all add: attentiondb_put_def split: option.splits)

section \<open>Deleting\<close>

lemma engine_del_contains:
  assumes laws: "cuckoo_laws (en_ck V)" and op: "eg_opened e" and del: "engine_del V k e = (s, e')"
  shows "s = kOk \<or> s = kNotFound" and "eg_opened e'" and "engine_contains V k' e' \<longleftrightarrow> k' \<noteq> k \<and> engine_contains V k' e"
proof -
  have s: "s = (if look V e k = None then kNotFound else kOk)"
    using op del by (auto simp: engine_del_def del_entry_def Let_def split: option.splits)
  then show "s = kOk \<or> s = kNotFound" by simp
  show op': "eg_opened e'" using engine_del_opened [OF del] op by simp
  have "look V f j = None \<longleftrightarrow> costs V f j = None" for f j by (simp add: costs_def)
  with engine_del_costs(1) [OF laws del] s have "look V e' k' \<noteq> None \<longleftrightarrow> k' \<noteq> k \<and> look V e k' \<noteq> None"
    by (auto split: if_splits)
  then show "engine_contains V k' e' \<longleftrightarrow> k' \<noteq> k \<and> engine_contains V k' e"
    using op op' by (simp add: contains_look [OF laws])
qed

lemma delete_loop_removes:
  assumes laws: "cuckoo_laws (en_ck V)" and op: "eg_opened e"
  shows "\<exists>e'. delete_loop V keys is r e = (r, e') \<and> eg_opened e' \<and>
    (\<forall>k. engine_contains V k e' \<longleftrightarrow> engine_contains V k e \<and> (\<forall>i \<in> set is. to_storage_key (keys ! i) \<noteq> k))"
  using op
proof (induction "is" arbitrary: e)
  case (Cons i "is")
  obtain s e1 where del: "engine_del V (to_storage_key (keys ! i)) e = (s, e1)" by fastforce
  note D = engine_del_contains [OF laws Cons.prems del]
  from Cons.IH [OF D(2)] D(1,3) del show ?case by auto
qed simp

section \<open>Batched puts\<close>




section \<open>Batched gets\<close>



section \<open>Properties\<close>



text \<open>
  C14. Deleting a batch. On an open engine \<open>attentiondb_delete\<close> returns \<open>ATTENTIONDB_OK\<close>,
  also for keys that are not stored or occur twice, and afterwards the engine contains
  exactly the keys it contained before and that are not in the batch.
\<close>

theorem delete_batch_exact:
  assumes "cuckoo_laws (en_ck V)" and "eg_opened e"
  shows "\<exists>e'. attentiondb_delete V (Some e) (Some keys) n = (ATTENTIONDB_OK, Some e') \<and>
    (\<forall>k. engine_contains V k e' \<longleftrightarrow> engine_contains V k e \<and> (\<forall>i < n. to_storage_key (keys ! i) \<noteq> k))"
  using delete_loop_removes [OF assms, of keys "[0..<n]" ATTENTIONDB_OK]
  unfolding attentiondb_delete_def by fastforce

section \<open>Witnesses\<close>

definition demo_c_key :: attentiondb_key_t where
  "demo_c_key = \<lparr>ck_model_id = 1, ck_tenant_id = 2, ck_chunk_hash = 3, ck_layer_group_id = 4, ck_chunk_index = 5\<rparr>"






theorem delete_batch_exact_witness:
  "\<exists>e'. attentiondb_delete demo_env (Some demo_engine) (Some [demo_c_key, demo_c_key]) 2 = (ATTENTIONDB_OK, Some e') \<and>
     \<not> engine_contains demo_env (to_storage_key demo_c_key) e'"
proof -
  have "cuckoo_laws (en_ck demo_env)" "eg_opened demo_engine"
    using alist_table_laws demo_opened(2) by (simp_all add: demo_env_def cache_ok_def)
  from delete_batch_exact [OF this, of "[demo_c_key, demo_c_key]" 2] show ?thesis by fastforce
qed

end
