(* ===== verification/Py_Bindings.thy ===== *)
theory Py_Bindings
  imports C_Api
begin

text \<open>
  \<open>python/attentiondb_py.cpp\<close>: the class behind the Python module. A status other than
  \<open>kOk\<close> becomes an exception with a message. Of the module table the parts with a
  body are here; pybind11 itself is not modelled.
\<close>

section \<open>The class\<close>

datatype 'a py_result = PyValue 'a | RuntimeError string | PyAbort

definition check_status :: "Status \<Rightarrow> string \<Rightarrow> string option" where
  "check_status s op = (if s = kOk then None else Some (op @ '' failed: '' @ StatusToString s))"

text \<open>Raising leaves the value of the call away.\<close>

definition checked :: "Status \<Rightarrow> string \<Rightarrow> 'a \<Rightarrow> 'a py_result" where
  "checked s op v = (case check_status s op of None \<Rightarrow> PyValue v | Some msg \<Rightarrow> RuntimeError msg)"

text \<open>
  The constructors. When \<open>open\<close> fails the engine is destroyed; the result is the engine or the
  system that is left, and \<open>None\<close> for an exception of the configuration or the allocator.
\<close>

definition PyEngine_of_config :: "('m, 'w) engine_env \<Rightarrow> Config \<Rightarrow> 'w \<times> memory \<times> file_system \<Rightarrow>
    (('m, 'w) AttentionDBEngine + string \<times> 'w \<times> memory \<times> file_system) option" where
  "PyEngine_of_config V cfg sys =
     (case sys of (w, mem, fs) \<Rightarrow>
        (case engine_open V cfg (engine_create V w mem fs) of
           (Ret s, e) \<Rightarrow>
             (case check_status s ''open'' of
                None \<Rightarrow> Some (Inl e)
              | Some msg \<Rightarrow> map_option (\<lambda>sys. Inr (msg, sys)) (engine_delete V e))
         | (r, e) \<Rightarrow> None))"

definition PyEngine_of_path :: "('m, 'w) engine_env \<Rightarrow> 'n yaml \<Rightarrow> (string \<Rightarrow> string option) \<Rightarrow> string \<Rightarrow>
    'w \<times> memory \<times> file_system \<Rightarrow> (('m, 'w) AttentionDBEngine + string \<times> 'w \<times> memory \<times> file_system) option" where
  "PyEngine_of_path V Y read_file path sys =
     (case (if path \<noteq> [] then LoadFromFile Y (read_file path) else Some Default) of
        None \<Rightarrow> None
      | Some cfg \<Rightarrow> PyEngine_of_config V cfg sys)"

definition py_put :: "('m, 'w) engine_env \<Rightarrow> StorageKey \<Rightarrow> bytes \<Rightarrow> PutOpts \<Rightarrow> ('m, 'w) AttentionDBEngine \<Rightarrow>
    unit py_result \<times> ('m, 'w) AttentionDBEngine" where
  "py_put V key data opts e =
     (case engine_put V key data opts e of
        None \<Rightarrow> (PyAbort, e)
      | Some (s, e) \<Rightarrow> (checked s ''put'' (), e))"


definition py_contains :: "('m, 'w) engine_env \<Rightarrow> StorageKey \<Rightarrow> ('m, 'w) AttentionDBEngine \<Rightarrow> bool" where
  "py_contains V key e = engine_contains V key e"

fun py_contains_loop :: "('m, 'w) engine_env \<Rightarrow> ('m, 'w) AttentionDBEngine \<Rightarrow> StorageKey list \<Rightarrow> nat list \<Rightarrow> bool list \<Rightarrow> bool list" where
  "py_contains_loop V e keys [] results = results"
| "py_contains_loop V e keys (i # is) results =
     py_contains_loop V e keys is (results[i := engine_contains V (keys ! i) e])"

definition py_batched_contains :: "('m, 'w) engine_env \<Rightarrow> StorageKey list \<Rightarrow> ('m, 'w) AttentionDBEngine \<Rightarrow> bool list" where
  "py_batched_contains V keys e = py_contains_loop V e keys [0..<length keys] (replicate (length keys) False)"

text \<open>The status of a deletion is ignored.\<close>

definition py_del :: "('m, 'w) engine_env \<Rightarrow> StorageKey \<Rightarrow> ('m, 'w) AttentionDBEngine \<Rightarrow> ('m, 'w) AttentionDBEngine" where
  "py_del V key e = snd (engine_del V key e)"

definition py_stats :: "('m, 'w) engine_env \<Rightarrow> ('m, 'w) AttentionDBEngine \<Rightarrow> EngineStats option" where
  "py_stats V e = engine_stats V e"

definition py_close :: "('m, 'w) engine_env \<Rightarrow> ('m, 'w) AttentionDBEngine \<Rightarrow> unit outcome \<times> ('m, 'w) AttentionDBEngine" where
  "py_close V e = engine_close V e"

text \<open>What the module adds: the constructor of keys, the end of a \<open>with\<close> block and \<open>open\<close>.\<close>

definition py_StorageKey :: "64 word \<Rightarrow> 64 word \<Rightarrow> 64 word \<Rightarrow> 16 word \<Rightarrow> 32 word \<Rightarrow> StorageKey" where
  "py_StorageKey model tenant hash layer chunk =
     \<lparr>model_id = model, tenant_id = tenant, chunk_hash = hash, layer_group_id = layer, chunk_index = chunk\<rparr>"

text \<open>
  The constructor of \<open>PutOpts\<close> casts any byte to the enumeration. A byte beyond the last
  enumerator gives a value that is none of them (\<open>None\<close> here).
\<close>

definition py_PutOpts :: "32 word \<Rightarrow> 32 word \<Rightarrow> 8 word \<Rightarrow> 32 word \<Rightarrow> PutOpts option" where
  "py_PutOpts num_tokens recompute_cost entry_type ttl_seconds =
     (if entry_type \<le> entry_type_code kRagContext
      then Some \<lparr>po_num_tokens = num_tokens, po_recompute_cost = recompute_cost,
                 po_entry_type = to_entry_type entry_type, po_ttl_seconds = ttl_seconds\<rparr>
      else None)"

definition py_exit :: "('m, 'w) engine_env \<Rightarrow> ('m, 'w) AttentionDBEngine \<Rightarrow> unit outcome \<times> ('m, 'w) AttentionDBEngine" where
  "py_exit V self = py_close V self"

definition py_open :: "('m, 'w) engine_env \<Rightarrow> 'n yaml \<Rightarrow> (string \<Rightarrow> string option) \<Rightarrow> string \<Rightarrow>
    'w \<times> memory \<times> file_system \<Rightarrow> (('m, 'w) AttentionDBEngine + string \<times> 'w \<times> memory \<times> file_system) option" where
  "py_open V Y read_file path sys = PyEngine_of_path V Y read_file path sys"

section \<open>Options\<close>

text \<open>Where it gives one of the enumerators, the constructor and the C interface agree; the C interface takes any other byte for a conversation.\<close>

lemma py_PutOpts_to_put_opts:
  "to_put_opts c = (case py_PutOpts (co_num_tokens c) (co_recompute_cost c) (co_entry_type c) (co_ttl_seconds c) of
     Some po \<Rightarrow> po
   | None \<Rightarrow> \<lparr>po_num_tokens = co_num_tokens c, po_recompute_cost = co_recompute_cost c,
              po_entry_type = kConversation, po_ttl_seconds = co_ttl_seconds c\<rparr>)"
  by (simp add: to_put_opts_def py_PutOpts_def Let_def)

section \<open>Keys in a list\<close>

lemma py_contains_loop_nth:
  "length (py_contains_loop V e keys is rs) = length rs"
  "j < length rs \<Longrightarrow> py_contains_loop V e keys is rs ! j = (if j \<in> set is then engine_contains V (keys ! j) e else rs ! j)"
  by (induction "is" arbitrary: rs) (auto simp: nth_list_update)

lemma py_batched_contains_map: "py_batched_contains V keys e = map (\<lambda>k. py_contains V k e) keys"
  by (rule nth_equalityI) (simp_all add: py_batched_contains_def py_contains_def py_contains_loop_nth)

section \<open>Properties\<close>



end
