(* ===== verification/Blob_Oversized.thy ===== *)
theory Blob_Oversized
  imports Blob_Runs
begin

text \<open>
  Blobs larger than a write block. \<open>write\<close> puts such an entry straight into the segment, at the
  end of what is accounted for, which is also where the active block will put its next entry:
  the block keeps the place it was given when it became active.
\<close>

section \<open>The direct write\<close>


section \<open>The next append\<close>


section \<open>Nothing pending covers the end of the segment\<close>



section \<open>Properties\<close>







end
