(* ===== verification/Blob_Race.thy ===== *)
theory Blob_Race
  imports Blob_Runs
begin

text \<open>
  Two writers. While a writer waits in \<open>acquire_block\<close> the block mutex is free and \<open>active_block_\<close>
  still names the block it gave to the flush thread. A second writer then appends to a block
  that nobody will flush again.
\<close>

section \<open>Writing while another writer waits\<close>

lemma append_places:
  assumes inv: "store_inv cap waiting fds files E s" and act: "active_block s = Some p"
    and data: "length data \<le> UINT32_MAX - 64" "wb_pos (all_blocks s ! p) + entry_disk_size (length data) \<le> cap"
  obtains s1 where "blob_write env key data checksum (s, w) = (Returned kOk (Some (make_location (wb_segment_id (all_blocks s ! p))
      (wb_segment_offset (all_blocks s ! p) + wb_pos (all_blocks s ! p)) (length data) (entry_disk_size (length data)))), s1, w)"
    "\<exists>E'. store_inv cap waiting fds files E' s1 \<and> (waiting \<longrightarrow> E' = E)" "free_pool s1 = free_pool s" "flush_queue s1 = flush_queue s"
    "flushing_block s1 = flushing_block s" "next_segment_id s1 = next_segment_id s" "active_block s1 = Some p"
    "wb_pos (all_blocks s1 ! p) = wb_pos (all_blocks s ! p) + entry_disk_size (length data)"
    "\<exists>q g. (q, g) \<in> set (segments s1) \<and> si_id g = wb_segment_id (all_blocks s ! p) \<and>
       wb_segment_offset (all_blocks s ! p) + wb_pos (all_blocks s ! p) < si_write_offset g \<and>
       length (file_bytes files (si_path g)) \<le> wb_segment_offset (all_blocks s ! p) + wb_pos (all_blocks s ! p)"
proof -
  let ?b = "all_blocks s ! p" and ?d = "entry_disk_size (length data)"
  note D = store_invD [OF inv] and B = blocks_invD [OF store_invD(3) [OF inv]]
  have pl: "p < length (all_blocks s)" using act by (intro B(3)) (simp add: pending_blocks_alt opt_list_def)
  then have bok: "block_ok cap ?b" using B(4) by simp
  from D(4) act obtain q g where q: "active_segment s = Some q" "(q, g) \<in> set (segments s)" "wb_segment_id ?b = si_id g"
    "si_write_offset g = wb_segment_offset ?b + wb_pos ?b" "wb_segment_offset ?b + cap \<le> 2 ^ 63" by (auto simp: active_inv_def Let_def)
  have len: "length (file_bytes files (si_path g)) \<le> si_write_offset g" using D(6) q(2) by (auto simp: disk_inv_def)
  have "length data + 4160 \<le> 2 ^ 64" using data(1) by simp
  note d = entry_disk_size_bounds(1,3) [OF this]
  define t where "t = s\<lparr>all_blocks := (all_blocks s)[p := append_entry key data checksum (write_sequence s) ?d ?b],
    write_sequence := write_sequence s + 1\<rparr>"
  have wrap: "wrap64 (wb_segment_offset ?b + wb_pos ?b) = wb_segment_offset ?b + wb_pos ?b"
    using q(5) data(2) by (intro wrap64_id) simp
  have wa: "write_append key data checksum ?d p s = (Returned kOk (Some (make_location (wb_segment_id ?b)
      (wb_segment_offset ?b + wb_pos ?b) (length data) ?d)), count_entry q ?d t)"
    using q(1) by (simp add: write_append_def Let_def wrap t_def)
  have "(q, counted ?d g) \<in> set (segments (count_entry q ?d t))" using count_entry_in [of q g t q ?d] q(2) by (simp add: t_def)
  moreover have "si_write_offset (counted ?d g) = wb_segment_offset ?b + wb_pos ?b + ?d"
    using q(4,5) data(2) by (simp add: counted_def wrap64_id)
  ultimately have seg: "\<exists>q' g'. (q', g') \<in> set (segments (count_entry q ?d t)) \<and> si_id g' = wb_segment_id ?b \<and>
      wb_segment_offset ?b + wb_pos ?b < si_write_offset g' \<and>
      length (file_bytes files (si_path g')) \<le> wb_segment_offset ?b + wb_pos ?b"
    using len q(3,4) d(1) by (intro exI [of _ q] exI [of _ "counted ?d g"]) (simp add: counted_def)
  show thesis
  proof (rule write_append_inv [OF inv act data(2) d wa], goal_cases)
    case (1 sid off reserved)
    then have inv1: "\<exists>E'. store_inv cap waiting fds files E' (count_entry q ?d t) \<and> (waiting \<longrightarrow> E' = E)"
      by (cases waiting) auto
    have "blob_write env key data checksum (s, w) = (Returned kOk (Some (make_location (wb_segment_id ?b)
        (wb_segment_offset ?b + wb_pos ?b) (length data) ?d)), count_entry q ?d t, w)"
      using act data bok wa by (simp add: blob_write_def Let_def block_ok_def)
    from this inv1 _ _ _ _ _ _ seg show thesis
      by (rule that) (use pl act in \<open>simp_all add: count_entry_frame t_def append_entry_def Let_def\<close>)
  qed
qed

section \<open>A place nobody wrote\<close>

text \<open>A read beyond the end of the file, at a place no block holds.\<close>

lemma read_past_end:
  assumes rel: "reliable env contents opened" and segs: "segs_inv (opened w) s" and g: "(q, g) \<in> set (segments s)"
    and none: "find_in_pending_blocks s loc = None" and loc: "bl_segment_id loc = si_id g" "0 < bl_disk_size loc" "bl_disk_size loc < 2 ^ 31"
    and eof: "length (file_bytes (contents w) (si_path g)) \<le> bl_offset loc"
  shows "fst (blob_read env loc n (s, w)) = (kNotFound, [])"
proof -
  have fd: "0 \<le> si_fd g" using segs g by (auto simp: segs_inv_def)
  have pos: "0 < to_int (bl_disk_size loc)" using loc(2,3) by (simp add: to_int_small)
  have rd: "\<exists>v'. sync_read (se_io env) v (si_fd g) (bl_disk_size loc) (bl_offset loc) = ((0, []), v') \<and>
      opened v' = opened v \<and> contents v' = contents v" if "opened v = opened w" "contents v = contents w" for v
  proof -
    obtain r got v' where v': "sync_read (se_io env) v (si_fd g) (bl_disk_size loc) (bl_offset loc) = ((r, got), v')"
      by (metis prod.collapse)
    have "opened v (si_fd g) = Some (si_path g)" using segs_file(1) [OF segs g] that by simp
    note R = reliable_read(3,4) [OF rel v' this]
    have "got = []" using R(2) eof that by simp
    then show ?thesis using v' R(1) reliable_read(1,2) [OF rel v'] by (simp add: to_int_small)
  qed
  from rd [of w] obtain w1 where w1: "sync_read (se_io env) w (si_fd g) (bl_disk_size loc) (bl_offset loc) = ((0, []), w1)"
    "opened w1 = opened w" "contents w1 = contents w" by blast
  from rd [OF w1(2,3)] obtain w2 where
    "sync_read (se_io env) w1 (si_fd g) (bl_disk_size loc) (bl_offset loc) = ((0, []), w2)" by blast
  then show ?thesis
    using w1(1) none fd pos segs_lookup [OF segs g] reliable_alloc [OF rel]
    by (simp add: blob_read_def read_attempt_def loc(1) Let_def)
qed

text \<open>The block the waiting writer gets starts behind everything accounted for.\<close>

lemma acquire_loses:
  assumes rel: "reliable env contents opened" and inv: "store_inv cap True (opened w) (contents w) E s"
    and idle: "free_pool s \<noteq> []" "flush_queue s = []" "flushing_block s = None" and ids: "next_segment_id s < UINT32_MAX"
    and data: "64 + length data \<le> d" "4096 dvd d" "d \<le> cap"
    and g: "(q, g) \<in> set (segments s)" "bl_segment_id loc = si_id g" "bl_offset loc < si_write_offset g"
      "length (file_bytes (contents w) (si_path g)) \<le> bl_offset loc"
    and loc: "0 < bl_disk_size loc" "bl_disk_size loc < 2 ^ 31"
  shows "\<exists>loc' s' w'. write_acquire env key data checksum d (s, w) = (Returned kOk (Some loc'), s', w') \<and>
    (\<forall>n. fst (blob_read env loc n (s', w')) = (kNotFound, []))"
proof (rule write_acquire_activates [OF rel inv idle(1) ids, where key = key and data = data and checksum = checksum and d = d])
  let ?p = "last (free_pool s)"
  fix v u x h
  assume u: "store_inv cap False (opened v) (contents v) E u" "active_block u = Some ?p"
    and wr: "write_acquire env key data checksum d (s, w) = (case write_append key data checksum d ?p u of (r, s) \<Rightarrow> (r, s, v))"
    and rest: "flushing_block u = flushing_block s" "flush_queue u = flush_queue s" and grow: "segs_grow s u"
    and h: "(x, h) \<in> set (segments u)" "all_blocks u ! ?p = reset (si_id h) (si_write_offset h) (si_fd h) (all_blocks s ! ?p)"
    and kept: "\<And>p h. (p, h) \<in> set (segments s) \<Longrightarrow> file_bytes (contents v) (si_path h) = file_bytes (contents w) (si_path h)"
  note D = store_invD [OF u(1)]
  have fit: "wb_pos (all_blocks u ! ?p) + d \<le> cap" using h(2) data(3) by (simp add: reset_def)
  obtain r s' where wa: "write_append key data checksum d ?p u = (r, s')" by fastforce
  obtain y where s': "s' = count_entry y d (u\<lparr>all_blocks := (all_blocks u)[?p := append_entry key data checksum (write_sequence u) d
      (all_blocks u ! ?p)], write_sequence := write_sequence u + 1\<rparr>)"
    using wa D(4) by (auto simp: write_append_def Let_def active_inv_def)
  from grow g(1) obtain gu where gu: "(q, gu) \<in> set (segments u)" "si_id gu = si_id g" "si_path gu = si_path g"
    "si_write_offset g \<le> si_write_offset gu" by (rule segs_growD)
  have "?p < length (all_blocks u)" using u(2) by (intro blocks_invD(3) [OF D(3)]) (simp add: pending_blocks_alt opt_list_def)
  then have "pending_blocks s' = [?p]" "wb_segment_id (all_blocks s' ! ?p) = si_id h" "wb_segment_offset (all_blocks s' ! ?p) = si_write_offset h"
    using u(2) rest idle h(2) by (simp_all add: s' pending_blocks_alt opt_list_def count_entry_frame append_entry_def reset_def Let_def)
  moreover have "si_write_offset g \<le> si_write_offset h" if "si_id h = si_id g"
    using segs_unique(1) [OF D(2) h(1) gu(1)] that gu by simp
  ultimately have none: "find_in_pending_blocks s' loc = None" using g(2,3) by (auto simp: find_in_pending_blocks_def in_block_def)
  have g': "(q, if q = y then counted d gu else gu) \<in> set (segments s')"
    using count_entry_in [of q gu _ y d] gu(1) by (simp add: s')
  show ?thesis
  proof (rule write_append_inv [OF u fit data(1,2) wa], goal_cases)
    case (1 sid off reserved)
    then have segs: "segs_inv (opened v) s'" by (simp add: store_inv_def)
    have "fst (blob_read env loc n (s', v)) = (kNotFound, [])" for n
      using rel segs g' none _ loc by (rule read_past_end) (use g gu kept in \<open>simp_all add: counted_def\<close>)
    then show ?thesis using 1(1) wr wa by simp
  qed
qed

section \<open>A store of one block\<close>

definition one_block_config :: NvmeStoreConfig where
  "one_block_config = mem_config\<lparr>nv_write_block_pool_size := 1\<rparr>"

lemma one_block_config_ok: "sane_config one_block_config" "readable_dirs mem_env one_block_config"
  "no_segments_yet one_block_config (mem_files ([], [], 0))" "block_capacity one_block_config = 1048576"
  using mem_config_ok
  by (simp_all add: one_block_config_def sane_config_def readable_dirs_def own_files_def) (simp add: mem_config_def)

abbreviation most_of_a_block :: bytes where
  "most_of_a_block \<equiv> replicate 1000000 1"

lemma most_of_a_block_size: "entry_disk_size (length most_of_a_block) = 1003520"
  by (simp add: entry_disk_size_eq)

lemma one_block_opens:
  obtains s w p where "blob_open mem_env (blob_store_create one_block_config, [], [], 0) = (kOk, s, w)"
    "store_inv (block_capacity one_block_config) False (mem_opened w) (mem_files w) {} s" "next_segment_id s \<le> 1"
    "active_block s = Some p" "wb_pos (all_blocks s ! p) = 0" "flushing_block s = None" "flush_queue s = []" "free_pool s = []"
proof -
  have n0: "(0 :: nat) < UINT32_MAX" by simp
  obtain s w where op: "blob_open mem_env (blob_store_create one_block_config, [], [], 0) = (kOk, s, w)"
    and inv: "store_inv (block_capacity one_block_config) False (mem_opened w) (mem_files w) {} s" and ids: "next_segment_id s \<le> Suc 0"
    and ex: "\<exists>p q. active_block s = Some p \<and> active_segment s = Some q \<and> wb_pos (all_blocks s ! p) = 0 \<and>
       si_write_offset (seg_of s q) = 4096 \<and> bs_config s = one_block_config"
    and one: "length (all_blocks s) = nv_write_block_pool_size one_block_config"
    by (rule blob_open_inv [OF mem_env_reliable one_block_config_ok(1-3) n0, where E = "{}"]) auto
  from ex obtain p where p: "active_block s = Some p" "wb_pos (all_blocks s ! p) = 0" by blast
  note B = blocks_invD [OF store_invD(3) [OF inv]]
  have "set (owners False s) \<subseteq> {..<1}" using B(2) one by (auto simp: one_block_config_def)
  from card_mono [OF _ this] have "length (owners False s) \<le> 1" by (simp add: distinct_card [OF B(1)])
  then have "flushing_block s = None" "flush_queue s = []" "free_pool s = []"
    using p(1) by (auto simp: owners_def opt_list_def split: option.splits)
  with op inv ids p show thesis by (intro that) simp_all
qed

text \<open>One block fills up, the second write waits for it, and the flush thread writes it.\<close>

lemma one_block_run:
  obtains s0 w y p where "blob_open mem_env (blob_store_create one_block_config, [], [], 0) = (kOk, s0, w)"
    "(store_step mem_env one_block_config)\<^sup>*\<^sup>* (opened_run s0 w) y" "sr_waiting y = Some (key_of_bytes [], most_of_a_block, 0)"
    "writable (block_capacity one_block_config) (sr_store y) most_of_a_block"
    "free_pool (sr_store y) \<noteq> []" "flush_queue (sr_store y) = []" "flushing_block (sr_store y) = None"
    "active_block (sr_store y) = Some p" "wb_pos (all_blocks (sr_store y) ! p) = 1003520"
proof -
  let ?c = one_block_config and ?big = most_of_a_block and ?k = "key_of_bytes []"
  obtain s w p where op: "blob_open mem_env (blob_store_create ?c, [], [], 0) = (kOk, s, w)"
    and inv: "store_inv (block_capacity ?c) False (mem_opened w) (mem_files w) {} s" and ids: "next_segment_id s \<le> 1"
    and p: "active_block s = Some p" "wb_pos (all_blocks s ! p) = 0"
    and idle: "flushing_block s = None" "flush_queue s = []" "free_pool s = []" by (rule one_block_opens)
  have wr: "writable (block_capacity ?c) t ?big" if "next_segment_id t \<le> 1" for t
    using that most_of_a_block_size unfolding writable_def one_block_config_ok(4) by simp
  have fit: "length ?big \<le> UINT32_MAX - 64" "wb_pos (all_blocks s ! p) + entry_disk_size (length ?big) \<le> block_capacity ?c"
    unfolding most_of_a_block_size one_block_config_ok(4) by (simp_all add: p(2))
  show thesis
  proof (rule append_places [OF inv p(1) fit, where env = mem_env and key = ?k and checksum = 0 and w = w])
    fix s1
    let ?loc = "make_location (wb_segment_id (all_blocks s ! p)) (wb_segment_offset (all_blocks s ! p) + wb_pos (all_blocks s ! p))
      (length ?big) (entry_disk_size (length ?big))"
    assume bw: "blob_write mem_env ?k ?big 0 (s, w) = (Returned kOk (Some ?loc), s1, w)"
      and inv1: "\<exists>E'. store_inv (block_capacity ?c) False (mem_opened w) (mem_files w) E' s1 \<and> (False \<longrightarrow> E' = {})"
      and same: "free_pool s1 = free_pool s" "flush_queue s1 = flush_queue s" "flushing_block s1 = flushing_block s"
        "next_segment_id s1 = next_segment_id s" "active_block s1 = Some p"
        "wb_pos (all_blocks s1 ! p) = wb_pos (all_blocks s ! p) + entry_disk_size (length ?big)"
    have pos: "wb_pos (all_blocks s1 ! p) = 1003520" using same(6) p(2) most_of_a_block_size by simp
    from inv1 obtain E where E: "store_inv (block_capacity ?c) False (mem_opened w) (mem_files w) E s1" by blast
    note B1 = blocks_invD [OF store_invD(3) [OF E]]
    have "p < length (all_blocks s1)" using same(5) by (intro B1(3)) (simp add: pending_blocks_alt opt_list_def)
    then have cap: "wb_capacity (all_blocks s1 ! p) = 1048576" using B1(4) by (simp add: block_ok_def one_block_config_ok(4))
    have "flush_running s1" using store_invD(1) [OF E] by (simp add: config_ok_def)
    then have bw2: "blob_write mem_env ?k ?big 0 (s1, w) = (Waiting, s1\<lparr>flush_queue := [p]\<rparr>, w)"
      unfolding blob_write_def Let_def most_of_a_block_size
      using same idle pos cap by (simp add: write_acquire_def)
    define x1 where "x1 = (opened_run s w)\<lparr>sr_store := s1, sr_world := w, sr_acked := insert (?loc, ?big) (sr_acked (opened_run s w))\<rparr>"
    define x2 where "x2 = x1\<lparr>sr_store := s1\<lparr>flush_queue := [p]\<rparr>, sr_world := w, sr_waiting := Some (?k, ?big, 0)\<rparr>"
    define x3 where "x3 = x2\<lparr>sr_store := flush_take (sr_store x2)\<rparr>"
    obtain s4 w4 where fw: "flush_write mem_env (sr_store x3, sr_world x3) = (s4, w4)" by (metis surj_pair)
    define y where "y = x3\<lparr>sr_store := s4, sr_world := w4\<rparr>"
    have st1: "store_step mem_env ?c (opened_run s w) x1"
      unfolding x1_def by (rule store_step.write_ack) (use bw wr ids in \<open>simp_all add: opened_run_def\<close>)
    have st2: "store_step mem_env ?c x1 x2"
      unfolding x2_def by (rule store_step.write_wait) (use bw2 wr ids same(4) in \<open>simp_all add: opened_run_def x1_def\<close>)
    have st3: "store_step mem_env ?c x2 x3"
      unfolding x3_def by (rule store_step.flush_begin) (use same(3) idle in \<open>simp add: x2_def\<close>)
    have st4: "store_step mem_env ?c x3 y" unfolding y_def using fw by (rule store_step.flush_end)
    have "(store_step mem_env ?c)\<^sup>*\<^sup>* (opened_run s w) x2" using r_into_rtranclp [where r = "store_step mem_env ?c", OF st1] st2
      by (rule rtranclp.rtrancl_into_rtrancl)
    from rtranclp.rtrancl_into_rtrancl [OF rtranclp.rtrancl_into_rtrancl [OF this st3] st4]
    have run: "(store_step mem_env ?c)\<^sup>*\<^sup>* (opened_run s w) y" .
    have "sr_store x3 = s1\<lparr>flush_queue := [], flushing_block := Some p\<rparr>" using pos by (simp add: x3_def x2_def flush_take_def Let_def)
    with fw same idle have s4: "free_pool s4 = [p]" "flush_queue s4 = []" "flushing_block s4 = None" "active_block s4 = Some p"
      "all_blocks s4 = all_blocks s1" "next_segment_id s4 = next_segment_id s"
      by (auto simp: flush_write_def Let_def split: prod.splits if_splits)
    from op run show thesis by (rule that) (use s4 pos wr ids in \<open>simp_all add: y_def x3_def x2_def\<close>)
  qed
qed

section \<open>Property\<close>

text \<open>
  C18. A second writer loses its blob. In every state a store reaches from \<open>open\<close> in which a
  writer waits for a block and the flush thread has caught up, a second writer whose blob fits
  the rest of the block that \<open>active_block_\<close> still names is acknowledged. Once the first writer
  has been given a block and is acknowledged too, the second blob is neither in a block nor on
  disk: a read of the location that was returned for it yields \<open>kNotFound\<close>.
\<close>

theorem concurrent_write_lost:
  assumes rel: "reliable env contents opened" and cfg: "sane_config cfg" "readable_dirs env cfg"
    and none: "no_segments_yet cfg (contents w0)" and op: "blob_open env (blob_store_create cfg, w0) = (status, s0, w)"
    and run: "(store_step env cfg)\<^sup>*\<^sup>* (opened_run s0 w) y" and wait: "sr_waiting y = Some (key, data, checksum)"
    and first: "writable (block_capacity cfg) (sr_store y) data"
    and caught_up: "free_pool (sr_store y) \<noteq> []" "flush_queue (sr_store y) = []" "flushing_block (sr_store y) = None"
    and second: "active_block (sr_store y) = Some p" "length small \<le> UINT32_MAX - 64" "entry_disk_size (length small) < 2 ^ 31"
      "wb_pos (all_blocks (sr_store y) ! p) + entry_disk_size (length small) \<le> block_capacity cfg"
  shows "\<exists>loc s1 loc' s2 w2.
    blob_write env key' small checksum' (sr_store y, sr_world y) = (Returned kOk (Some loc), s1, sr_world y) \<and>
    write_acquire env key data checksum (entry_disk_size (length data)) (s1, sr_world y) = (Returned kOk (Some loc'), s2, w2) \<and>
    (\<forall>n. fst (blob_read env loc n (s2, w2)) = (kNotFound, []))"
proof -
  let ?s = "sr_store y" and ?w = "sr_world y" and ?d = "entry_disk_size (length small)"
  let ?loc = "make_location (wb_segment_id (all_blocks ?s ! p)) (wb_segment_offset (all_blocks ?s ! p) + wb_pos (all_blocks ?s ! p))
    (length small) ?d"
  from blob_open_run [OF rel cfg none] op
  have "run_inv cfg opened contents (opened_run s0 w)" by (metis prod.inject)
  from store_steps_inv [OF run rel cfg this] wait obtain E where
    inv: "store_inv (block_capacity cfg) True (opened ?w) (contents ?w) E ?s" by (auto simp: run_inv_def)
  have len: "length data + 4160 \<le> 2 ^ 64" "length small + 4160 \<le> 2 ^ 64" using first second(2) by (simp_all add: writable_def)
  have loc: "bl_segment_id ?loc = wb_segment_id (all_blocks ?s ! p)"
    "bl_offset ?loc = wb_segment_offset (all_blocks ?s ! p) + wb_pos (all_blocks ?s ! p)" "0 < bl_disk_size ?loc" "bl_disk_size ?loc < 2 ^ 31"
    using second(3) entry_disk_size_bounds(1) [OF len(2)] by (simp_all add: make_location_def wrap32_id)
  show ?thesis
  proof (rule append_places [OF inv second(1,2,4), where env = env and key = key' and checksum = checksum' and w = ?w])
    fix s1
    assume bw: "blob_write env key' small checksum' (?s, ?w) = (Returned kOk (Some ?loc), s1, ?w)"
      and "\<exists>E'. store_inv (block_capacity cfg) True (opened ?w) (contents ?w) E' s1 \<and> (True \<longrightarrow> E' = E)"
      and same: "free_pool s1 = free_pool ?s" "flush_queue s1 = flush_queue ?s" "flushing_block s1 = flushing_block ?s"
        "next_segment_id s1 = next_segment_id ?s"
      and "\<exists>q g. (q, g) \<in> set (segments s1) \<and> si_id g = wb_segment_id (all_blocks ?s ! p) \<and>
        wb_segment_offset (all_blocks ?s ! p) + wb_pos (all_blocks ?s ! p) < si_write_offset g \<and>
        length (file_bytes (contents ?w) (si_path g)) \<le> wb_segment_offset (all_blocks ?s ! p) + wb_pos (all_blocks ?s ! p)"
    then obtain q g where inv1: "store_inv (block_capacity cfg) True (opened ?w) (contents ?w) E s1"
      and g: "(q, g) \<in> set (segments s1)" "bl_segment_id ?loc = si_id g" "bl_offset ?loc < si_write_offset g"
        "length (file_bytes (contents ?w) (si_path g)) \<le> bl_offset ?loc" unfolding loc by metis
    have "free_pool s1 \<noteq> []" "flush_queue s1 = []" "flushing_block s1 = None" "next_segment_id s1 < UINT32_MAX"
      "entry_disk_size (length data) \<le> block_capacity cfg"
      using caught_up same first by (simp_all add: writable_def)
    from acquire_loses [OF rel inv1 this(1-4) entry_disk_size_bounds(1,3) [OF len(1)] this(5) g loc(3,4)] bw
    show ?thesis by blast
  qed
qed

theorem concurrent_write_lost_witness:
  "\<exists>s0 w y loc s1 loc' s2 w2. blob_open mem_env (blob_store_create one_block_config, [], [], 0) = (kOk, s0, w) \<and>
     (store_step mem_env one_block_config)\<^sup>*\<^sup>* (opened_run s0 w) y \<and>
     blob_write mem_env (key_of_bytes [9]) [1, 2, 3] 0 (sr_store y, sr_world y) = (Returned kOk (Some loc), s1, sr_world y) \<and>
     write_acquire mem_env (key_of_bytes []) most_of_a_block 0 1003520 (s1, sr_world y) = (Returned kOk (Some loc'), s2, w2) \<and>
     fst (blob_read mem_env loc 3 (s2, w2)) = (kNotFound, [])"
proof (rule one_block_run)
  fix s0 w y p
  assume op: "blob_open mem_env (blob_store_create one_block_config, [], [], 0) = (kOk, s0, w)"
    and run: "(store_step mem_env one_block_config)\<^sup>*\<^sup>* (opened_run s0 w) y"
    and rest: "sr_waiting y = Some (key_of_bytes [], most_of_a_block, 0)"
      "writable (block_capacity one_block_config) (sr_store y) most_of_a_block"
      "free_pool (sr_store y) \<noteq> []" "flush_queue (sr_store y) = []" "flushing_block (sr_store y) = None"
      "active_block (sr_store y) = Some p" and pos: "wb_pos (all_blocks (sr_store y) ! p) = 1003520"
  have d: "entry_disk_size (length [1, 2, 3 :: byte]) = 4096" by (simp add: entry_disk_size_eq)
  have "length [1, 2, 3 :: byte] \<le> UINT32_MAX - 64" "entry_disk_size (length [1, 2, 3 :: byte]) < 2 ^ 31"
    "wb_pos (all_blocks (sr_store y) ! p) + entry_disk_size (length [1, 2, 3 :: byte]) \<le> block_capacity one_block_config"
    unfolding d pos one_block_config_ok(4) by simp_all
  from concurrent_write_lost [OF mem_env_reliable one_block_config_ok(1-3) op run rest this, of "key_of_bytes [9]" 0] op run
  show ?thesis unfolding most_of_a_block_size by blast
qed

end
