(* ===== verification/Blob_Gc.thy ===== *)
theory Blob_Gc
  imports Blob_Log
begin

text \<open>
  Compaction of a segment: the walk over its entries, which hands each of them to the rewrite
  callback, and the removal of the segment after it. The callback belongs to the owner of the
  store; here it is any function on the state that keeps count of its calls.
\<close>

section \<open>Segments as sequences of entries\<close>

record gc_entry =
  ge_key :: StorageKey
  ge_data :: bytes
  ge_checksum :: "32 word"
  ge_sequence :: "64 word"
  ge_reserved :: bytes

definition ge_size :: "gc_entry \<Rightarrow> nat" where
  "ge_size x = entry_disk_size (length (ge_data x))"

definition ge_ok :: "gc_entry \<Rightarrow> bool" where
  "ge_ok x \<longleftrightarrow> length (ge_reserved x) = 10 \<and> length (ge_data x) \<le> UINT32_MAX - 64 \<and> ge_size x < 2 ^ 31"

definition ge_image :: "gc_entry \<Rightarrow> bytes" where
  "ge_image x = entry_image (ge_key x) (ge_data x) (ge_checksum x) (ge_sequence x) (ge_size x) (ge_reserved x)"

definition ge_call :: "gc_entry \<Rightarrow> StorageKey \<times> bytes \<times> 32 word" where
  "ge_call x = (ge_key x, ge_data x, ge_checksum x)"

lemma ge_image_facts:
  assumes "ge_ok x"
  shows "length (ge_image x) = ge_size x" and "64 \<le> ge_size x"
    and "unat (eh_padded_size (entry_header_of_bytes (take 64 (ge_image x @ rest)))) = ge_size x"
    and "unat (eh_blob_size (entry_header_of_bytes (ge_image x))) = length (ge_data x)"
    and "key_of_bytes (eh_key_data (entry_header_of_bytes (ge_image x))) = ge_key x"
    and "eh_checksum (entry_header_of_bytes (ge_image x)) = ge_checksum x"
    and "take (length (ge_data x)) (drop 64 (ge_image x)) = ge_data x"
proof -
  have r: "length (ge_reserved x) = 10" and "length (ge_data x) + 4160 \<le> 2 ^ 64" and lt: "ge_size x < 2 ^ 32" "length (ge_data x) < 2 ^ 32"
    using assms by (simp_all add: ge_ok_def)
  note d = entry_disk_size_bounds(1) [OF this(2), folded ge_size_def]
  show "length (ge_image x) = ge_size x" unfolding ge_image_def using r d by (rule length_entry_image)
  show "64 \<le> ge_size x" using d by simp
  define h where "h = \<lparr>eh_key_size = of_nat sizeof_StorageKey, eh_blob_size = of_nat (length (ge_data x)) :: 32 word,
    eh_padded_size = of_nat (ge_size x), eh_checksum = ge_checksum x, eh_sequence = ge_sequence x,
    eh_key_data = key_bytes (ge_key x), eh_reserved = ge_reserved x\<rparr>"
  have img: "ge_image x = entry_header_bytes h @ ge_data x @ replicate (ge_size x - (kEntryHeaderSize + length (ge_data x))) 0"
    by (simp add: ge_image_def entry_image_def h_def)
  have len: "length (entry_header_bytes h) = 64" and dec: "\<And>ys. entry_header_of_bytes (entry_header_bytes h @ ys) = h"
    using r by (simp_all add: h_def length_entry_header_bytes entry_header_round_trip)
  have "take 64 (ge_image x @ rest) = entry_header_bytes h @ []" using len by (simp add: img)
  then show "unat (eh_padded_size (entry_header_of_bytes (take 64 (ge_image x @ rest)))) = ge_size x"
    using lt(1) by (simp only: dec) (simp add: h_def unat_word_32)
  show "unat (eh_blob_size (entry_header_of_bytes (ge_image x))) = length (ge_data x)"
    "key_of_bytes (eh_key_data (entry_header_of_bytes (ge_image x))) = ge_key x"
    "eh_checksum (entry_header_of_bytes (ge_image x)) = ge_checksum x"
    unfolding img dec using lt(2) by (simp_all add: h_def unat_word_32)
  show "take (length (ge_data x)) (drop 64 (ge_image x)) = ge_data x" using len by (simp add: img)
qed

section \<open>Reads of files opened for direct I/O\<close>

text \<open>
  Segment files are opened with \<open>O_DIRECT\<close>. A read whose length the device takes, which holds
  of multiples of 4096 bytes, gives the bytes of the file; any other is refused with an error
  number (\<open>EINVAL\<close>). Whether a device takes other lengths, the 64 bytes of an entry header for
  one, differs between file systems: \<open>takes\<close> says which. (All offsets the walk uses are
  multiples of 4096; buffers are taken to be aligned.)
\<close>

definition direct_reads :: "'w store_env \<Rightarrow> ('w \<Rightarrow> string \<rightharpoonup> bytes) \<Rightarrow> ('w \<Rightarrow> int \<rightharpoonup> string) \<Rightarrow> (nat \<Rightarrow> bool) \<Rightarrow> bool" where
  "direct_reads env contents opened takes \<longleftrightarrow> (\<forall>n. 4096 dvd n \<longrightarrow> takes n) \<and>
     (\<forall>w fd n off r got w'. sync_read (se_io env) w fd n off = ((r, got), w') \<longrightarrow>
        contents w' = contents w \<and> opened w' = opened w \<and>
        (\<forall>path. opened w fd = Some path \<longrightarrow>
           (if takes n then r = to_int (length got) \<and> got = take n (drop off (file_bytes (contents w) path)) else r < 0)))"

lemma direct_read:
  assumes "direct_reads env contents opened takes" and "sync_read (se_io env) w fd n off = ((r, got), w')"
  shows "contents w' = contents w" and "opened w' = opened w"
    and "opened w fd = Some path \<Longrightarrow> takes n \<Longrightarrow> r = to_int (length got)"
    and "opened w fd = Some path \<Longrightarrow> takes n \<Longrightarrow> got = take n (drop off (file_bytes (contents w) path))"
    and "opened w fd = Some path \<Longrightarrow> \<not> takes n \<Longrightarrow> r < 0"
proof -
  from assms(1) [unfolded direct_reads_def, THEN conjunct2, THEN spec, THEN spec, THEN spec, THEN spec, THEN spec, THEN spec,
      THEN spec, THEN mp, OF assms(2)]
  have R: "contents w' = contents w \<and> opened w' = opened w \<and> (\<forall>path. opened w fd = Some path \<longrightarrow>
      (if takes n then r = to_int (length got) \<and> got = take n (drop off (file_bytes (contents w) path)) else r < 0))" .
  then show "contents w' = contents w" "opened w' = opened w" by simp_all
  show "opened w fd = Some path \<Longrightarrow> takes n \<Longrightarrow> r = to_int (length got)"
    "opened w fd = Some path \<Longrightarrow> takes n \<Longrightarrow> got = take n (drop off (file_bytes (contents w) path))"
    "opened w fd = Some path \<Longrightarrow> \<not> takes n \<Longrightarrow> r < 0"
    using R by auto
qed

lemma reliable_direct: "reliable env contents opened \<Longrightarrow> direct_reads env contents opened (\<lambda>n. True)"
  unfolding direct_reads_def if_True by (blast intro: reliable_read)

section \<open>The walk\<close>

text \<open>
  A callback that records its calls and does not touch the file of the segment being
  compacted; reading a file is not a call.
\<close>

definition recording :: "'w store_env \<Rightarrow> ('w \<Rightarrow> string \<rightharpoonup> bytes) \<Rightarrow> ('w \<Rightarrow> int \<rightharpoonup> string) \<Rightarrow> int \<Rightarrow> string \<Rightarrow> 'w rewrite_cb \<Rightarrow>
    (BlobStore \<times> 'w \<Rightarrow> (StorageKey \<times> bytes \<times> 32 word) list) \<Rightarrow> bool" where
  "recording env contents opened fd path cb calls \<longleftrightarrow>
     (\<forall>key data checksum st. calls (cb key data checksum st) = calls st @ [(key, data, checksum)] \<and>
        (opened (snd st) fd = Some path \<longrightarrow> opened (snd (cb key data checksum st)) fd = Some path) \<and>
        file_bytes (contents (snd (cb key data checksum st))) path = file_bytes (contents (snd st)) path) \<and>
     (\<forall>s w fd n off. calls (s, snd (sync_read (se_io env) w fd n off)) = calls (s, w))"

lemma gc_walk_step:
  assumes rel: "direct_reads env contents opened takes" "takes 64" and rec: "recording env contents opened fd path cb calls"
    and opn: "opened w fd = Some path" and ok: "ge_ok x"
    and at: "drop off (file_bytes (contents w) path) = ge_image x @ rest" and more: "off < write_off"
  obtains s' w' where "gc_walk env cb fd off write_off (s, w) = gc_walk env cb fd (off + ge_size x) write_off (s', w')"
    "opened w' fd = Some path" "file_bytes (contents w') path = file_bytes (contents w) path"
    "calls (s', w') = calls (s, w) @ [ge_call x]"
proof -
  note G = ge_image_facts [OF ok]
  obtain r1 g1 w1 where r1: "sync_read (se_io env) w fd 64 off = ((r1, g1), w1)" by (metis prod.collapse)
  note R1 = direct_read [OF rel(1) r1]
  have g1: "g1 = take 64 (ge_image x @ rest)" "r1 = 64" using R1(3,4) [OF opn rel(2)] at G(1,2) by (simp_all add: to_int_small)
  have sz: "unat (eh_padded_size (entry_header_of_bytes g1)) = ge_size x" unfolding g1(1) by (rule G(3))
  have at1: "opened w1 fd = Some path" "drop off (file_bytes (contents w1) path) = ge_image x @ rest" using R1(1,2) opn at by simp_all
  obtain r2 g2 w2 where r2: "sync_read (se_io env) w1 fd (ge_size x) off = ((r2, g2), w2)" by (metis prod.collapse)
  note R2 = direct_read [OF rel(1) r2]
  have "4096 dvd ge_size x" using ok unfolding ge_size_def by (intro entry_disk_size_bounds(3)) (simp add: ge_ok_def)
  then have all: "takes (ge_size x)" using rel(1) by (simp add: direct_reads_def)
  have lt: "ge_size x < 2 ^ 31" using ok by (simp add: ge_ok_def)
  have g2: "g2 = ge_image x" "r2 = to_int (ge_size x)" using R2(3,4) [OF at1(1) all] at1(2) G(1) by simp_all
  define st where "st = cb (ge_key x) (ge_data x) (ge_checksum x) (s, w2)"
  have eq: "gc_walk env cb fd off write_off (s, w) = gc_walk env cb fd (off + ge_size x) write_off (fst st, snd st)"
    using more G(2) by (subst gc_walk.simps) (simp add: r1 g1(2) sz r2 g2 G(4-7) Let_def st_def del: gc_walk.simps)
  have same: "opened w2 fd = Some path" "file_bytes (contents w2) path = file_bytes (contents w) path"
    using R1(1,2) R2(1,2) opn by simp_all
  have "calls (s, w2) = calls (s, w)"
    using rec r1 r2 unfolding recording_def by (metis snd_conv)
  then have "calls (fst st, snd st) = calls (s, w) @ [ge_call x]" "opened (snd st) fd = Some path"
    "file_bytes (contents (snd st)) path = file_bytes (contents w) path"
    using rec same unfolding recording_def st_def by (simp_all add: ge_call_def)
  with eq show thesis by (intro that)
qed

lemma gc_walk_visits:
  assumes rel: "direct_reads env contents opened takes" "takes 64" and rec: "recording env contents opened fd path cb calls"
  shows "opened w fd = Some path \<Longrightarrow> list_all ge_ok xs \<Longrightarrow>
    drop off (file_bytes (contents w) path) = concat (map ge_image xs) \<Longrightarrow> write_off = off + length (concat (map ge_image xs)) \<Longrightarrow>
    calls (gc_walk env cb fd off write_off (s, w)) = calls (s, w) @ map ge_call xs"
proof (induction xs arbitrary: off s w)
  case Nil
  then show ?case by (simp add: gc_walk.simps)
next
  case (Cons x xs)
  have ok: "ge_ok x" "list_all ge_ok xs" using Cons.prems(2) by simp_all
  note G = ge_image_facts(1,2) [OF ok(1)]
  have at: "drop off (file_bytes (contents w) path) = ge_image x @ concat (map ge_image xs)" using Cons.prems(3) by simp
  have more: "off < write_off" using Cons.prems(4) G by simp
  obtain s' w' where eq: "gc_walk env cb fd off write_off (s, w) = gc_walk env cb fd (off + ge_size x) write_off (s', w')"
    and w': "opened w' fd = Some path" "file_bytes (contents w') path = file_bytes (contents w) path"
    and calls: "calls (s', w') = calls (s, w) @ [ge_call x]"
    by (rule gc_walk_step [OF rel rec Cons.prems(1) ok(1) at more])
  have "drop (off + ge_size x) (file_bytes (contents w') path) = concat (map ge_image xs)"
    using at G(1) drop_drop [of "ge_size x" off "file_bytes (contents w) path"] unfolding w'(2) by (simp add: add.commute)
  moreover have "write_off = off + ge_size x + length (concat (map ge_image xs))" using Cons.prems(4) G(1) by simp
  ultimately show ?case using Cons.IH [OF w'(1) ok(2), of "off + ge_size x" s'] unfolding eq by (simp add: calls)
qed

section \<open>Compaction\<close>

lemma gc_compact_walks:
  assumes segs: "segs_inv fds s" and g: "(p, g) \<in> set (segments s)" "active_segment s \<noteq> Some p"
  shows "gc_compact_segment env (Some cb) (si_id g) (s, w) =
    gc_drop_segment env (si_id g) (gc_walk env cb (si_fd g) 4096 (si_write_offset g) (s, w))"
proof -
  let ?gs = "filter (\<lambda>(p, g). active_segment s \<noteq> Some p) (segments s)"
  have "distinct (map (si_id \<circ> snd) ?gs)" using segs by (simp add: segs_inv_def distinct_map_filter)
  from find_segment_iff [OF this] g have "find_segment (si_id g) ?gs = Some p" by auto
  moreover have "0 \<le> si_fd g" using segs g(1) by (auto simp: segs_inv_def)
  ultimately show ?thesis using segs_lookup(2) [OF segs g(1)] by (simp add: gc_compact_segment_def Let_def del: gc_walk.simps)
qed

section \<open>A segment to compact\<close>

text \<open>A world that records the calls beside the files.\<close>

type_synonym recorded = "mem_world \<times> (StorageKey \<times> bytes \<times> 32 word) list"

definition record_cb :: "recorded rewrite_cb" where
  "record_cb key data checksum st = (case st of (s, w, calls) \<Rightarrow> (s, w, calls @ [(key, data, checksum)]))"

definition small_entry :: gc_entry where
  "small_entry = \<lparr>ge_key = key_of_bytes [7], ge_data = [1, 2, 3], ge_checksum = 5, ge_sequence = 0, ge_reserved = replicate 10 0\<rparr>"

definition small_segment :: SegmentInfo where
  "small_segment = \<lparr>si_id = 0, si_fd = 3, si_write_offset = 8192, si_entry_count = 1, si_live_count = 0, si_file_size = 0,
     si_path = seg_file default_nvme_store 0\<rparr>"

definition small_store :: BlobStore where
  "small_store = (blob_store_create default_nvme_store)\<lparr>segments := [(0, small_segment)], seg_ptrs := 1, next_segment_id := 1\<rparr>"

definition small_files :: mem_world where
  "small_files = ([(seg_file default_nvme_store 0, replicate 4096 0 @ ge_image small_entry)], [(3, seg_file default_nvme_store 0)], 4)"

lemma small_entry_facts: "ge_ok small_entry" "length (ge_image small_entry) = 4096"
  "ge_call small_entry = (key_of_bytes [7], [1, 2, 3], 5)"
proof -
  have sz: "ge_size small_entry = 4096" by (simp add: ge_size_def small_entry_def entry_disk_size_eq)
  show ok: "ge_ok small_entry" by (simp add: ge_ok_def sz) (simp add: small_entry_def)
  show "length (ge_image small_entry) = 4096" by (simp add: ge_image_facts(1) [OF ok] sz)
qed (simp add: ge_call_def small_entry_def)

lemma small_store_segs: "segs_inv (mem_opened small_files) small_store" "(0, small_segment) \<in> set (segments small_store)"
  "active_segment small_store \<noteq> Some 0"
  by (simp_all add: segs_inv_def small_store_def small_segment_def small_files_def mem_opened_def blob_store_create_def)

lemma record_cb_recording:
  "recording (store_half mem_env) (\<lambda>w. mem_files (fst w)) (\<lambda>w. mem_opened (fst w)) fd path record_cb (\<lambda>st. snd (snd st))"
  by (simp add: recording_def record_cb_def store_half_def at_fst_def split: prod.split)

section \<open>Properties\<close>

text \<open>
  C19. Compaction hands over every entry or none. For a segment that is not the active one and
  whose file, opened for direct I/O, holds a header and a non-empty sequence of entries up to
  the end of what is accounted for: where the device takes a read of the 64 bytes of an entry
  header, the walk calls the rewrite callback once for each entry, in the order of the file,
  with the key, the bytes and the checksum that were written; where it refuses such reads, the
  callback is never called. Either way the segment is removed after the walk.
\<close>

theorem gc_hands_over_every_entry:
  assumes dir: "direct_reads env contents opened takes" and rec: "recording env contents opened (si_fd g) (si_path g) cb calls"
    and segs: "segs_inv (opened w) s" and g: "(p, g) \<in> set (segments s)" "active_segment s \<noteq> Some p"
    and disk: "file_bytes (contents w) (si_path g) = header @ concat (map ge_image xs)" "length header = 4096" "list_all ge_ok xs"
      "xs \<noteq> []" "si_write_offset g = 4096 + length (concat (map ge_image xs))"
  shows "\<exists>st. gc_compact_segment env (Some cb) (si_id g) (s, w) = gc_drop_segment env (si_id g) st \<and>
    calls st = calls (s, w) @ (if takes 64 then map ge_call xs else [])"
proof (cases "takes 64")
  case True
  have "drop 4096 (file_bytes (contents w) (si_path g)) = concat (map ge_image xs)" using disk(1,2) by simp
  from gc_walk_visits [OF dir True rec segs_file(1) [OF segs g(1)] disk(3) this disk(5)]
  show ?thesis unfolding gc_compact_walks [OF segs g] if_P [OF True] by blast
next
  case False
  obtain x ys where xs: "xs = x # ys" using disk(4) by (cases xs) auto
  have "0 < length (ge_image x)" using disk(3) ge_image_facts(1,2) [of x] by (simp add: xs del: length_greater_0_conv)
  then have more: "4096 < si_write_offset g" using disk(5) by (simp add: xs del: length_greater_0_conv)
  obtain r got w' where rd: "sync_read (se_io env) w (si_fd g) 64 4096 = ((r, got), w')" by (metis prod.collapse)
  have "r < 0" using direct_read(5) [OF dir rd segs_file(1) [OF segs g(1)] False] .
  then have "gc_walk env cb (si_fd g) 4096 (si_write_offset g) (s, w) = (s, w')"
    using more rd by (subst gc_walk.simps) simp
  moreover have "calls (s, w') = calls (s, w)" using rec rd unfolding recording_def by (metis snd_conv)
  ultimately show ?thesis using False unfolding gc_compact_walks [OF segs g] by (intro exI [of _ "(s, w')"]) simp
qed

text \<open>The small file system, and one on top of it that refuses reads of other lengths than pages.\<close>

definition page_reads :: "'w store_env \<Rightarrow> 'w store_env" where
  "page_reads env = env\<lparr>se_io := (se_io env)\<lparr>sync_read :=
     (\<lambda>w fd n off. if 4096 dvd n then sync_read (se_io env) w fd n off else ((- 22, []), w))\<rparr>\<rparr>"

lemma page_reads_direct:
  assumes "reliable env contents opened"
  shows "direct_reads (page_reads env) contents opened (\<lambda>n. 4096 dvd n)"
  using reliable_read [OF assms] unfolding direct_reads_def page_reads_def by (auto split: if_splits)

lemma page_reads_recording:
  assumes "recording env contents opened fd path cb calls"
  shows "recording (page_reads env) contents opened fd path cb calls"
  using assms unfolding recording_def page_reads_def by (simp split: if_split)

theorem gc_hands_over_every_entry_witness:
  "(\<exists>st. gc_compact_segment (store_half mem_env) (Some record_cb) 0 (small_store, small_files, []) =
       gc_drop_segment (store_half mem_env) 0 st \<and> snd (snd st) = [(key_of_bytes [7], [1, 2, 3], 5)]) \<and>
   (\<exists>st. gc_compact_segment (page_reads (store_half mem_env)) (Some record_cb) 0 (small_store, small_files, []) =
       gc_drop_segment (page_reads (store_half mem_env)) 0 st \<and> snd (snd st) = [])"
proof -
  have f: "file_bytes (mem_files small_files) (si_path small_segment) = replicate 4096 0 @ concat (map ge_image [small_entry])"
    "si_write_offset small_segment = 4096 + length (concat (map ge_image [small_entry]))"
    using small_entry_facts(2) by (simp_all add: file_bytes_def mem_files_def small_files_def small_segment_def)
  note rel = reliable_half [OF mem_env_reliable]
  have all: "list_all ge_ok [small_entry]" and id: "si_id small_segment = 0"
    using small_entry_facts(1) by (simp_all add: small_segment_def)
  note yes = gc_hands_over_every_entry [OF reliable_direct [OF rel] record_cb_recording, where w = "(small_files, [])",
      OF _ small_store_segs(2,3) _ _ all _ f(2)]
  note no = gc_hands_over_every_entry [OF page_reads_direct [OF rel] page_reads_recording [OF record_cb_recording],
      where w = "(small_files, [])", OF _ small_store_segs(2,3) _ _ all _ f(2)]
  from yes no f(1) small_store_segs(1) small_entry_facts(3) show ?thesis by (simp add: id)
qed



end
