(* ===== verification/Blob_Crash.thy ===== *)
theory Blob_Crash
  imports Blob_Runs
begin

text \<open>
  What a process that dies without closing the store leaves on disk: every acknowledged entry
  is in its file completely or not at all, and reading one that is not there finds nothing.
\<close>

section \<open>Entries that did not reach the disk\<close>

text \<open>No byte of the entry is on disk: the place is beyond the end of the file, or zeros.\<close>

definition unwritten :: "NvmeStoreConfig \<Rightarrow> (string \<rightharpoonup> bytes) \<Rightarrow> BlobLocation \<Rightarrow> bool" where
  "unwritten cfg files loc \<longleftrightarrow> (\<forall>b \<in> set (take (bl_disk_size loc) (drop (bl_offset loc)
     (file_bytes files (seg_file cfg (bl_segment_id loc))))). b = 0)"

lemma of_le_zeros: "\<forall>b \<in> set bs. b = 0 \<Longrightarrow> of_le bs = (0 :: 'a :: len word)"
  by (induction bs) simp_all

lemma blank_header:
  assumes "\<And>b. b \<in> set bs \<Longrightarrow> b = 0"
  shows "eh_blob_size (entry_header_of_bytes bs) = 0"
  using assms by (auto simp: entry_header_of_bytes_def intro!: of_le_zeros dest: in_set_takeD in_set_dropD)

lemma entry_image_not_blank:
  assumes "length reserved = 10" and "length data < 2 ^ 32" and "data \<noteq> []"
  shows "\<exists>b \<in> set (entry_image key data checksum sequence d reserved). b \<noteq> 0"
proof (rule ccontr)
  assume "\<not> ?thesis"
  then have "eh_blob_size (entry_header_of_bytes (entry_image key data checksum sequence d reserved)) = 0"
    by (intro blank_header) blast
  then show False using entry_image_decode(1) [OF assms(1,2), of key checksum sequence d "[]"] assms(3) by simp
qed

section \<open>Reading them\<close>

lemma no_pending:
  assumes "\<forall>p \<in> set (pending_blocks s). wb_pos (all_blocks s ! p) = 0"
  shows "find_in_pending_blocks s loc = None"
proof -
  have "\<not> in_block loc (all_blocks s ! p)" if "p \<in> set (pending_blocks s)" for p
    using assms that le_less_trans [of "bl_offset loc" "bl_offset loc"] by (auto simp: in_block_def wrap64_def)
  then show ?thesis
    using find_block_cases [where loc = loc and blocks = "all_blocks s" and ps = "pending_blocks s"]
    by (auto simp: find_in_pending_blocks_def split: option.splits)
qed

lemma read_attempt_unwritten:
  assumes rel: "reliable env contents opened" and segs: "segs_inv (opened w) s"
    and pend: "\<forall>p \<in> set (pending_blocks s). wb_pos (all_blocks s ! p) = 0"
    and un: "unwritten (bs_config s) (contents w) loc" and att: "read_attempt env loc n first s (s, w) = (r, w')"
  shows "r = Inl () \<or> r = Inr (kNotFound, [])"
proof (cases "find_segment (bl_segment_id loc) (segments s)")
  case None
  then show ?thesis using att no_pending [OF pend, of loc] by (auto simp: read_attempt_def)
next
  case (Some p)
  then obtain g where g: "(p, g) \<in> set (segments s)" "si_id g = bl_segment_id loc"
    using find_segment_iff [of "segments s"] segs by (auto simp: segs_inv_def)
  obtain ret got v where rd: "sync_read (se_io env) w (si_fd g) (bl_disk_size loc) (bl_offset loc) = ((ret, got), v)"
    by (metis prod_cases3 prod.collapse)
  have "got = take (bl_disk_size loc) (drop (bl_offset loc) (file_bytes (contents w) (seg_file (bs_config s) (bl_segment_id loc))))"
    using reliable_read(4) [OF rel rd segs_file(1) [OF segs g(1)]] segs_file(2) [OF segs g(1)] g(2) by simp
  then have "eh_blob_size (entry_header_of_bytes (got @ replicate (bl_disk_size loc - length got) 0)) = 0"
    using un by (intro blank_header) (auto simp: unwritten_def)
  then show ?thesis
    using att Some no_pending [OF pend, of loc] segs_lookup(2) [OF segs g(1)] segs g(1) rd reliable_alloc [OF rel]
    by (auto simp: read_attempt_def Let_def segs_inv_def split: if_splits)
qed

lemma blob_read_unwritten:
  assumes rel: "reliable env contents opened" and segs: "segs_inv (opened w) s"
    and pend: "\<forall>p \<in> set (pending_blocks s). wb_pos (all_blocks s ! p) = 0" and un: "unwritten (bs_config s) (contents w) loc"
  shows "fst (blob_read env loc n (s, w)) = (kNotFound, [])"
proof -
  obtain r w1 where r: "read_attempt env loc n True s (s, w) = (r, w1)" by fastforce
  have w1: "contents w1 = contents w \<and> opened w1 = opened w"
    using r reliable_read(1,2) [OF rel] by (auto simp: read_attempt_def Let_def split: option.splits if_splits prod.splits)
  obtain r' w2 where r': "read_attempt env loc n False s (s, w1) = (r', w2)" by fastforce
  show ?thesis
    using read_attempt_unwritten [OF rel segs pend un r] read_attempt_unwritten [OF rel _ pend _ r'] w1 segs un r r'
    by (auto simp: blob_read_def)
qed

section \<open>All or nothing\<close>

lemma blank_unwritten:
  assumes "segs_inv fds s" and "blank files s (sid, off, img)" and "bl_segment_id loc = sid" "bl_offset loc = off" "bl_disk_size loc = length img"
  shows "unwritten (bs_config s) files loc"
proof -
  from assms(2) obtain p g where g: "(p, g) \<in> set (segments s)" "si_id g = sid"
    "\<forall>i < length (file_bytes files (si_path g)). off \<le> i \<and> i < off + length img \<longrightarrow> file_bytes files (si_path g) ! i = 0"
    by (auto simp: blank_def)
  then show ?thesis using assms(3-5) segs_file(2) [OF assms(1) g(1)] by (auto simp: unwritten_def in_set_conv_nth)
qed

text \<open>The blobs whose entries are on disk are saved; of the others nothing is there.\<close>

lemma crash_splits:
  assumes inv: "store_inv cap waiting fds files E s" and log: "logged E (loc, data)"
  shows "if unwritten (bs_config s) files loc then \<not> logged {e \<in> E. on_disk files s e} (loc, data)
    else logged {e \<in> E. on_disk files s e} (loc, data)"
proof -
  note D = store_invD [OF inv]
  have iff: "on_disk files s (sid, off, img) \<longleftrightarrow> \<not> unwritten (bs_config s) files loc"
    if e: "(sid, off, img) \<in> E" and loc: "loc = make_location sid off (length data) (entry_disk_size (length data))"
      and img: "img = entry_image key data checksum sequence (entry_disk_size (length data)) reserved" "length reserved = 10"
      and data: "data \<noteq> []" "length data \<le> UINT32_MAX - 64" "entry_disk_size (length data) < 2 ^ 32"
    for sid off img key checksum sequence reserved
  proof -
    let ?d = "entry_disk_size (length data)"
    have "length data + 4160 \<le> 2 ^ 64" using data(2) by simp
    then have li: "length img = ?d" unfolding img(1) using img(2) by (intro length_entry_image entry_disk_size_bounds(1))
    have l: "bl_segment_id loc = sid" "bl_offset loc = off" "bl_disk_size loc = length img"
      using data(3) by (simp_all add: loc make_location_def wrap32_id li)
    have "\<not> unwritten (bs_config s) files loc" if od: "on_disk files s (sid, off, img)"
    proof -
      from od obtain p g where g: "(p, g) \<in> set (segments s)" "si_id g = sid"
        "take (length img) (drop off (file_bytes files (si_path g))) = img" by (auto simp: on_disk_def)
      have "length data < 2 ^ 32" using data(2) by simp
      from entry_image_not_blank [OF img(2) this data(1), of key checksum sequence ?d] show ?thesis
        using g segs_file(2) [OF D(2) g(1)] by (auto simp: unwritten_def l img(1) [symmetric])
    qed
    then show ?thesis using log_invD(4) [OF D(5) e] blank_unwritten [OF D(2) _ l] by blast
  qed
  show ?thesis
  proof (cases "unwritten (bs_config s) files loc")
    case True
    then show ?thesis using iff by (fastforce simp: logged_def)
  next
    case False
    then show ?thesis using log iff unfolding logged_def by fastforce
  qed
qed

end
