(* ===== verification/Engine_Crash.thy ===== *)
theory Engine_Crash
  imports Engine_Life Blob_Crash
begin

text \<open>
  A process that dies without closing the engine. The next one finds the last checkpoint and
  the blocks that were flushed, and serves the blobs of the moment of that checkpoint as far
  as they had reached the disk.
\<close>

section \<open>The checkpoint file between saves\<close>

abbreviation checkpoint_of :: "Config \<Rightarrow> file_system \<Rightarrow> bytes option" where
  "checkpoint_of cfg fs \<equiv> fs (checkpoint_dir cfg @ ''/index.checkpoint'')"

lemma evict_one_files: "evict_one V k e = Some e' \<Longrightarrow> eg_files e' = eg_files e"
  by (auto simp: evict_one_def demote_def Let_def split: option.splits if_splits prod.splits write_outcome.splits Status.splits)

lemma engine_put_files:
  assumes "engine_put V k blob opts e = Some (s, e')"
  shows "eg_files e' = eg_files e"
proof -
  have commit: "eg_files e2 = eg_files e1" if c: "put_commit V k x e1 = Some e2" for x e1 e2
  proof -
    obtain e3 where ev: "evict_if_needed V (e1\<lparr>eg_index := upsert (en_ck V) k x (eg_index e1),
        eg_checkpoint := mark_dirty (eg_checkpoint e1)\<rparr>) = Some e3" and e2: "eg_files e2 = eg_files e3"
      using c by (auto simp: put_commit_def)
    have "eg_files e3 = eg_files e1"
      by (rule evict_if_needed_keeps [where P = "\<lambda>e. eg_files e = eg_files e1", OF _ _ _ ev]) (simp_all add: evict_one_files)
    then show ?thesis by (simp add: e2)
  qed
  have t1: "eg_files e2 = eg_files e1" if "put_t1 V k blob opts x e1 = (b, y, e2)" for x y b e1 e2
    using that by (auto simp: put_t1_def split: option.splits prod.splits if_splits)
  have t2: "eg_files e2 = eg_files e1" if "put_t2 V k blob opts x e1 = Some (r, e2)" for x r e1 e2
    using that by (auto simp: put_t2_def log_at_def split: option.splits prod.splits write_outcome.splits Status.splits)
  let ?e = "e\<lparr>eg_admission := record_evaluation (evaluate (eg_admission e) opts (storage_utilization e)) (eg_admission e)\<rparr>"
  obtain b x e1 where p1: "put_t1 V k blob opts (new_entry (en_steady_us V (eg_world ?e)) opts blob) ?e = (b, x, e1)"
    by (metis prod_cases3)
  show ?thesis
    using assms p1 t1 [OF p1]
    by (auto simp: engine_put_def Let_def log_at_def split: if_splits bool.splits option.splits sum.splits dest!: commit t2)
qed

text \<open>A step that leaves the dirty flag up leaves the file alone.\<close>

lemma step_keeps_checkpoint:
  assumes "engine_step V cap allowed x y" and "ckpt_ok V cfg (fst x)" and "dirty (eg_checkpoint (fst y))"
  shows "checkpoint_of cfg (eg_files (fst y)) = checkpoint_of cfg (eg_files (fst x))"
  using assms(1)
proof cases
  case (put k blob opts e s e' kv)
  then show ?thesis using engine_put_files [OF put(3)] by simp
next
  case (get k n e r e' kv)
  have "eg_files (snd (engine_get V k n e)) = eg_files e"
    by (simp add: engine_get_def get_entry_def get_finish_def Let_def log_at_def split: option.split prod.split)
  with get show ?thesis by simp
next
  case (del k e s e' kv)
  have "eg_files (snd (engine_del V k e)) = eg_files e" by (simp add: engine_del_def del_entry_def Let_def split: option.split)
  with del show ?thesis by simp
next
  case (checkpoint e r c fs kv)
  have path: "checkpoint_path (eg_checkpoint e) = checkpoint_dir cfg @ ''/index.checkpoint''"
    unfolding checkpoint_path_def using ckpt_okD(4) [OF assms(2)] checkpoint(1) by simp
  have "fs (checkpoint_path (eg_checkpoint e)) = eg_files e (checkpoint_path (eg_checkpoint e))"
  proof (cases "running (eg_checkpoint e) \<and> dirty (eg_checkpoint e)")
    case False
    then show ?thesis using checkpoint(3) by (auto simp: periodic_tick_def split: if_splits)
  next
    case True
    obtain r' where s: "save_snapshot (en_xxh32 V) (en_faults V (eg_world e)) (snapshot (en_ck V) (eg_index e))
        (eg_checkpoint e, eg_files e) = (r', c, fs)"
      using checkpoint(3) True by (auto simp: periodic_tick_def save_def split: prod.splits sum.splits)
    from s show ?thesis
    proof (cases rule: save_cases)
      case saved
      then show ?thesis using assms(3) checkpoint(2) by simp
    next
      case (failed t)
      then show ?thesis by (simp add: checkpoint_path_def checkpoint_tmp_path_def)
    qed simp
  qed
  then show ?thesis using checkpoint unfolding path by simp
qed simp_all

section \<open>What the file records\<close>

text \<open>
  At every moment of a life the checkpoint file is the image of the T2 part of the index at an
  earlier moment, the present one when the dirty flag is down, and every blob which that part
  refers to is still readable in the store.
\<close>

definition recorded :: "('m, 'w) engine_env \<Rightarrow> ('w \<Rightarrow> string \<rightharpoonup> bytes) \<Rightarrow> ('w \<Rightarrow> int \<rightharpoonup> string) \<Rightarrow> Config \<Rightarrow> (PutOpts \<Rightarrow> bool) \<Rightarrow>
    ('m, 'w) AttentionDBEngine \<times> (StorageKey \<rightharpoonup> bytes) \<Rightarrow> ('m, 'w) AttentionDBEngine \<times> (StorageKey \<rightharpoonup> bytes) \<Rightarrow>
    ('m, 'w) AttentionDBEngine \<times> (StorageKey \<rightharpoonup> bytes) \<Rightarrow> bool" where
  "recorded V contents opened cfg allowed x0 c x \<longleftrightarrow> ckpt_ok V cfg (fst x) \<and> eg_opened (fst x) \<and>
     (dirty (eg_checkpoint (fst x)) \<or> c = x) \<and>
     (engine_life V cfg allowed)\<^sup>*\<^sup>* x0 c \<and> (engine_life V cfg allowed)\<^sup>*\<^sup>* c x \<and>
     image_of V (max kMaxEntries (index_size (en_ck V) (eg_index (fst c)))) (t2_part (en_ck V) (eg_index (fst c)))
       (checkpoint_of cfg (eg_files (fst x))) \<and>
     (\<exists>A. cache_inv V contents opened (blob_limit cfg) A (snd x) (fst x) \<and>
        (\<forall>k y. t2_part (en_ck V) (eg_index (fst c)) k = Some y \<longrightarrow>
           ie_tier y = tier_code kT2Nvme \<and> serves_t2 A (snd c) (fst x) k y))"

lemma recorded_now:
  assumes "alive V contents opened cfg x" and "\<not> dirty (eg_checkpoint (fst x))" and "(engine_life V cfg allowed)\<^sup>*\<^sup>* x0 x"
  shows "recorded V contents opened cfg allowed x0 x x"
proof -
  from assms(1) obtain A where inv: "cache_inv V contents opened (blob_limit cfg) A (snd x) (fst x)" and op: "eg_opened (fst x)"
    and ck: "ckpt_ok V cfg (fst x)" by (auto simp: alive_def cache_ok_def)
  have "image_of V (max kMaxEntries (index_size (en_ck V) (eg_index (fst x)))) (t2_part (en_ck V) (eg_index (fst x)))
      (checkpoint_of cfg (eg_files (fst x)))"
    using ckpt_okD(6) [OF ck] assms(2) unfolding checkpoint_path_def ckpt_okD(4) [OF ck] by simp
  moreover have "ie_tier y = tier_code kT2Nvme \<and> serves_t2 A (snd x) (fst x) k y"
    if "t2_part (en_ck V) (eg_index (fst x)) k = Some y" for k y
    using that t2_part_Some [OF inv] cache_invD(6) [OF inv, of k y] by (auto simp: serves_def)
  ultimately show ?thesis using inv op ck assms(3) unfolding recorded_def by blast
qed

lemma recorded_step:
  assumes rec: "recorded V contents opened cfg allowed x0 c x" and step: "engine_step V (blob_limit cfg) allowed x y"
  shows "\<exists>c. recorded V contents opened cfg allowed x0 c y"
proof -
  from rec obtain A where inv: "cache_inv V contents opened (blob_limit cfg) A (snd x) (fst x)" and op: "eg_opened (fst x)"
    and ck: "ckpt_ok V cfg (fst x)" and run: "(engine_life V cfg allowed)\<^sup>*\<^sup>* x0 c" "(engine_life V cfg allowed)\<^sup>*\<^sup>* c x"
    and img: "image_of V (max kMaxEntries (index_size (en_ck V) (eg_index (fst c)))) (t2_part (en_ck V) (eg_index (fst c)))
       (checkpoint_of cfg (eg_files (fst x)))"
    and A: "\<And>k y. t2_part (en_ck V) (eg_index (fst c)) k = Some y \<Longrightarrow> ie_tier y = tier_code kT2Nvme \<and> serves_t2 A (snd c) (fst x) k y"
    unfolding recorded_def by blast
  have run': "(engine_life V cfg allowed)\<^sup>*\<^sup>* c y" using run(2) engine_life.operate [OF step] by (rule rtranclp.rtrancl_into_rtrancl)
  have ck': "ckpt_ok V cfg (fst y)" using step ck by (rule engine_step_ckpt)
  from engine_step_inv [OF step inv op] obtain A' where op': "eg_opened (fst y)" and sub: "A \<subseteq> A'"
    and inv': "cache_inv V contents opened (blob_limit cfg) A' (snd y) (fst y)" by blast
  show ?thesis
  proof (cases "dirty (eg_checkpoint (fst y))")
    case False
    have "alive V contents opened cfg y" using inv' op' ck' by (auto simp: alive_def cache_ok_def)
    moreover have "(engine_life V cfg allowed)\<^sup>*\<^sup>* x0 y" using run(1) run' by (rule rtranclp_trans)
    ultimately show ?thesis using recorded_now False by blast
  next
    case True
    have "layout (fst y) = layout (fst x)" using ckpt_okD(2) [OF ck] ckpt_okD(2) [OF ck'] by simp
    then have "t2_store (fst y) = None \<longleftrightarrow> t2_store (fst x) = None" unfolding layout_def by (metis map_option_is_None prod.inject)
    then have "ie_tier z = tier_code kT2Nvme \<and> serves_t2 A' (snd c) (fst y) k z" if "t2_part (en_ck V) (eg_index (fst c)) k = Some z" for k z
      using A [OF that] sub by (auto simp: serves_t2_def)
    then show ?thesis
      using ck' op' True run(1) run' img inv' step_keeps_checkpoint [OF step ck True] unfolding recorded_def by metis
  qed
qed

lemma engine_open_clean:
  assumes "engine_open V cfg (engine_create V w mem fs) = (Ret kOk, e)"
  shows "\<not> dirty (eg_checkpoint e)"
proof -
  from engine_open_rest [OF assms] obtain e1 where "e = open_rest V e1" by blast
  from open_rest_parts [OF this] show ?thesis by (auto simp: start_periodic_def checkpoint_create_def)
qed

lemma life_recorded:
  assumes env: "environment_ok V contents opened owned" and first: "first_start V contents cfg w0 fs"
    and op: "engine_open V cfg (engine_create V w0 mem0 fs) = (Ret kOk, e0)"
    and run: "(engine_life V cfg allowed)\<^sup>*\<^sup>* (e0, Map.empty) x"
  shows "\<exists>c. recorded V contents opened cfg allowed (e0, Map.empty) c x"
  using run
proof (induction rule: rtranclp_induct)
  case base
  have "recorded V contents opened cfg allowed (e0, Map.empty) (e0, Map.empty) (e0, Map.empty)"
    by (rule recorded_now [OF life_start [OF env first op]]) (simp_all add: engine_open_clean [OF op])
  then show ?case ..
next
  case (step x y)
  from step(2) show ?case
  proof cases
    case operate
    with step.IH show ?thesis using recorded_step by blast
  next
    case (restart e w mem fs' mem' e' kv)
    have run: "(engine_life V cfg allowed)\<^sup>*\<^sup>* (e0, Map.empty) y" using step(1,2) by (rule rtranclp.rtrancl_into_rtrancl)
    then have "alive V contents opened cfg y" using life_from_start [OF env first op] by (cases y) simp
    then show ?thesis using recorded_now run engine_open_clean [OF restart(4)] restart(2) by fastforce
  qed
qed

section \<open>The next start\<close>

text \<open>What the dead process left of the blobs it had acknowledged.\<close>

lemma crash_leaves:
  assumes ok: "backend_ok env contents opened cap A (s, w)" and ids: "next_segment_id s < UINT32_MAX"
  shows "left_behind (bs_config s) (next_segment_id s) {a \<in> A. \<not> unwritten (bs_config s) (contents w) (fst a)} (contents w)"
    and "(loc, data) \<in> A \<Longrightarrow> bl_segment_id loc < 2 ^ 32 \<and> contents w (seg_file (bs_config s) (bl_segment_id loc)) \<noteq> None"
proof -
  from ok obtain E where inv: "store_inv cap False (opened w) (contents w) E s" and A: "\<forall>a \<in> A. logged E a"
    by (auto simp: backend_ok_def)
  note D = store_invD [OF inv]
  let ?E = "{e \<in> E. on_disk (contents w) s e}"
  have "saved (bs_config s) (contents w) e" if "e \<in> ?E" for e
    using on_disk_saved [OF D(2)] log_invD(1) [OF D(5)] that by blast
  moreover have "logged ?E a" if "a \<in> A" "\<not> unwritten (bs_config s) (contents w) (fst a)" for a
    using crash_splits [OF inv, of "fst a" "snd a"] A that by simp
  ultimately show "left_behind (bs_config s) (next_segment_id s) {a \<in> A. \<not> unwritten (bs_config s) (contents w) (fst a)} (contents w)"
    unfolding left_behind_def using ids D(6) by (intro conjI exI [of _ ?E]) (auto simp: disk_inv_def)
  show "bl_segment_id loc < 2 ^ 32 \<and> contents w (seg_file (bs_config s) (bl_segment_id loc)) \<noteq> None" if "(loc, data) \<in> A"
  proof -
    from A that obtain sid off img where "(sid, off, img) \<in> E" and loc: "bl_segment_id loc = sid"
      by (auto simp: logged_def make_location_def)
    from log_invD(1) [OF D(5) this(1)] obtain p g where g: "(p, g) \<in> set (segments s)" "si_id g = sid" by (auto simp: below_end_def)
    have "contents w (si_path g) \<noteq> None" using D(6) g(1) by (auto simp: disk_inv_def)
    then show ?thesis using segs_file(2,3) [OF D(2) g(1)] g(2) loc by simp
  qed
qed

lemma unwritten_cong:
  "file_bytes files (seg_file cfg (bl_segment_id loc)) = file_bytes files' (seg_file cfg (bl_segment_id loc)) \<Longrightarrow>
     unwritten cfg files loc = unwritten cfg files' loc"
  by (simp add: unwritten_def)

text \<open>Reading the store of the next process.\<close>

lemma recovered_read:
  assumes ok: "backend_ok env contents opened cap {a \<in> A. \<not> unwritten cfg old (fst a)} (s, w)"
    and fresh: "fresh_store cfg old (contents w) s" "bs_config s = cfg"
    and loc: "(loc, data) \<in> A" "bl_segment_id loc < 2 ^ 32" "old (seg_file cfg (bl_segment_id loc)) \<noteq> None"
  shows "fst (blob_read env loc n (s, w)) =
    (if unwritten cfg old loc then (kNotFound, []) else if length data \<le> n then (kOk, data) else (kBufferTooSmall, []))"
proof (cases "unwritten cfg old loc")
  case True
  have "file_bytes (contents w) (seg_file cfg (bl_segment_id loc)) = file_bytes old (seg_file cfg (bl_segment_id loc))"
    using fresh(1) loc(2,3) by (simp add: fresh_store_def)
  from unwritten_cong [OF this] True have "unwritten (bs_config s) (contents w) loc" by (simp add: fresh(2))
  with ok fresh(1) True show ?thesis by (auto simp: backend_ok_def store_inv_def fresh_store_def intro: blob_read_unwritten)
next
  case False
  with loc(1) have "(loc, data) \<in> {a \<in> A. \<not> unwritten cfg old (fst a)}" by simp
  from t2.fetch_ok [OF ok this, of n] False show ?thesis by (simp add: fetch_blob_def split: prod.splits)
qed

text \<open>When no block holds data, every acknowledged blob is on disk.\<close>

lemma flushed_written:
  assumes ok: "backend_ok env contents opened cap A (s, w)" and idle: "\<forall>p \<in> set (pending_blocks s). wb_pos (all_blocks s ! p) = 0"
    and loc: "(loc, data) \<in> A"
  shows "\<not> unwritten (bs_config s) (contents w) loc"
proof -
  from ok loc obtain E where inv: "store_inv cap False (opened w) (contents w) E s" and E: "logged E (loc, data)"
    by (auto simp: backend_ok_def)
  note L = log_invD [OF store_invD(5) [OF inv]]
  have "on_disk (contents w) s e" if "e \<in> E" for e
    using L(3) [OF that] covers_nonempty [OF L(1) [OF that]] idle held_pending by fastforce
  then have "{e \<in> E. on_disk (contents w) s e} = E" by blast
  with crash_splits [OF inv E] E show ?thesis by (simp split: if_splits)
qed

text \<open>A get of a blob in T2 is a read of the store.\<close>

lemma get_t2:
  assumes "eg_opened e" and "look V e k = Some x" and "ie_tier x = tier_code kT2Nvme" and "t2_store e = Some s"
  shows "fst (engine_get V k n e) = fst (blob_read (en_store V) (entry_location x) n (s, eg_world e))"
  using assms by (simp add: engine_get_def get_entry_def Let_def split: prod.split)

text \<open>The answers of the next process, given the T2 part \<open>p\<close> of the checkpoint and the blobs it stood for.\<close>

definition recovered_answer :: "NvmeStoreConfig \<Rightarrow> (string \<rightharpoonup> bytes) \<Rightarrow> (StorageKey \<rightharpoonup> IndexEntry) \<Rightarrow> (StorageKey \<rightharpoonup> bytes) \<Rightarrow>
    StorageKey \<Rightarrow> nat \<Rightarrow> Status \<times> bytes" where
  "recovered_answer cfg files p kv k n = (case p k of None \<Rightarrow> (kNotFound, [])
     | Some x \<Rightarrow>
         if unwritten cfg files (entry_location x) then (kNotFound, [])
         else if length (the (kv k)) \<le> n then (kOk, the (kv k)) else (kBufferTooSmall, []))"

lemma recovered_get:
  assumes env: "environment_ok V contents opened owned" and set: "settings_ok V cfg" and ck: "ckpt_ok V cfg e"
    and inv: "cache_inv V contents opened (blob_limit cfg) A kv e" and ids: "ids_used e < UINT32_MAX"
    and p: "\<And>k x. p k = Some x \<Longrightarrow> ie_tier x = tier_code kT2Nvme \<and> serves_t2 A kvc e k x"
    and dead: "contents w = contents (eg_world e)" and op: "engine_open V cfg (engine_create V w mem fs) = (Ret kOk, e')"
    and find: "index_find (en_ck V) (eg_index e') = p"
  shows "fst (engine_get V k n e') = recovered_answer (cfg_nvme_store cfg) (contents w) p kvc k n"
proof -
  let ?c = "cfg_nvme_store cfg"
  let ?A = "{a \<in> A. \<not> unwritten ?c (contents w) (fst a)}"
  have lay: "map_option bs_config (t2_store e) = (if nv_enabled ?c then Some ?c else None)"
    using ckpt_okD(2) [OF ck] by (simp add: layout_def planned_def)
  have crash: "next_segment_id s = ids_used e \<and> bs_config s = ?c \<and> nv_enabled ?c" if "t2_store e = Some s" for s
    using that lay by (auto simp: ids_used_def split: if_splits)
  have left: "nv_enabled ?c \<longrightarrow> left_behind ?c (ids_used e) ?A (contents w)"
    using crash lay crash_leaves(1) [OF cache_invD(5) [OF inv]] ids dead by (cases "t2_store e") auto
  note P = engine_open_parts [OF env set left op]
  show ?thesis
  proof (cases "p k")
    case None
    then show ?thesis using P find by (simp add: engine_get_def log_at_def recovered_answer_def)
  next
    case (Some x)
    from p [OF Some] obtain s data where x: "ie_tier x = tier_code kT2Nvme" and s: "t2_store e = Some s"
      and data: "kvc k = Some data" "(entry_location x, data) \<in> A" by (auto simp: serves_t2_def)
    from P crash [OF s] obtain s' where s': "t2_store e' = Some s'" "fresh_store ?c (contents w) (contents (eg_world e')) s'" "bs_config s' = ?c"
      and ok: "backend_ok (en_store V) contents opened (blob_limit cfg) ?A (s', eg_world e')" and eo': "eg_opened e'"
      by (auto simp: parts_ok_def)
    have "fst (engine_get V k n e') = fst (blob_read (en_store V) (entry_location x) n (s', eg_world e'))"
      using eo' _ x s'(1) by (rule get_t2) (simp add: find Some)
    moreover have "bl_segment_id (entry_location x) < 2 ^ 32 \<and> contents w (seg_file ?c (bl_segment_id (entry_location x))) \<noteq> None"
      using crash_leaves(2) [OF cache_invD(5) [OF inv s] _ data(2)] crash [OF s] ids dead by simp
    ultimately show ?thesis
      using recovered_read [OF ok s'(2,3) data(2)] Some data(1) by (simp add: recovered_answer_def)
  qed
qed

section \<open>Properties\<close>

text \<open>
  C5. Recovery from a crash. When the process dies at any moment of a life, an engine opened
  on what is on disk answers every get from one earlier moment of that life, that of the last
  checkpoint, which is the moment of the crash if nothing has changed since: a key that was in
  T2 then gives its blob of then when the block with the blob has been flushed, and is not
  found when it has not; a key that was not in T2 is not found.
\<close>

theorem crash_recovers_checkpoint:
  assumes env: "environment_ok V contents opened owned" and first: "first_start V contents cfg w0 fs0"
    and op0: "engine_open V cfg (engine_create V w0 mem0 fs0) = (Ret kOk, e0)"
    and run: "(engine_life V cfg allowed)\<^sup>*\<^sup>* (e0, Map.empty) (e, kv)"
    and io: "disk_healthy V" and ids: "ids_used e < UINT32_MAX"
    and dead: "contents w = contents (eg_world e)"
      "fs (checkpoint_dir cfg @ ''/index.checkpoint'') = eg_files e (checkpoint_dir cfg @ ''/index.checkpoint'')"
    and op: "engine_open V cfg (engine_create V w mem fs) = (Ret kOk, e')"
  shows "\<exists>ec kvc. (engine_life V cfg allowed)\<^sup>*\<^sup>* (e0, Map.empty) (ec, kvc) \<and> (engine_life V cfg allowed)\<^sup>*\<^sup>* (ec, kvc) (e, kv) \<and>
    (dirty (eg_checkpoint e) \<or> (ec, kvc) = (e, kv)) \<and>
    (index_size (en_ck V) (eg_index ec) \<le> kMaxEntries \<longrightarrow> (\<forall>k n. fst (engine_get V k n e') =
       recovered_answer (cfg_nvme_store cfg) (contents w) (t2_part (en_ck V) (eg_index ec)) kvc k n))"
proof -
  from life_recorded [OF env first op0 run] obtain ec kvc where
    "recorded V contents opened cfg allowed (e0, Map.empty) (ec, kvc) (e, kv)" by force
  then obtain A where ck: "ckpt_ok V cfg e" and now: "dirty (eg_checkpoint e) \<or> (ec, kvc) = (e, kv)"
    and runs: "(engine_life V cfg allowed)\<^sup>*\<^sup>* (e0, Map.empty) (ec, kvc)" "(engine_life V cfg allowed)\<^sup>*\<^sup>* (ec, kvc) (e, kv)"
    and img: "image_of V (max kMaxEntries (index_size (en_ck V) (eg_index ec))) (t2_part (en_ck V) (eg_index ec))
      (checkpoint_of cfg (eg_files e))"
    and inv: "cache_inv V contents opened (blob_limit cfg) A kv e"
    and A: "\<And>k y. t2_part (en_ck V) (eg_index ec) k = Some y \<Longrightarrow> ie_tier y = tier_code kT2Nvme \<and> serves_t2 A kvc e k y"
    unfolding recorded_def by auto
  have set: "settings_ok V cfg" using first by (simp add: first_start_def)
  have "index_find (en_ck V) (eg_index e') = t2_part (en_ck V) (eg_index ec)"
    if few: "index_size (en_ck V) (eg_index ec) \<le> kMaxEntries"
    using img few io dead(2) by (intro reopened_index [OF environment_okD(1) [OF env] _ _ op]) (simp_all add: max_absorb1)
  from recovered_get [OF env set ck inv ids A dead(1) op this] runs now show ?thesis by blast
qed

text \<open>A blob that an orderly restart has flushed and recorded survives the crash of the process after it.\<close>

theorem crash_recovers_checkpoint_witness:
  "\<exists>e w mem fs e1 e2. engine_put demo_env demo_key [1, 2, 3] demo_opts nvme_engine = Some (kOk, e) \<and>
     engine_delete demo_env e = Some (w, mem, fs) \<and>
     engine_open demo_env nvme_config (engine_create demo_env w (\<lambda>_. 0) fs) = (Ret kOk, e1) \<and>
     engine_open demo_env nvme_config (engine_create demo_env (eg_world e1) (\<lambda>_. 0) (eg_files e1)) = (Ret kOk, e2) \<and>
     fst (engine_get demo_env demo_key 3 e2) = (kOk, [1, 2, 3])"
proof (rule nvme_restart)
  fix e w mem fs e1
  let ?kv = "[demo_key \<mapsto> [1, 2, 3]]" and ?c = "cfg_nvme_store nvme_config"
  assume put: "engine_put demo_env demo_key [1, 2, 3] demo_opts nvme_engine = Some (kOk, e)"
    and del: "engine_delete demo_env e = Some (w, mem, fs)"
    and op1: "engine_open demo_env nvme_config (engine_create demo_env w (\<lambda>_. 0) fs) = (Ret kOk, e1)"
    and run: "(engine_life demo_env nvme_config (demotable (cfg_admission nvme_config)))\<^sup>*\<^sup>* (nvme_engine, Map.empty) (e1, ?kv)"
    and dom: "dom (index_find (en_ck demo_env) (eg_index e1)) = {demo_key}" and three: "ids_used e1 \<le> 3"
    and fresh: "\<And>s. t2_store e1 = Some s \<Longrightarrow> fresh_store ?c (demo_files w) (demo_files (eg_world e1)) s"
  have ids: "ids_used e1 < UINT32_MAX" using three by simp
  have al: "alive demo_env demo_files demo_fds nvme_config (e1, ?kv)" using run by (rule life_from_start [OF demo_env_ok nvme_first nvme_open])
  then obtain A where inv: "cache_inv demo_env demo_files demo_fds (blob_limit nvme_config) A ?kv e1"
    and ck: "ckpt_ok demo_env nvme_config e1" by (rule aliveE)
  have t2: "t2_part (en_ck demo_env) (eg_index e1) = index_find (en_ck demo_env) (eg_index e1)"
    using al nvme_config_facts(3) by (rule t2_part_no_dram)
  then obtain x where x: "t2_part (en_ck demo_env) (eg_index e1) demo_key = Some x" using dom by auto
  obtain s where s: "t2_store e1 = Some s" "bs_config s = ?c"
    using ckpt_okD(2) [OF ck] nvme_config_facts(4) by (auto simp: layout_def planned_def)
  have "(entry_location x, [1, 2, 3]) \<in> A" using t2_part_Some [OF inv] cache_invD(6) [OF inv, of demo_key x] x by (auto simp: serves_def serves_t2_def)
  with flushed_written [OF cache_invD(5) [OF inv s(1)]] fresh [OF s(1)] s(2)
  have wr: "\<not> unwritten ?c (demo_files (eg_world e1)) (entry_location x)" by (auto simp: fresh_store_def)
  have set: "settings_ok demo_env nvme_config" using nvme_first by (simp add: first_start_def)
  have "nv_enabled ?c \<longrightarrow> left_behind ?c (ids_used e1) {a \<in> A. \<not> unwritten ?c (demo_files (eg_world e1)) (fst a)} (demo_files (eg_world e1))"
    using crash_leaves(1) [OF cache_invD(5) [OF inv s(1)]] s ids by (simp add: ids_used_def)
  from open_no_dram [OF demo_env_ok set nvme_config_facts(3) this]
  obtain e2 where op2: "engine_open demo_env nvme_config (engine_create demo_env (eg_world e1) (\<lambda>_. 0) (eg_files e1)) = (Ret kOk, e2)" .
  have few: "index_size (en_ck demo_env) (eg_index e1) \<le> kMaxEntries"
    by (simp add: index_size_card [OF environment_okD(1) [OF demo_env_ok]] dom)
  from crash_recovers_checkpoint [OF demo_env_ok nvme_first nvme_open run demo_disk ids refl refl op2] engine_open_clean [OF op1] few
  have "fst (engine_get demo_env demo_key 3 e2) =
      recovered_answer ?c (demo_files (eg_world e1)) (t2_part (en_ck demo_env) (eg_index e1)) ?kv demo_key 3" by blast
  then have "fst (engine_get demo_env demo_key 3 e2) = (kOk, [1, 2, 3])" using x wr by (simp add: recovered_answer_def)
  with put del op1 op2 show ?thesis by blast
qed

end
