(* ===== verification/Engine_Limits.thy ===== *)
theory Engine_Limits
  imports Engine_Start
begin

text \<open>
  The DRAM tier over time: what eviction achieves, and the slots that no operation gives back.
\<close>

section \<open>Head room\<close>

lemma evict_None: "evict s = (None, s') \<Longrightarrow> probationary_list s' = [] \<and> protected_list s' = []"
  by (auto simp: evict_def Let_def find_best_victim_None split: option.splits)

lemma evict_if_needed_headroom:
  assumes "evict_if_needed V e = Some e'" and "t1_allocator e' = Some a" and "over_limit a"
  shows "probationary_list (t1_eviction e') = [] \<and> protected_list (t1_eviction e') = []"
  using assms
proof (induction V e arbitrary: e' rule: evict_if_needed.induct)
  case (1 V e)
  obtain v ev where ev: "evict (t1_eviction e) = (v, ev)" by fastforce
  show ?case
  proof (cases "\<exists>b k. t1_allocator e = Some b \<and> over_limit b \<and> v = Some k")
    case False
    then have "e' = e\<lparr>t1_eviction := ev\<rparr> \<and> v = None"
      using 1(2,3,4) ev by (cases v) (simp_all add: evict_if_needed.simps [of V e] split: option.splits if_splits)
    with evict_None [of "t1_eviction e" ev] ev show ?thesis by simp
  next
    case True
    then obtain b k where b: "t1_allocator e = Some b" "over_limit b" and k: "v = Some k" by blast
    then have lim: "\<not> \<not> over_limit b" by simp
    obtain e1 where e1: "evict_one V k (e\<lparr>t1_eviction := ev\<rparr>) = Some e1" "evict_if_needed V e1 = Some e'"
      using 1(2) b ev k by (simp add: evict_if_needed.simps [of V e] split: option.splits)
    from 1(1) [OF b(1) lim ev [symmetric] k e1 1(3,4)] show ?thesis .
  qed
qed

text \<open>The two ways in which a put stores its blob.\<close>

lemma engine_put_stored:
  assumes inv: "cache_inv V contents opened cap A kv e" and put: "engine_put V key blob opts e = Some (kOk, e')"
    and fits: "blob_fits cap blob" and room: "put_room e"
  obtains x e1 where "put_t1 V key blob opts (new_entry (en_steady_us V (eg_world e)) opts blob)
      (e\<lparr>eg_admission := record_evaluation kAdmit (eg_admission e)\<rparr>) = (True, x, e1)" "put_commit V key x e1 = Some e'"
  | y e2 where "t1_allocator e2 = t1_allocator e" "eg_index e2 = eg_index e" "ie_tier y = tier_code kT2Nvme"
      "put_commit V key y e2 = Some e'"
proof -
  let ?e = "e\<lparr>eg_admission := record_evaluation kAdmit (eg_admission e)\<rparr>"
  let ?x = "new_entry (en_steady_us V (eg_world e)) opts blob"
  have inv1: "cache_inv V contents opened cap A kv ?e" using inv by simp
  have len: "\<not> length blob > UINT32_MAX" using fits by (simp add: blob_fits_def)
  obtain stored x e1 where pt: "put_t1 V key blob opts ?x ?e = (stored, x, e1)" by (metis prod_cases3)
  from put have adm: "eg_opened e" "evaluate (eg_admission e) opts (storage_utilization e) = kAdmit"
    by (auto simp: engine_put_def Let_def split: if_splits)
  show thesis
  proof (cases stored)
    case True
    then have pt1: "put_t1 V key blob opts ?x ?e = (True, x, e1)" using pt by (simp only:)
    moreover have "put_commit V key x e1 = Some e'" using put pt1 adm len by (auto simp: engine_put_def Let_def)
    ultimately show thesis by (rule that(1))
  next
    case False
    then have pt1: "put_t1 V key blob opts ?x ?e = (False, x, e1)" using pt by (simp only:)
    note M = put_t1_missed [OF inv1 pt1]
    have ep: "engine_put V key blob opts e = (case put_t2 V key blob opts ?x ?e of
        None \<Rightarrow> None | Some (Inl s, e) \<Rightarrow> Some (s, e) | Some (Inr x, e) \<Rightarrow> map_option (Pair kOk) (put_commit V key x e))"
      using pt1 adm len M by (simp add: engine_put_def Let_def)
    have ids: "ids_used ?e < UINT32_MAX" using room by (simp add: put_room_def spent_def)
    obtain st where st: "t2_store e = Some st" using ep put by (auto simp: put_t2_def split: option.splits)
    then have st1: "t2_store ?e = Some st" by simp
    obtain loc st' w' where "t2_write (en_store V) key blob (ie_checksum ?x) (st, eg_world ?e) = (Returned kOk (Some loc), st', w')"
      by (rule t2_write_stored [OF inv1 st1 fits ids new_entry_length, of key "ie_checksum ?x" key])
    with st ep put obtain y e2 where p2: "put_t2 V key blob opts ?x ?e = Some (Inr y, e2)" "put_commit V key y e2 = Some e'"
      by (auto simp: put_t2_def map_option_case split: option.splits)
    then have "t1_allocator e2 = t1_allocator e" "eg_index e2 = eg_index e" "ie_tier y = tier_code kT2Nvme"
      by (auto simp: put_t2_def to_t2_def split: option.splits prod.splits write_outcome.splits Status.splits)
    then show thesis using p2(2) by (rule that(2))
  qed
qed

lemma put_commit_headroom:
  assumes "put_commit V key x e = Some e'" and "t1_allocator e' = Some a" and "over_limit a"
  shows "probationary_list (t1_eviction e') = [] \<and> protected_list (t1_eviction e') = []"
  using assms evict_if_needed_headroom by (fastforce simp: put_commit_def)

section \<open>Slots that are lost\<close>

text \<open>What the DRAM tier needs of the index, whatever happens in the blob store.\<close>

definition t1_ok :: "('m, 'w) engine_env \<Rightarrow> ('m, 'w) AttentionDBEngine \<Rightarrow> bool" where
  "t1_ok V e \<longleftrightarrow> cuckoo_laws (en_ck V) \<and>
     (\<forall>k p. in_t1 V e k p \<longrightarrow> (\<exists>a. t1_allocator e = Some a \<and> p \<in> live a)) \<and>
     (\<forall>a. t1_allocator e = Some a \<longrightarrow> slab_inv a) \<and>
     (\<forall>k k' p. in_t1 V e k p \<longrightarrow> in_t1 V e k' p \<longrightarrow> k = k')"

text \<open>A slot that is in use and that no entry other than one refers to.\<close>

definition held_by :: "('m, 'w) engine_env \<Rightarrow> StorageKey set \<Rightarrow> ptr \<Rightarrow> ('m, 'w) AttentionDBEngine \<Rightarrow> bool" where
  "held_by V ks p e \<longleftrightarrow> (\<exists>a. t1_allocator e = Some a \<and> p \<in> live a) \<and> (\<forall>k. in_t1 V e k p \<longrightarrow> k \<in> ks)"

lemma cache_inv_t1_ok:
  assumes "cache_inv V contents opened cap A kv e"
  shows "t1_ok V e"
proof -
  note D = cache_invD [OF assms]
  have "\<exists>a. t1_allocator e = Some a \<and> p \<in> live a" if t: "in_t1 V e k p" for k p
  proof -
    from t obtain x where "look V e k = Some x" "ie_tier x = tier_code kT1Dram" "entry_ptr x = p" by (auto simp: in_t1_def)
    with D(6) [of k x] show ?thesis by (auto simp: serves_def serves_t1_def)
  qed
  with D(1,4,7) show ?thesis unfolding t1_ok_def by blast
qed

lemma t1_frame:
  assumes "t1_allocator e' = t1_allocator e" and "\<And>k p. in_t1 V e' k p = in_t1 V e k p"
  shows "t1_ok V e' = t1_ok V e" and "held_by V ks p e' = held_by V ks p e"
  using assms by (simp_all add: t1_ok_def held_by_def)

text \<open>Entries that leave T1 one by one.\<close>

lemma t1_drop:
  assumes "t1_ok V e" and "held_by V {} p e" and "\<And>k' q. in_t1 V e' k' q \<longleftrightarrow> k' \<noteq> k \<and> in_t1 V e k' q"
    and "in_t1 V e k r" and "t1_allocator e' = map_option (free_by_ptr r) (t1_allocator e)"
  shows "t1_ok V e' \<and> held_by V {} p e'"
proof -
  from assms(1,4) obtain a where a: "t1_allocator e = Some a" "slab_inv a" "r \<in> live a" unfolding t1_ok_def by blast
  note R = slab.release_live [OF a(2,3)]
  have "q \<noteq> r" if "in_t1 V e k' q" "k' \<noteq> k" for k' q using that assms(1,4) by (auto simp: t1_ok_def)
  moreover have "p \<noteq> r" using assms(2,4) by (auto simp: held_by_def)
  ultimately show ?thesis using assms a R by (fastforce simp: t1_ok_def held_by_def)
qed

lemma demote_in_t1:
  assumes "cuckoo_laws (en_ck V)" and "demote V k x e = Some (b, e')"
  shows "in_t1 V e' k' q \<longleftrightarrow> (b \<longrightarrow> k' \<noteq> k) \<and> in_t1 V e k' q"
  using assms(2)
  by (auto simp: demote_def in_t1_def index_find_upsert [OF assms(1)] to_t2_def
      split: option.splits if_splits prod.splits write_outcome.splits Status.splits)

lemma evict_one_held:
  assumes "t1_ok V e" and "held_by V {} p e" and "evict_one V k e = Some e'"
  shows "t1_ok V e' \<and> held_by V {} p e'"
proof (cases "\<exists>x. look V e k = Some x \<and> ie_tier x = tier_code kT1Dram")
  case False
  then show ?thesis using assms by (auto simp: evict_one_def split: option.splits)
next
  case True
  then obtain x where x: "look V e k = Some x" "ie_tier x = tier_code kT1Dram" by blast
  have laws: "cuckoo_laws (en_ck V)" using assms(1) by (simp add: t1_ok_def)
  obtain b e1 where d: "demote V k x e = Some (b, e1)"
    using assms(3) x by (cases "demote V k x e") (auto simp: evict_one_def)
  have "t1_allocator e1 = t1_allocator e" using demote_frame [OF d] by simp
  then have e': "e' = set_stats (\<lambda>s. s\<lparr>ps_evictions := ps_evictions s + 1\<rparr>)
      ((if b then e1 else e1\<lparr>eg_index := snd (index_erase (en_ck V) k (eg_index e1))\<rparr>)
        \<lparr>t1_allocator := map_option (free_by_ptr (entry_ptr x)) (t1_allocator e)\<rparr>)"
    using assms(3) x d by (cases b) (simp_all add: evict_one_def Let_def)
  have "in_t1 V e' k' q \<longleftrightarrow> k' \<noteq> k \<and> in_t1 V e k' q" for k' q
    using demote_in_t1 [OF laws d, of k' q] by (auto simp: e' in_t1_def index_find_erase [OF laws])
  moreover have "in_t1 V e k (entry_ptr x)" using x by (simp add: in_t1_def)
  ultimately show ?thesis by (rule t1_drop [OF assms(1,2)]) (simp add: e')
qed

lemma evict_if_needed_held:
  assumes "t1_ok V e" and "held_by V {} p e" and "evict_if_needed V e = Some e'"
  shows "t1_ok V e' \<and> held_by V {} p e'"
proof (rule evict_if_needed_keeps [where P = "\<lambda>e. t1_ok V e \<and> held_by V {} p e", OF _ _ _ assms(3)])
  show "t1_ok V e' \<and> held_by V {} p e'" if "t1_ok V e \<and> held_by V {} p e" "evict_one V k e = Some e'" for k e e'
    using that evict_one_held by blast
  show "t1_ok V (e\<lparr>t1_eviction := ev\<rparr>) \<and> held_by V {} p (e\<lparr>t1_eviction := ev\<rparr>)" if "t1_ok V e \<and> held_by V {} p e" for e ev
    using that t1_frame [of "e\<lparr>t1_eviction := ev\<rparr>" e V] by (simp add: in_t1_def)
qed (use assms in simp)

lemma put_commit_held:
  assumes ok: "t1_ok V e" and held: "held_by V {key} p e" and c: "put_commit V key x e = Some e'"
    and x: "ie_tier x = tier_code kT1Dram \<longrightarrow> entry_ptr x \<noteq> p \<and> (\<forall>k. \<not> in_t1 V e k (entry_ptr x)) \<and>
      (\<exists>a. t1_allocator e = Some a \<and> entry_ptr x \<in> live a)"
  shows "t1_ok V e' \<and> held_by V {} p e'"
proof -
  let ?e = "e\<lparr>eg_index := upsert (en_ck V) key x (eg_index e), eg_checkpoint := mark_dirty (eg_checkpoint e)\<rparr>"
  have laws: "cuckoo_laws (en_ck V)" using ok by (simp add: t1_ok_def)
  have t: "in_t1 V ?e k q \<longleftrightarrow> (if k = key then ie_tier x = tier_code kT1Dram \<and> q = entry_ptr x else in_t1 V e k q)" for k q
    by (auto simp: in_t1_def index_find_upsert [OF laws])
  have "t1_ok V ?e" using ok x unfolding t1_ok_def t by (auto split: if_splits)
  moreover have "held_by V {} p ?e" using held x unfolding held_by_def t by (auto split: if_splits)
  moreover obtain e1 where "evict_if_needed V ?e = Some e1" "t1_allocator e' = t1_allocator e1" "eg_index e' = eg_index e1"
    using c by (auto simp: put_commit_def)
  ultimately show ?thesis
    using evict_if_needed_held [of V ?e p e1] t1_frame [of e' e1 V] by (simp add: in_t1_def)
qed

text \<open>A put that stores its blob abandons the slot its key had.\<close>

lemma engine_put_held:
  assumes inv: "cache_inv V contents opened cap A kv e" and held: "held_by V {key} p e"
    and put: "engine_put V key blob opts e = Some (kOk, e')" and fits: "blob_fits cap blob" and room: "put_room e"
  shows "held_by V {} p e'"
proof (cases rule: engine_put_stored [OF inv put fits room, case_names t1 t2])
  case (t1 x e1)
  have inv1: "cache_inv V contents opened cap A kv (e\<lparr>eg_admission := record_evaluation kAdmit (eg_admission e)\<rparr>)"
    using inv by simp
  have "length blob < 2 ^ 32" using fits by (simp add: blob_fits_def)
  note P = put_t1_stored [OF inv1 t1(1) new_entry_length this]
  from t1(1) obtain a h q a' where a: "t1_allocator e = Some a" "allocate (length blob) a = (h, q, a')" "handle_valid h"
    and e1: "t1_allocator e1 = Some a'" "eg_index e1 = eg_index e" and x: "ie_address x = of_nat q"
    by (auto simp: put_t1_def split: option.splits prod.splits if_splits)
  note si = cache_invD(4) [OF inv a(1)]
  have "q \<noteq> nullptr" using allocate_valid [OF si a(2)] a(3) by simp
  note H = slab.alloc_hit [OF si a(2) this]
  have q: "entry_ptr x = q" using H live_less [of a' q] by (simp add: x unat_of_nat_64)
  have "held_by V {key} p e1" using held a(1) e1 H by (auto simp: held_by_def in_t1_def)
  moreover have "p \<noteq> q" using held a(1) H by (auto simp: held_by_def)
  ultimately show ?thesis
    using put_commit_held [OF cache_inv_t1_ok [OF P(1)] _ t1(2), of p] P(4) q e1(1) H by blast
next
  case (t2 y e2)
  have "t1_ok V e2" "held_by V {key} p e2"
    using t1_frame [of e2 e V] cache_inv_t1_ok [OF inv] held t2(1,2) by (simp_all add: in_t1_def)
  from put_commit_held [OF this t2(4)] t2(3) show ?thesis by simp
qed

lemma put_t2_refused:
  "put_t2 V key blob opts entry e = Some (Inl s, e') \<Longrightarrow> t1_allocator e' = t1_allocator e \<and> eg_index e' = eg_index e"
  by (auto simp: put_t2_def log_at_def split: option.splits prod.splits write_outcome.splits Status.splits)

lemma engine_put_other_held:
  assumes inv: "cache_inv V contents opened cap A kv e" and held: "held_by V {} p e"
    and put: "engine_put V key blob opts e = Some (s, e')" and "s \<noteq> kOk" and fits: "blob_fits cap blob"
  shows "held_by V {} p e'"
proof -
  have "t1_allocator e' = t1_allocator e \<and> eg_index e' = eg_index e"
  proof (cases "eg_opened e \<and> evaluate (eg_admission e) opts (storage_utilization e) = kAdmit")
    case False
    then show ?thesis using put by (auto simp: engine_put_def Let_def log_at_def split: if_splits)
  next
    case True
    let ?e = "e\<lparr>eg_admission := record_evaluation kAdmit (eg_admission e)\<rparr>"
    let ?x = "new_entry (en_steady_us V (eg_world ?e)) opts blob"
    have inv1: "cache_inv V contents opened cap A kv ?e" using inv by simp
    have len: "\<not> length blob > UINT32_MAX" using fits by (simp add: blob_fits_def)
    obtain stored x e1 where pt: "put_t1 V key blob opts ?x ?e = (stored, x, e1)" by (metis prod_cases3)
    have "\<not> stored" using put pt True len assms(4) by (auto simp: engine_put_def Let_def)
    with pt have pt1: "put_t1 V key blob opts ?x ?e = (False, x, e1)" by simp
    note M = put_t1_missed [OF inv1 pt1]
    have "put_t2 V key blob opts ?x ?e = Some (Inl s, e')"
      using put pt1 True len M assms(4) by (auto simp: engine_put_def Let_def split: option.splits sum.splits)
    from put_t2_refused [OF this] show ?thesis by simp
  qed
  then show ?thesis using held t1_frame(2) [of e' e V "{}" p] by (simp add: in_t1_def)
qed

lemma get_in_t1:
  assumes "cuckoo_laws (en_ck V)"
  shows "t1_allocator (snd (engine_get V k n e)) = t1_allocator e"
    and "in_t1 V (snd (engine_get V k n e)) k' p = in_t1 V e k' p"
proof -
  have f: "in_t1 V (get_finish V k e1) k' p = in_t1 V e1 k' p" "t1_allocator (get_finish V k e1) = t1_allocator e1" for e1
    by (cases "k' = k") (auto simp: get_finish_def Let_def in_t1_def index_find_update [OF assms])
  show "t1_allocator (snd (engine_get V k n e)) = t1_allocator e"
    by (simp add: engine_get_def get_entry_def Let_def log_at_def f split: option.split prod.split)
  show "in_t1 V (snd (engine_get V k n e)) k' p = in_t1 V e k' p"
    by (simp add: engine_get_def get_entry_def Let_def log_at_def f split: option.split prod.split) (simp add: in_t1_def)
qed

lemma engine_del_held:
  assumes "t1_ok V e" and "held_by V {} p e"
  shows "held_by V {} p (snd (engine_del V k e))"
proof (cases "eg_opened e \<and> look V e k \<noteq> None")
  case False
  then show ?thesis using assms by (auto simp: engine_del_def del_entry_def)
next
  case True
  then obtain x where x: "look V e k = Some x" by blast
  have laws: "cuckoo_laws (en_ck V)" using assms(1) by (simp add: t1_ok_def)
  let ?e = "snd (engine_del V k e)"
  have t: "in_t1 V ?e k' q \<longleftrightarrow> k' \<noteq> k \<and> in_t1 V e k' q" for k' q
    using True x by (auto simp: engine_del_def del_entry_def Let_def in_t1_def index_find_erase [OF laws])
  show ?thesis
  proof (cases "ie_tier x = tier_code kT1Dram")
    case True
    then have "in_t1 V e k (entry_ptr x)" using x by (simp add: in_t1_def)
    from t1_drop [OF assms t this] \<open>eg_opened e \<and> _\<close> x True show ?thesis by (simp add: engine_del_def del_entry_def Let_def)
  next
    case False
    then have "t1_allocator ?e = t1_allocator e" using True x by (simp add: engine_del_def del_entry_def Let_def)
    then show ?thesis using assms(2) t by (auto simp: held_by_def)
  qed
qed

lemma engine_step_held:
  assumes step: "engine_step V cap allowed x y" and ok: "cache_ok V contents opened cap x" and held: "held_by V {} p (fst x)"
  shows "held_by V {} p (fst y)"
proof -
  from ok obtain A where inv: "cache_inv V contents opened cap A (snd x) (fst x)" by (auto simp: cache_ok_def)
  note laws = cache_invD(1) [OF inv]
  from step show ?thesis
  proof cases
    case (put k blob opts e s e' kv)
    have inv': "cache_inv V contents opened cap A kv e" and held': "held_by V {} p e" using inv held put(1) by simp_all
    have "held_by V {k} p e" using held' by (auto simp: held_by_def)
    from engine_put_held [OF inv' this _ put(4,5)] engine_put_other_held [OF inv' held' put(3) _ put(4)] put(2,3)
    show ?thesis by (cases "s = kOk") auto
  next
    case (get k n e r e' kv)
    have "e' = snd (engine_get V k n e)" using get(3) by simp
    then show ?thesis using held get(1,2) t1_frame(2) [of e' e V "{}" p] get_in_t1 [OF laws, of k n e] by simp
  next
    case (del k e s e' kv)
    have "e' = snd (engine_del V k e)" using del(3) by simp
    then show ?thesis using engine_del_held [OF cache_inv_t1_ok [OF inv] held, of k] del(1,2) by simp
  qed (use held in \<open>auto simp: held_by_def in_t1_def\<close>)
qed

lemma engine_steps_held:
  assumes "(engine_step V cap allowed)\<^sup>*\<^sup>* x y" and "cache_ok V contents opened cap x" and "held_by V {} p (fst x)"
  shows "held_by V {} p (fst y)"
  using assms(1)
proof (induction rule: rtranclp_induct)
  case (step y z)
  from engine_steps_ok [OF step(1) assms(2)] step(2,3) show ?case by (blast intro: engine_step_held)
qed (rule assms(3))

section \<open>A put that stays in T1\<close>

lemma put_in_t1:
  assumes "t1_allocator e = Some a" and "allocate (length blob) a = (h, p, a')"
    and "handle_valid h" and "\<not> over_limit a'" and "engine_put V k blob opts e = Some (kOk, e')"
    and "cuckoo_laws (en_ck V)" and "length blob \<le> UINT32_MAX"
  shows "t1_allocator e' = Some a'"
    and "\<exists>x. look V e' k = Some x \<and> ie_tier x = tier_code kT1Dram \<and> ie_address x = of_nat p \<and> ie_length x = of_nat (length blob)"
  using assms
  by (auto simp: engine_put_def Let_def put_status_def put_t1_def put_commit_def evict_if_needed.simps index_find_upsert
      split: if_splits)

lemma open_rest_t1: "t1_allocator (open_rest V e) = t1_allocator e"
  by (simp add: open_rest_def Let_def log_at_def load_checkpoint_def split: prod.split)

lemma engine_open_t1:
  assumes "engine_open V cfg (engine_create V w mem fs) = (Ret kOk, e)" and "dc_enabled (cfg_dram_cache cfg)"
    and "slab_create (en_alloc V) (cfg_dram_cache cfg) (w, mem) = Inr (a, w', mem')"
  shows "t1_allocator e = Some a"
  using assms
  by (auto simp: engine_open_def engine_create_def Let_def open_t1_def open_t2_def open_rest_t1 log_at_def
      split: if_splits prod.splits)

lemma demo_allocator: "t1_allocator demo_engine = Some small_slab"
proof -
  have "\<exists>w mem. slab_create (en_alloc demo_env) small_dram ((([], [], 0), 4096), \<lambda>_. 0) = Inr (small_slab, w, mem)"
    unfolding small_slab_def small_dram_created
    by (simp add: slab_create_def small_dram_def demo_env_def alloc_half_def at_snd_def brk_env_def alloc_backing_def
        alloc_aligned_def add_class_def page_up_def wrap64_def wrap32_def Let_def upt_rec flip: numeral_2_eq_2)
  then obtain w mem where s: "slab_create (en_alloc demo_env) (cfg_dram_cache demo_config) ((([], [], 0), 4096), \<lambda>_. 0) =
      Inr (small_slab, w, mem)" by (auto simp: demo_config_def)
  show ?thesis by (rule engine_open_t1 [OF demo_open _ s]) (simp add: demo_config_def small_dram_def)
qed

lemma demo_below: "\<not> over_limit small_slab_1"
proof -
  have "used_bytes small_slab_1 = 4"
    by (simp add: used_bytes_def small_slab_1_classes used_slots_def sub64_def wrap64_def)
  moreover have "total_capacity small_slab_1 = 36"
    by (simp add: total_capacity_def small_slab_1_def allocate_def small_slab_classes small_slab_def small_dram_created)
  moreover have "\<not> d_mult (d_of_nat 36) (fl (95 / 100)) < d_of_nat 4" by code_simp
  ultimately show ?thesis by (simp add: over_limit_def)
qed

section \<open>Properties\<close>

text \<open>
  C10. Eviction makes room. When a put has returned \<open>kOk\<close>, either T1 is filled to at most 95%
  of its capacity (in double arithmetic), or the policy tracks no key any more: the loop
  always ends, and never before one of the two holds.
\<close>

theorem put_restores_headroom:
  assumes "environment_ok V contents opened owned" and "first_start V contents cfg w0 fs"
    and "engine_open V cfg (engine_create V w0 mem0 fs) = (Ret kOk, e0)"
    and "(engine_step V (blob_limit cfg) allowed)\<^sup>*\<^sup>* (e0, Map.empty) (e, kv)"
    and "blob_fits (blob_limit cfg) blob" and "put_room e"
  shows "\<exists>s e'. engine_put V k blob opts e = Some (s, e') \<and> (s = kOk \<longrightarrow> (\<forall>a. t1_allocator e' = Some a \<longrightarrow>
    d_of_nat (used_bytes a) \<le> d_mult (d_of_nat (total_capacity a)) (fl (95 / 100)) \<or>
    protected_list (t1_eviction e') = [] \<and> probationary_list (t1_eviction e') = []))"
proof -
  from engine_steps_ok [OF assms(4) engine_open_fresh(2) [OF assms(1-3) refl]]
  obtain A where inv: "cache_inv V contents opened (blob_limit cfg) A kv e" by (auto simp: cache_ok_def)
  from engine_put_ok [OF inv assms(5,6), of k opts]
  obtain s e' where put: "engine_put V k blob opts e = Some (s, e')" by blast
  have "\<not> over_limit a \<or> protected_list (t1_eviction e') = [] \<and> probationary_list (t1_eviction e') = []"
    if "s = kOk" "t1_allocator e' = Some a" for a
    by (cases rule: engine_put_stored [OF inv put [unfolded that(1)] assms(5,6)])
      (use put_commit_headroom [OF _ that(2)] in blast)+
  with put show ?thesis by (auto simp: over_limit_def not_less)
qed

theorem put_restores_headroom_witness:
  "\<exists>e. engine_put demo_env demo_key [1, 2, 3] demo_opts demo_engine = Some (kOk, e) \<and> (\<forall>a. t1_allocator e = Some a \<longrightarrow>
    d_of_nat (used_bytes a) \<le> d_mult (d_of_nat (total_capacity a)) (fl (95 / 100)) \<or>
    protected_list (t1_eviction e) = [] \<and> probationary_list (t1_eviction e) = [])"
proof (rule demo_put)
  fix e
  assume "engine_put demo_env demo_key [1, 2, 3] demo_opts demo_engine = Some (kOk, e)"
  with put_restores_headroom [OF demo_env_ok demo_first demo_open rtranclp.rtrancl_refl demo_fits demo_room,
      where opts = demo_opts and k = demo_key] show ?thesis by auto
qed

text \<open>
  C11. A put that overwrites a key in T1 loses the slot of the old blob: it stays in use
  although no entry refers to it, and no sequence of puts, gets, deletes and background
  turns ever gives it back.
\<close>

theorem overwrite_leaks_slot:
  assumes "environment_ok V contents opened owned" and "first_start V contents cfg w0 fs"
    and "engine_open V cfg (engine_create V w0 mem0 fs) = (Ret kOk, e0)"
    and "(engine_step V (blob_limit cfg) allowed)\<^sup>*\<^sup>* (e0, Map.empty) (e, kv)"
    and "index_find (en_ck V) (eg_index e) k = Some x" and "ie_tier x = tier_code kT1Dram"
    and "blob_fits (blob_limit cfg) blob" and "put_room e" and "allowed opts"
    and "engine_put V k blob opts e = Some (kOk, e1)"
    and "(engine_step V (blob_limit cfg) allowed)\<^sup>*\<^sup>* (e1, kv(k \<mapsto> blob)) (e2, kv2)"
  shows "\<exists>a. t1_allocator e2 = Some a \<and> unat (ie_address x) \<in> live a \<and>
    (\<forall>k' y. index_find (en_ck V) (eg_index e2) k' = Some y \<and> ie_tier y = tier_code kT1Dram \<longrightarrow>
      ie_address y \<noteq> ie_address x)"
proof -
  have ok: "cache_ok V contents opened (blob_limit cfg) (e, kv)"
    using engine_steps_ok [OF assms(4) engine_open_fresh(2) [OF assms(1-3) refl]] .
  then obtain A where inv: "cache_inv V contents opened (blob_limit cfg) A kv e" by (auto simp: cache_ok_def)
  have t: "in_t1 V e k (entry_ptr x)" using assms(5,6) by (simp add: in_t1_def)
  with cache_inv_t1_ok [OF inv] have "held_by V {k} (entry_ptr x) e" unfolding t1_ok_def held_by_def by blast
  from engine_put_held [OF inv this assms(10,7,8)] have "held_by V {} (entry_ptr x) e1" .
  moreover have "engine_step V (blob_limit cfg) allowed (e, kv) (e1, kv(k \<mapsto> blob))"
    using engine_step.put [of V k blob opts e kOk e1 "blob_limit cfg" allowed kv] assms(7-10) by simp
  from engine_step_ok [OF this ok] have "cache_ok V contents opened (blob_limit cfg) (e1, kv(k \<mapsto> blob))" .
  ultimately have "held_by V {} (entry_ptr x) e2" using engine_steps_held [OF assms(11)] by simp
  then show ?thesis unfolding held_by_def in_t1_def by (metis empty_iff)
qed

theorem overwrite_leaks_slot_witness:
  "\<exists>e1 x e2 a. engine_put demo_env demo_key [1, 2, 3] demo_opts demo_engine = Some (kOk, e1) \<and>
     index_find (en_ck demo_env) (eg_index e1) demo_key = Some x \<and>
     engine_put demo_env demo_key [4, 5, 6] demo_opts e1 = Some (kOk, e2) \<and>
     t1_allocator e2 = Some a \<and> unat (ie_address x) \<in> live a"
proof -
  let ?d = "demotable (cfg_admission demo_config)"
  obtain e1 where p1: "engine_put demo_env demo_key [1, 2, 3] demo_opts demo_engine = Some (kOk, e1)"
    and run: "engine_step demo_env (blob_limit demo_config) ?d (demo_engine, Map.empty) (e1, [demo_key \<mapsto> [1, 2, 3]])"
    by (rule demo_put)
  have al: "allocate (length [1, 2, 3 :: byte]) small_slab = (\<lparr>class_index = 0, slot_index = 4\<rparr>, 4112, small_slab_1)"
    using allocate_small_slab by (simp add: numeral_3_eq_3)
  have "handle_valid \<lparr>class_index = 0, slot_index = 4\<rparr>" "cuckoo_laws (en_ck demo_env)"
    using alist_table_laws by (simp_all add: handle_valid_def demo_env_def)
  note T = put_in_t1 [OF demo_allocator al this(1) demo_below p1 this(2)]
  obtain x where x: "index_find (en_ck demo_env) (eg_index e1) demo_key = Some x" "ie_tier x = tier_code kT1Dram"
    and a1: "t1_allocator e1 = Some small_slab_1"
    using T by auto
  from demo_opened(2) obtain B where "cache_inv demo_env demo_files demo_fds (blob_limit demo_config) B Map.empty demo_engine"
    by (auto simp: cache_ok_def)
  from engine_put_ok [OF this demo_fits demo_room, of demo_key demo_opts] p1 demo_opened(4)
  have r1: "put_room e1" by (auto simp: put_room_def)
  have ok1: "put_status demo_opts [4, 5, 6] e1 = kOk"
    using engine_put_opened [OF p1] a1 allocate_small_slab_1 demo_opened(2)
    by (simp add: put_status_def evaluate_def demo_opts_def t1_takes_def cache_ok_def handle_valid_def numeral_3_eq_3)
  from engine_step_ok [OF run demo_opened(2) [OF refl]]
  obtain A where inv: "cache_inv demo_env demo_files demo_fds (blob_limit demo_config) A [demo_key \<mapsto> [1, 2, 3]] e1"
    by (auto simp: cache_ok_def)
  have f2: "blob_fits (blob_limit demo_config) [4, 5, 6]" using demo_fits by (simp add: blob_fits_def)
  from engine_put_ok [OF inv f2 r1, of demo_key demo_opts] ok1
  obtain e2 where p2: "engine_put demo_env demo_key [4, 5, 6] demo_opts e1 = Some (kOk, e2)" by auto
  have "?d demo_opts" by (simp add: demotable_def demo_config_def Default_def demo_opts_def)
  moreover have "(engine_step demo_env (blob_limit demo_config) ?d)\<^sup>*\<^sup>* (demo_engine, Map.empty) (e1, [demo_key \<mapsto> [1, 2, 3]])"
    using run by (rule r_into_rtranclp)
  ultimately have "\<exists>a. t1_allocator e2 = Some a \<and> unat (ie_address x) \<in> live a"
    using overwrite_leaks_slot [where allowed = ?d and kv = "[demo_key \<mapsto> [1, 2, 3]]" and e = e1,
        OF demo_env_ok demo_first demo_open _ x f2 r1 _ p2 rtranclp.rtrancl_refl] by blast
  with p1 x p2 show ?thesis by blast
qed

end
