(* ===== verification/Engine_Race.thy ===== *)
theory Engine_Race
  imports Engine_Life Engine_Limits
begin

text \<open>
  A get beside other operations. The engine takes no lock of its own: \<open>get\<close> copies the index
  entry and then follows it, and other threads run in between. A slot of the allocator may
  have changed hands by then.
\<close>

section \<open>Following an old entry\<close>

lemma get_entry_t1:
  assumes "ie_tier x = tier_code kT1Dram" and "t1_allocator e \<noteq> None" and "unat (ie_length x) \<le> n"
  shows "fst (get_entry V k n x e) = (kOk, mem_read (eg_memory e) (entry_ptr x) (entry_len x))"
  using assms by (simp add: get_entry_def)

lemma take_mem_read: "m \<le> n \<Longrightarrow> take m (mem_read mem p n) = mem_read mem p m"
  by (simp add: mem_read_def take_map)

lemma t1_entry_serves:
  assumes "cache_inv V contents opened cap A kv e" and "look V e k = Some y" and "ie_tier y = tier_code kT1Dram"
  obtains blob where "kv k = Some blob" and "t1_allocator e \<noteq> None"
    and "mem_read (eg_memory e) (entry_ptr y) (entry_len y) = blob"
  using cache_invD(6) [OF assms(1,2)] assms(3) by (auto simp: serves_def serves_t1_def serves_t2_def)

text \<open>A blob of the log stays where it is.\<close>

lemma engine_steps_inv:
  assumes "(engine_step V cap allowed)\<^sup>*\<^sup>* x y" and "cache_inv V contents opened cap A (snd x) (fst x)" and "eg_opened (fst x)"
  shows "eg_opened (fst y) \<and> (\<exists>A'. A \<subseteq> A' \<and> cache_inv V contents opened cap A' (snd y) (fst y))"
  using assms(1)
proof (induction rule: rtranclp_induct)
  case (step y z)
  then show ?case using engine_step_inv [OF step(2)] by (meson order_trans)
qed (use assms in blast)

lemma engine_steps_t2:
  assumes "(engine_step V cap allowed)\<^sup>*\<^sup>* x y" and "ckpt_ok V cfg (fst x)"
  shows "t2_store (fst y) = None \<longleftrightarrow> t2_store (fst x) = None"
proof -
  have "ckpt_ok V cfg (fst y)" using assms by (induction rule: rtranclp_induct) (auto intro: engine_step_ckpt)
  then have "layout (fst y) = layout (fst x)" using assms(2) by (simp add: ckpt_ok_def)
  then show ?thesis unfolding layout_def by (metis map_option_is_None prod.inject)
qed

lemma get_entry_t2:
  assumes inv: "cache_inv V contents opened cap A kv e" and t2: "t2_store e \<noteq> None"
    and x: "ie_tier x = tier_code kT2Nvme" "(entry_location x, blob) \<in> A"
  shows "fst (get_entry V k n x e) = (if length blob \<le> n then (kOk, blob) else (kBufferTooSmall, []))"
proof -
  from t2 obtain s where s: "t2_store e = Some s" by blast
  from t2.fetch_ok [OF cache_invD(5) [OF inv s] x(2), of n] s x(1) show ?thesis
    by (simp add: get_entry_def fetch_blob_def Let_def split: prod.splits)
qed

section \<open>A slot that changes hands\<close>

lemma small_slab_reused: "free_by_ptr 4112 small_slab_1 = small_slab"
proof (rule SlabAllocator.equality)
  show "classes (free_by_ptr 4112 small_slab_1) = classes small_slab"
    by (simp add: free_by_ptr_def in_region_def push_free_def wrap64_def wrap32_def small_slab_1_classes small_slab_classes)
qed (simp_all add: free_by_ptr_def in_region_def push_free_def small_slab_1_def allocate_def small_slab_classes Let_def split: option.split)

lemma on_remove_shorter:
  "length (protected_list (on_remove k s)) + length (probationary_list (on_remove k s)) \<le>
     length (protected_list s) + length (probationary_list s)"
  by (auto simp: on_remove_def list_erase_def intro: add_mono split: option.split)

text \<open>A put of three bytes into the free slab of the demonstration takes the slot at 4112.\<close>

lemma demo_t1_put:
  assumes ok: "cache_ok demo_env demo_files demo_fds (blob_limit demo_config) (e, kv)"
    and a: "t1_allocator e = Some small_slab" and room: "put_room e" and len: "length blob = 3"
  obtains e' x where "engine_put demo_env k blob demo_opts e = Some (kOk, e')"
    "engine_step demo_env (blob_limit demo_config) (demotable (cfg_admission demo_config)) (e, kv) (e', kv(k \<mapsto> blob))"
    "look demo_env e' k = Some x" "ie_tier x = tier_code kT1Dram" "ie_address x = 4112" "ie_length x = 3"
    "t1_allocator e' = Some small_slab_1" "spent e' \<le> Suc (spent e)"
proof -
  from ok obtain A where inv: "cache_inv demo_env demo_files demo_fds (blob_limit demo_config) A kv e" and op: "eg_opened e"
    by (auto simp: cache_ok_def)
  have fits: "blob_fits (blob_limit demo_config) blob"
    using demo_fits len by (auto simp: blob_fits_def numeral_3_eq_3)
  have al: "allocate (length blob) small_slab = (\<lparr>class_index = 0, slot_index = 4\<rparr>, 4112, small_slab_1)"
    using allocate_small_slab by (simp add: len)
  have h: "handle_valid \<lparr>class_index = 0, slot_index = 4\<rparr>" "cuckoo_laws (en_ck demo_env)"
    using alist_table_laws by (simp_all add: handle_valid_def demo_env_def)
  have "put_status demo_opts blob e = kOk"
    using op a al h(1) by (simp add: put_status_def evaluate_def demo_opts_def t1_takes_def)
  with engine_put_ok [OF inv fits room, of k demo_opts]
  obtain e' where put: "engine_put demo_env k blob demo_opts e = Some (kOk, e')" and sp: "spent e' \<le> Suc (spent e)" by auto
  have "demotable (cfg_admission demo_config) demo_opts" by (simp add: demotable_def demo_config_def Default_def demo_opts_def)
  with engine_step.put [OF put fits room, of "demotable (cfg_admission demo_config)" kv]
  have s: "engine_step demo_env (blob_limit demo_config) (demotable (cfg_admission demo_config)) (e, kv) (e', kv(k \<mapsto> blob))"
    by simp
  show thesis using put_in_t1 [OF a al h(1) demo_below put h(2)] len that [OF put s] sp by auto
qed

section \<open>Properties\<close>

text \<open>
  C12. A get that other threads overtake between its lookup and its read. When the entry it has
  copied is in T2 it returns the blob the key had at the lookup, whatever has been put,
  deleted, evicted and flushed since. When the entry is in T1 and its slot has gone to another
  key meanwhile, it returns the first bytes of the blob of that key with \<open>kOk\<close>: \<open>get\<close> neither
  holds a lock nor compares the checksum of the entry.
\<close>

theorem overtaken_get:
  assumes "environment_ok V contents opened owned" and "first_start V contents cfg w0 fs"
    and "engine_open V cfg (engine_create V w0 mem0 fs) = (Ret kOk, e0)"
    and "(engine_life V cfg allowed)\<^sup>*\<^sup>* (e0, Map.empty) (e, kv)"
    and "index_find (en_ck V) (eg_index e) k = Some x"
    and "(engine_step V (blob_limit cfg) allowed)\<^sup>*\<^sup>* (e, kv) (e', kv')"
  shows "(ie_tier x = tier_code kT2Nvme \<longrightarrow> (\<exists>blob. kv k = Some blob \<and>
      fst (get_entry V k n x e') = (if length blob \<le> n then (kOk, blob) else (kBufferTooSmall, [])))) \<and>
    (\<forall>k' y. ie_tier x = tier_code kT1Dram \<and> index_find (en_ck V) (eg_index e') k' = Some y \<and> ie_tier y = tier_code kT1Dram \<and>
      ie_address y = ie_address x \<and> ie_length x \<le> ie_length y \<and> unat (ie_length x) \<le> n \<longrightarrow>
      (\<exists>blob. kv' k' = Some blob \<and> fst (get_entry V k n x e') = (kOk, take (unat (ie_length x)) blob)))"
proof (intro conjI allI impI, goal_cases)
  from life_from_start [OF assms(1-4)] obtain A
    where inv: "cache_inv V contents opened (blob_limit cfg) A kv e" and op: "eg_opened e" and ck: "ckpt_ok V cfg e" by (rule aliveE)
  from engine_steps_inv [OF assms(6), of contents opened A] inv op obtain A'
    where sub: "A \<subseteq> A'" and inv': "cache_inv V contents opened (blob_limit cfg) A' kv' e'" by auto
  {
    case 1
    from cache_invD(6) [OF inv assms(5)] 1 obtain blob where b: "kv k = Some blob" "(entry_location x, blob) \<in> A" "t2_store e \<noteq> None"
      by (auto simp: serves_def serves_t2_def)
    have "t2_store e' \<noteq> None" using engine_steps_t2 [OF assms(6), of cfg] ck b(3) by simp
    with get_entry_t2 [OF inv' _ 1, of blob k n] b sub show ?case by blast
  next
    case (2 k' y)
    from t1_entry_serves [OF inv', of k' y] 2 obtain blob where b: "kv' k' = Some blob" "t1_allocator e' \<noteq> None"
      "mem_read (eg_memory e') (entry_ptr y) (entry_len y) = blob" by blast
    have "take (entry_len x) blob = mem_read (eg_memory e') (entry_ptr x) (entry_len x)"
      using take_mem_read [of "entry_len x" "entry_len y" "eg_memory e'" "entry_ptr y"] 2 b(3) by (simp add: word_le_nat_alt)
    with get_entry_t1 [of x e' n V k] 2 b(1,2) show ?case by simp
  }
qed

text \<open>The put, the delete and the put of another key that the get of the first one misses.\<close>

theorem overtaken_get_witness:
  "\<exists>e1 x e2 e3. engine_put demo_env demo_key [1, 2, 3] demo_opts demo_engine = Some (kOk, e1) \<and>
     index_find (en_ck demo_env) (eg_index e1) demo_key = Some x \<and> engine_del demo_env demo_key e1 = (kOk, e2) \<and>
     engine_put demo_env (key_of_bytes [8]) [4, 5, 6] demo_opts e2 = Some (kOk, e3) \<and>
     fst (get_entry demo_env demo_key 16 x e3) = (kOk, [4, 5, 6])"
proof -
  let ?R = "engine_step demo_env (blob_limit demo_config) (demotable (cfg_admission demo_config))"
  obtain e1 x where p1: "engine_put demo_env demo_key [1, 2, 3] demo_opts demo_engine = Some (kOk, e1)"
    and s1: "?R (demo_engine, Map.empty) (e1, [demo_key \<mapsto> [1, 2, 3]])"
    and x: "look demo_env e1 demo_key = Some x" "ie_tier x = tier_code kT1Dram" "ie_address x = 4112" "ie_length x = 3"
    and a1: "t1_allocator e1 = Some small_slab_1" and sp: "spent e1 \<le> Suc (spent demo_engine)"
    by (rule demo_t1_put [OF demo_opened(2) [OF refl] demo_allocator demo_room, of "[1, 2, 3]" demo_key]) simp_all
  note ok1 = engine_step_ok [OF s1 demo_opened(2) [OF refl]]
  obtain e2 where d: "engine_del demo_env demo_key e1 = (kOk, e2)" and a2: "t1_allocator e2 = Some small_slab"
    and sp2: "spent e2 \<le> spent e1"
    using ok1 x a1 on_remove_shorter [of demo_key "t1_eviction e1"]
    by (simp add: engine_del_def del_entry_def cache_ok_def small_slab_reused spent_def ids_used_def)
  have s2: "?R (e1, [demo_key \<mapsto> [1, 2, 3]]) (e2, Map.empty)"
    using engine_step.del [OF d, where kv = "[demo_key \<mapsto> [1, 2, 3]]"] by simp
  have r2: "put_room e2" using sp sp2 demo_opened(4) by (simp add: put_room_def)
  obtain e3 y where p3: "engine_put demo_env (key_of_bytes [8]) [4, 5, 6] demo_opts e2 = Some (kOk, e3)"
    and s3: "?R (e2, Map.empty) (e3, [key_of_bytes [8] \<mapsto> [4, 5, 6]])"
    and y: "look demo_env e3 (key_of_bytes [8]) = Some y" "ie_tier y = tier_code kT1Dram" "ie_address y = 4112" "ie_length y = 3"
    by (rule demo_t1_put [OF engine_step_ok [OF s2 ok1] a2 r2, of "[4, 5, 6]" "key_of_bytes [8]"]) simp_all
  have run: "(engine_life demo_env demo_config (demotable (cfg_admission demo_config)))\<^sup>*\<^sup>*
      (demo_engine, Map.empty) (e1, [demo_key \<mapsto> [1, 2, 3]])"
    using s1 by (intro r_into_rtranclp operate)
  have "?R\<^sup>*\<^sup>* (e1, [demo_key \<mapsto> [1, 2, 3]]) (e3, [key_of_bytes [8] \<mapsto> [4, 5, 6]])" using s2 s3 by auto
  note G = overtaken_get [OF demo_env_ok demo_first demo_open run x(1) this, THEN conjunct2, THEN spec, THEN spec,
      THEN mp, of "key_of_bytes [8]" y 16]
  have "fst (get_entry demo_env demo_key 16 x e3) = (kOk, [4, 5, 6])" using G x(2-4) y by auto
  with p1 x(1) d p3 show ?thesis by blast
qed

text \<open>
  C13. Two deletes of one key. When a delete has looked up an entry in T1 and a second delete of
  the same key runs to its end before the first one goes on, the slot is freed twice: the
  next two allocations from its size class return the same address, so that two keys will
  share their memory. The allocator cannot tell, and the engine does not check that \<open>erase\<close>
  removed the key.
\<close>

theorem overtaken_delete_frees_twice:
  assumes "environment_ok V contents opened owned" and "first_start V contents cfg w0 fs"
    and "engine_open V cfg (engine_create V w0 mem0 fs) = (Ret kOk, e0)"
    and "(engine_life V cfg allowed)\<^sup>*\<^sup>* (e0, Map.empty) (e, kv)"
    and "index_find (en_ck V) (eg_index e) k = Some x" and "ie_tier x = tier_code kT1Dram"
    and "engine_del V k e = (kOk, e')"
  shows "\<exists>a. t1_allocator (del_entry V k x e') = Some a \<and>
    (\<forall>n. find_class n 0 (classes a) = find_region (unat (ie_address x)) 0 (classes a) \<longrightarrow>
      (\<exists>h t u. allocate n a = (h, unat (ie_address x), t) \<and> allocate n t = (h, unat (ie_address x), u)))"
proof -
  from life_from_start [OF assms(1-4)] obtain A
    where inv: "cache_inv V contents opened (blob_limit cfg) A kv e" by (rule aliveE)
  from cache_invD(6) [OF inv assms(5)] assms(6) obtain a where a: "t1_allocator e = Some a" and p: "entry_ptr x \<in> live a"
    by (auto simp: serves_def serves_t1_def)
  have "t1_allocator (del_entry V k x e') = Some (free_by_ptr (entry_ptr x) (free_by_ptr (entry_ptr x) a))"
    using assms(5-7) a by (auto simp: engine_del_def del_entry_def Let_def split: if_splits)
  with double_free [OF cache_invD(4) [OF inv a] p refl] show ?thesis by blast
qed

theorem overtaken_delete_frees_twice_witness:
  "\<exists>e1 x e2 a h t u. engine_put demo_env demo_key [1, 2, 3] demo_opts demo_engine = Some (kOk, e1) \<and>
     index_find (en_ck demo_env) (eg_index e1) demo_key = Some x \<and> engine_del demo_env demo_key e1 = (kOk, e2) \<and>
     t1_allocator (del_entry demo_env demo_key x e2) = Some a \<and> allocate 3 a = (h, 4112, t) \<and> allocate 3 t = (h, 4112, u)"
proof (rule demo_t1_put [OF demo_opened(2) [OF refl] demo_allocator demo_room, of "[1, 2, 3]" demo_key])
  fix e1 x
  assume p1: "engine_put demo_env demo_key [1, 2, 3] demo_opts demo_engine = Some (kOk, e1)"
    and s1: "engine_step demo_env (blob_limit demo_config) (demotable (cfg_admission demo_config))
      (demo_engine, Map.empty) (e1, [demo_key \<mapsto> [1, 2, 3]])"
    and x: "look demo_env e1 demo_key = Some x" "ie_tier x = tier_code kT1Dram" "ie_address x = 4112"
    and a1: "t1_allocator e1 = Some small_slab_1"
  have run: "(engine_life demo_env demo_config (demotable (cfg_admission demo_config)))\<^sup>*\<^sup>*
      (demo_engine, Map.empty) (e1, [demo_key \<mapsto> [1, 2, 3]])"
    using s1 by (intro r_into_rtranclp operate)
  have "eg_opened e1" using engine_put_opened [OF p1] demo_opened(2) by (simp add: cache_ok_def)
  then obtain e2 where d: "engine_del demo_env demo_key e1 = (kOk, e2)" and a2: "t1_allocator e2 = Some small_slab"
    using x a1 by (auto simp: engine_del_def del_entry_def small_slab_reused Let_def)
  from overtaken_delete_frees_twice [OF demo_env_ok demo_first demo_open run x(1,2) d]
  obtain a where a: "t1_allocator (del_entry demo_env demo_key x e2) = Some a"
    and n: "\<And>n. find_class n 0 (classes a) = find_region 4112 0 (classes a) \<Longrightarrow>
      \<exists>h t u. allocate n a = (h, 4112, t) \<and> allocate n t = (h, 4112, u)" using x(3) by auto
  have "a = free_by_ptr 4112 small_slab" using a a2 x(2,3) by (simp add: del_entry_def Let_def)
  then have "find_class 3 0 (classes a) = find_region 4112 0 (classes a)"
    by (simp add: free_by_ptr_def in_region_def push_free_def wrap64_def wrap32_def small_slab_classes)
  from n [OF this] p1 x(1) d a show ?thesis by blast
qed simp_all

end
