(* ===== verification/Uring_Engine.thy ===== *)
theory Uring_Engine
  imports Io_Engine Config
begin

text \<open>
  \<open>src/storage/uring_engine.{h,cpp}\<close> (the Linux build) and the choice of the engine in the
  constructor of the blob store. \<open>liburing\<close> is a parameter: the calls on the ring, with the
  completions that are visible in it as the abstraction its laws speak about.
\<close>

section \<open>The ring\<close>

abbreviation (input) EAGAIN :: int where
  "EAGAIN \<equiv> 11"

type_synonym IoCompletion = "64 word \<times> int"

datatype ring_request = ReadRequest int nat nat "64 word" | WriteRequest int bytes nat "64 word"

record 'w uring =
  ring_queue_init :: "'w \<Rightarrow> nat \<Rightarrow> int \<times> 'w"
  ring_queue_exit :: "'w \<Rightarrow> 'w"
  ring_get_sqe :: "'w \<Rightarrow> bool \<times> 'w"
  ring_prep :: "'w \<Rightarrow> ring_request \<Rightarrow> 'w"
  ring_submit :: "'w \<Rightarrow> int \<times> 'w"
  ring_peek_cqe :: "'w \<Rightarrow> (int + IoCompletion) \<times> 'w"
  ring_cqe_seen :: "'w \<Rightarrow> 'w"

record UringEngine =
  available :: bool

definition uring_create :: "'w uring \<Rightarrow> nat \<Rightarrow> 'w \<Rightarrow> UringEngine \<times> 'w" where
  "uring_create ring queue_depth w =
     (case ring_queue_init ring w queue_depth of (ret, w) \<Rightarrow> (\<lparr>available = (ret = 0)\<rparr>, w))"

definition uring_destroy :: "'w uring \<Rightarrow> UringEngine \<Rightarrow> 'w \<Rightarrow> 'w" where
  "uring_destroy ring e w = (if available e then ring_queue_exit ring w else w)"

section \<open>Blocking transfers\<close>

partial_function (option) uring_read_loop ::
    "'w os \<Rightarrow> int \<Rightarrow> nat \<Rightarrow> nat \<Rightarrow> bytes \<Rightarrow> 'w \<Rightarrow> ((int \<times> bytes) \<times> 'w) option" where
  "uring_read_loop os fd len off got w =
     (if length got < len then
        (case os_pread os w fd (len - length got) (off + length got) of
           (Inl errno, w) \<Rightarrow>
             if errno = EINTR then uring_read_loop os fd len off got w
             else Some ((- int errno, got), w)
         | (Inr bs, w) \<Rightarrow>
             if bs = [] then Some ((to_int (length got), got), w)
             else uring_read_loop os fd len off (got @ bs) w)
      else Some ((to_int (length got), got), w))"

definition uring_sync_read :: "'w os \<Rightarrow> int \<Rightarrow> nat \<Rightarrow> nat \<Rightarrow> 'w \<Rightarrow> ((int \<times> bytes) \<times> 'w) option" where
  "uring_sync_read os fd len off w = uring_read_loop os fd len off [] w"

partial_function (option) uring_write_loop ::
    "'w os \<Rightarrow> int \<Rightarrow> bytes \<Rightarrow> nat \<Rightarrow> nat \<Rightarrow> 'w \<Rightarrow> (int \<times> 'w) option" where
  "uring_write_loop os fd buf off total_written w =
     (if total_written < length buf then
        (case os_pwrite os w fd (drop total_written buf) (off + total_written) of
           (Inl errno, w) \<Rightarrow>
             if errno = EINTR then uring_write_loop os fd buf off total_written w
             else Some (- int errno, w)
         | (Inr n, w) \<Rightarrow> uring_write_loop os fd buf off (total_written + n) w)
      else Some (to_int total_written, w))"

definition uring_sync_write :: "'w os \<Rightarrow> int \<Rightarrow> bytes \<Rightarrow> nat \<Rightarrow> 'w \<Rightarrow> (int \<times> 'w) option" where
  "uring_sync_write os fd buf off w = uring_write_loop os fd buf off 0 w"

text \<open>The source writes the loops of the POSIX engine out again; they are the same least fixed points.\<close>

lemma uring_read_posix: "uring_read_loop os fd len off got w = Some r \<Longrightarrow> sync_read_loop os fd len off got w = Some r"
proof (erule uring_read_loop.raw_induct [where P = "\<lambda>os fd len off got w r. sync_read_loop os fd len off got w = Some r", rotated], goal_cases)
  case (1 rec os fd len off got w r)
  then show ?case by (subst sync_read_loop.simps) (auto split: if_splits prod.splits sum.splits)
qed

lemma posix_read_uring: "sync_read_loop os fd len off got w = Some r \<Longrightarrow> uring_read_loop os fd len off got w = Some r"
proof (erule sync_read_loop.raw_induct [where P = "\<lambda>os fd len off got w r. uring_read_loop os fd len off got w = Some r", rotated], goal_cases)
  case (1 rec os fd len off got w r)
  then show ?case by (subst uring_read_loop.simps) (auto split: if_splits prod.splits sum.splits)
qed

lemma uring_write_posix: "uring_write_loop os fd buf off t w = Some r \<Longrightarrow> sync_write_loop os fd buf off t w = Some r"
proof (erule uring_write_loop.raw_induct [where P = "\<lambda>os fd buf off t w r. sync_write_loop os fd buf off t w = Some r", rotated], goal_cases)
  case (1 rec os fd buf off t w r)
  then show ?case by (subst sync_write_loop.simps) (auto split: if_splits prod.splits sum.splits)
qed

lemma posix_write_uring: "sync_write_loop os fd buf off t w = Some r \<Longrightarrow> uring_write_loop os fd buf off t w = Some r"
proof (erule sync_write_loop.raw_induct [where P = "\<lambda>os fd buf off t w r. uring_write_loop os fd buf off t w = Some r", rotated], goal_cases)
  case (1 rec os fd buf off t w r)
  then show ?case by (subst uring_write_loop.simps) (auto split: if_splits prod.splits sum.splits)
qed

lemma uring_loops:
  "uring_read_loop os fd len off got w = sync_read_loop os fd len off got w"
  "uring_write_loop os fd buf off t w = sync_write_loop os fd buf off t w"
  by (metis uring_read_posix posix_read_uring option.exhaust) (metis uring_write_posix posix_write_uring option.exhaust)

section \<open>Submission\<close>

text \<open>Getting an entry, filling it and submitting it.\<close>

definition ring_enqueue :: "'w uring \<Rightarrow> ring_request \<Rightarrow> 'w \<Rightarrow> int \<times> 'w" where
  "ring_enqueue ring req w =
     (case ring_get_sqe ring w of (got, w) \<Rightarrow>
        if \<not> got then (- EAGAIN, w)
        else (case ring_submit ring (ring_prep ring w req) of (ret, w) \<Rightarrow> (if ret < 0 then ret else 0, w)))"

definition uring_submit_read :: "'w os \<Rightarrow> 'w uring \<Rightarrow> UringEngine \<Rightarrow> int \<Rightarrow> nat \<Rightarrow> nat \<Rightarrow> 64 word \<Rightarrow> 'w \<Rightarrow>
    ((int \<times> bytes) \<times> 'w) option" where
  "uring_submit_read os ring e fd len off user_data w =
     (if \<not> available e then uring_sync_read os fd len off w
      else case ring_enqueue ring (ReadRequest fd len off user_data) w of (ret, w) \<Rightarrow> Some ((ret, []), w))"

definition uring_submit_write :: "'w os \<Rightarrow> 'w uring \<Rightarrow> UringEngine \<Rightarrow> int \<Rightarrow> bytes \<Rightarrow> nat \<Rightarrow> 64 word \<Rightarrow> 'w \<Rightarrow>
    (int \<times> 'w) option" where
  "uring_submit_write os ring e fd buf off user_data w =
     (if \<not> available e then uring_sync_write os fd buf off w
      else Some (ring_enqueue ring (WriteRequest fd buf off user_data) w))"

section \<open>Completions\<close>

text \<open>\<open>room\<close> is \<open>max_completions - count\<close>; the completions found are appended to \<open>out\<close>.\<close>

fun poll_loop :: "'w uring \<Rightarrow> nat \<Rightarrow> IoCompletion list \<Rightarrow> 'w \<Rightarrow> IoCompletion list \<times> 'w" where
  "poll_loop ring 0 out w = (out, w)"
| "poll_loop ring (Suc room) out w =
     (case ring_peek_cqe ring w of
        (Inl err, w) \<Rightarrow> (out, w)
      | (Inr cqe, w) \<Rightarrow> poll_loop ring room (out @ [cqe]) (ring_cqe_seen ring w))"

definition uring_poll_completions :: "'w uring \<Rightarrow> UringEngine \<Rightarrow> int \<Rightarrow> 'w \<Rightarrow> IoCompletion list \<times> 'w" where
  "uring_poll_completions ring e max_completions w =
     (if \<not> available e then ([], w) else poll_loop ring (nat max_completions) [] w)"

section \<open>The choice of the engine\<close>

datatype engine_choice = UsePosix | UseUring UringEngine

definition choose_engine :: "'w uring \<Rightarrow> NvmeStoreConfig \<Rightarrow> 'w \<Rightarrow> engine_choice \<times> 'w" where
  "choose_engine ring cfg w =
     (if nv_io_engine cfg = ''io_uring'' then
        (case uring_create ring (nv_uring_queue_depth cfg) w of (e, w) \<Rightarrow>
           if available e then (UseUring e, w) else (UsePosix, uring_destroy ring e w))
      else (UsePosix, w))"

text \<open>The calls the blob store makes are the same functions in both cases.\<close>

definition chosen_io :: "'w os \<Rightarrow> engine_choice \<Rightarrow> 'w IoEngine" where
  "chosen_io os c =
     (case c of
        UsePosix \<Rightarrow> PosixEngine os
      | UseUring e \<Rightarrow>
          \<lparr>sync_read = (\<lambda>w fd len off. the (uring_sync_read os fd len off w)),
           sync_write = (\<lambda>w fd buf off. the (uring_sync_write os fd buf off w))\<rparr>)"

section \<open>What the ring promises\<close>

text \<open>
  The completion queue is first in, first out: a peek shows its front and leaves it there,
  \<open>io_uring_cqe_seen\<close> removes it.
\<close>

definition uring_laws :: "'w uring \<Rightarrow> ('w \<Rightarrow> IoCompletion list) \<Rightarrow> bool" where
  "uring_laws ring completed \<longleftrightarrow>
     (\<forall>w r w'. ring_peek_cqe ring w = (r, w') \<longrightarrow> completed w' = completed w \<and>
        (case completed w of [] \<Rightarrow> \<exists>e < 0. r = Inl e | c # cs \<Rightarrow> r = Inr c)) \<and>
     (\<forall>w. completed (ring_cqe_seen ring w) = tl (completed w))"

lemma poll_loop_takes:
  assumes laws: "uring_laws ring completed"
  shows "fst (poll_loop ring n out w) = out @ take n (completed w) \<and>
    completed (snd (poll_loop ring n out w)) = drop n (completed w)"
proof (induction n arbitrary: out w)
  case (Suc n)
  obtain r w' where p: "ring_peek_cqe ring w = (r, w')" by fastforce
  with laws have c: "completed w' = completed w"
    and r: "case completed w of [] \<Rightarrow> \<exists>e < 0. r = Inl e | c # cs \<Rightarrow> r = Inr c"
    unfolding uring_laws_def by blast+
  show ?case
  proof (cases "completed w")
    case Nil
    with r p c show ?thesis by auto
  next
    case (Cons x xs)
    moreover have "completed (ring_cqe_seen ring w') = xs" using laws c Cons by (simp add: uring_laws_def)
    ultimately show ?thesis using r p Suc.IH [of "out @ [x]" "ring_cqe_seen ring w'"] by simp
  qed
qed simp

section \<open>Properties\<close>

text \<open>
  Polling returns the completions that are ready, in the order in which they completed,
  up to the number asked for, and takes exactly those from the ring; nothing is lost or
  reported twice. Without a ring it reports none.
\<close>

lemma poll_completions_exact:
  assumes "uring_laws ring completed"
  shows "fst (uring_poll_completions ring e n w) = (if available e then take (nat n) (completed w) else []) \<and>
    completed (snd (uring_poll_completions ring e n w)) = (if available e then drop (nat n) (completed w) else completed w)"
  using poll_loop_takes [OF assms, of "nat n" "[]" w] by (simp add: uring_poll_completions_def)

definition list_ring :: "IoCompletion list uring" where
  "list_ring = \<lparr>ring_queue_init = (\<lambda>w n. (0, w)), ring_queue_exit = (\<lambda>w. w), ring_get_sqe = (\<lambda>w. (True, w)),
     ring_prep = (\<lambda>w r. w), ring_submit = (\<lambda>w. (1, w)),
     ring_peek_cqe = (\<lambda>w. (case w of [] \<Rightarrow> Inl (- EAGAIN) | c # cs \<Rightarrow> Inr c, w)), ring_cqe_seen = tl\<rparr>"

lemma list_ring_laws: "uring_laws list_ring (\<lambda>w. w)"
  by (simp add: uring_laws_def list_ring_def split: list.splits)

lemma poll_completions_example:
  "fst (uring_poll_completions list_ring \<lparr>available = True\<rparr> 2 [(1, 5), (2, -5), (3, 9)]) = [(1, 5), (2, -5)]"
  using poll_completions_exact [OF list_ring_laws, of "\<lparr>available = True\<rparr>" 2 "[(1, 5), (2, -5), (3, 9)]"]
  by (simp add: numeral_2_eq_2)

text \<open>
  Which engine is chosen does not matter to the blob store: the blocking calls of both are
  the same functions, so its behaviour depends only on \<open>pread\<close> and \<open>pwrite\<close>.
\<close>

lemma engines_agree: "chosen_io os (fst (choose_engine ring cfg w)) = PosixEngine os"
  by (simp add: chosen_io_def PosixEngine_def uring_sync_read_def uring_sync_write_def uring_loops
      posix_sync_read_def posix_sync_write_def split: engine_choice.splits)

text \<open>
  Where a submission falls back to the blocking call, its result is the number of bytes
  and not 0: with a ring that is not available, and always in the POSIX engine, a submitted
  write of a non-empty buffer below two gibibytes never returns 0.
\<close>

lemma submit_fallback_returns_count:
  assumes "os_laws os contents signals" and "buf \<noteq> []" and "length buf < 2 ^ 31"
  shows "\<exists>r w'. posix_submit_write os fd buf off user_data w = Some (r, w') \<and>
    uring_submit_write os ring \<lparr>available = False\<rparr> fd buf off user_data w = Some (r, w') \<and> r \<noteq> 0"
proof -
  obtain r w' k where "sync_write_loop os fd buf off 0 w = Some (r, w')"
    "r = to_int (length buf) \<and> k = length buf \<or> (\<exists>e. 0 < e \<and> e \<noteq> EINTR \<and> r = - int e)"
    using sync_write_loop_result [OF assms(1), of 0 buf w fd "contents w fd" off] by auto
  with to_int_small [OF assms(3)] assms(2) show ?thesis
    by (auto simp: posix_submit_write_def posix_sync_write_def uring_submit_write_def uring_sync_write_def uring_loops)
qed

lemma submit_fallback_returns_count_witness:
  "\<exists>r w'. posix_submit_write slow_os 3 [1, 2] 0 7 (\<lambda>_. [], True) = Some (r, w') \<and> r \<noteq> 0"
proof -
  fix ring :: "((int \<Rightarrow> bytes) \<times> bool) uring"
  show ?thesis using submit_fallback_returns_count [OF slow_os_laws, of "[1, 2]" 3 0 7 "(\<lambda>_. [], True)" ring] by auto
qed

end
