(* ===== verification/Spec2Isabelle.thy ===== *)
theory Spec2Isabelle
  imports Py_Bindings Blob_Oversized Blob_Race Blob_Gc Engine_Crash Engine_Race Uring_Engine
begin

text \<open>
  AttentionDB is a cache for the key/value blobs of attention layers. The sources are in
  \<open>attentiondb/attentiondb-server/src\<close> (paths below are relative to it) and in
  \<open>attentiondb-server/python\<close>.

  \<^bold>\<open>The program.\<close> An \<open>AttentionDBEngine\<close> keeps an index from 30-byte keys to 64-byte packed
  entries (\<open>index/\<close>, over libcuckoo). A put passes admission control (\<open>admission/\<close>), is copied
  into a slot of the T1 slab allocator (\<open>memory/\<close>) or, when no slot is free, appended to the T2
  log of segment files (\<open>storage/\<close>), and is indexed. When T1 is filled beyond 95 percent, the
  eviction policy (\<open>eviction/\<close>) names victims, which are demoted to T2 or dropped. A get follows
  the index entry to either tier. Background threads write full blocks of the log to disk,
  collect segments, checkpoint the index (\<open>checkpoint/\<close>) and log a summary (\<open>logging/\<close>). At
  startup the checkpoint is loaded and the entries of the lost T1 are scrubbed. The C interface
  (\<open>c_api.cpp\<close>) and the Python class (\<open>attentiondb_py.cpp\<close>) call the engine.

  \<^bold>\<open>Theories and sources.\<close> Definitions keep the names of the source; where C++ overloads or
  HOL reserves a name, a prefix says which class it belongs to (\<open>blob_write\<close>, \<open>engine_put\<close>,
  \<open>index_find\<close>). State is passed explicitly; a class is a record, an operation returns the new
  record, an exception or a crash is a value of the result.

  \<^item> \<open>Prelude\<close>: machine integers, little-endian images, memory, decimal output.
  \<^item> \<open>Float64\<close>: IEEE double arithmetic on rationals, rounding to nearest even.
  \<^item> \<open>Core_Types\<close>: \<open>core/status.h\<close>, \<open>index_entry.h\<close>, \<open>storage_key.h\<close>. \<open>Config\<close>:
    \<open>core/config.{h,cpp}\<close>.
  \<^item> \<open>Admission\<close>, \<open>Cw_Slru\<close>, \<open>Slab_Allocator\<close>, \<open>Hash_Index\<close>, \<open>Checkpoint\<close>, \<open>Logger\<close>: the
    directories of the same names. \<open>Crc32c\<close>: \<open>AttentionDBEngine::compute_crc32\<close>.
  \<^item> \<open>Io_Engine\<close>: the blocking loops of \<open>storage/posix_engine.cpp\<close>. \<open>Uring_Engine\<close>:
    \<open>storage/uring_engine.cpp\<close> and the choice of the engine. \<open>Segment\<close>: \<open>storage/segment.h\<close>.
  \<^item> \<open>Blob_Store\<close>: every operation of \<open>storage/blob_store.cpp\<close>, split where it releases the
    block mutex, so that a writer that waits and the flush thread interleave. \<open>File_System\<close>:
    what the store relies on. \<open>Blob_Log\<close>, \<open>Blob_Open\<close>, \<open>Blob_Runs\<close>: its invariant, opening and
    closing, its runs. \<open>Blob_Oversized\<close>, \<open>Blob_Race\<close>, \<open>Blob_Gc\<close>, \<open>Blob_Crash\<close>: blobs larger than
    a block, two writers, compaction, death without closing. \<open>Blob_Backend\<close>: the interface the
    engine uses.
  \<^item> \<open>Engine\<close>: \<open>engine.{h,cpp}\<close>. \<open>Engine_Cache\<close>, \<open>Engine_Runs\<close>: the cache contract and the
    operations that keep it. \<open>Engine_Start\<close>, \<open>Engine_Restart\<close>, \<open>Engine_Life\<close>: opening, orderly
    shutdown, lives with restarts. \<open>Engine_Crash\<close>: starting after a crash. \<open>Engine_Limits\<close>: the
    DRAM tier over time. \<open>Engine_Race\<close>: gets and deletes overtaken by other operations.
    \<open>Engine_Client\<close>: the engine as its clients see it.
  \<^item> \<open>C_Api\<close>: \<open>c_api.{h,cpp}\<close>. \<open>Py_Bindings\<close>: \<open>attentiondb_py.cpp\<close>.

  \<^bold>\<open>Interfaces.\<close> Four locales state what one component promises another and are interpreted on
  the model: \<open>eviction_policy\<close> (by the linked lists and iterator maps of \<open>Cw_Slru\<close>),
  \<open>slot_allocator\<close> (by the free lists of \<open>Slab_Allocator\<close>), \<open>blob_backend\<close> (by the segment log,
  in \<open>Blob_Backend\<close>) and \<open>kv_cache\<close> (by the engine with T2 on, in \<open>Engine_Client\<close>). The cache
  contract of \<open>Engine_Cache\<close> rests on the first three, the C interface and the Python class on
  the last.

  \<^bold>\<open>What is shown.\<close>
  \<^item> Clients (\<open>Engine_Life\<close>, \<open>C_Api\<close>, \<open>Py_Bindings\<close>): in every state of a life (puts, gets,
    deletes, turns of the background threads, orderly restarts, in any order) a get returns the
    last acknowledged blob of the key or \<open>kNotFound\<close>; with T2 on the engine is a map, less what
    was in DRAM at a restart; a restart answers for every T2 key as before; the outcome of a put
    is determined; index entries are well typed; a batch of puts goes through its items one by
    one, and gets after it answer from the map they leave.
  \<^item> Crashes (\<open>Engine_Crash\<close>): after the process has died at any moment of a life, the next one
    answers from the moment of the last checkpoint, as far as the blobs had been flushed, and
    returns no other bytes. The invariant of the log says that an acknowledged entry is on disk
    completely or not at all.
  \<^item> Concurrency (\<open>Engine_Race\<close>): a get that is overtaken after its lookup returns the old blob
    when it was in T2, and may return bytes of another key when it was in T1; of two deletes of
    one key the second frees the slot again.
  \<^item> Blob store: with one writer every acknowledged blob is readable at every moment and after
    restarts, and a writer that waits goes on after one turn of the flush thread. Three limits of
    the code are proved as such: a blob larger than a block is overwritten by the next small one,
    a blob close to 4 GiB is acknowledged with the disk size 0 and cannot be read, and a second
    writer that comes while one waits loses its blob.
  \<^item> Compaction hands every entry of a flushed segment to the callback where the device takes
    64-byte direct reads and none where it does not, and drops the segment in either case.
  \<^item> Checkpoint: save and load are inverse, a failed save leaves the old file, the status of a
    load says exactly what it found; an update made during a save can miss both checkpoints.
  \<^item> Eviction: the lists and maps refine an abstract policy; victims are optimal among the
    candidates; a promotion fills the protected segment to its share of the entries at most. Allocator: a slot is owned by one client;
    frees are exact. After a put T1 has headroom again or the policy is empty, but an overwrite
    leaks a slot.
  \<^item> Admission is monotone in cost and utilization. Parsing, checksum, I/O loops, ring: functional
    correctness on every branch, with the wrap-arounds the code does not catch.

  \<^bold>\<open>Parameters.\<close> Code outside the repository is an argument with its documented
  behaviour as a named hypothesis: libcuckoo (\<open>cuckoo_laws\<close>), the file system
  (\<open>reliable\<close>: reads and writes of open files, creation, listings; the store reads
  whole pages, except the collector, whose 64-byte reads of files opened for direct I/O are the
  parameter of \<open>direct_reads\<close>), the system allocator (\<open>alloc_laws\<close>,
  \<open>alloc_keeps\<close>), POSIX calls (\<open>os_laws\<close>), io_uring
  (\<open>uring_laws\<close>), the failure points of checkpoint I/O (\<open>io_faults\<close>,
  \<open>disk_healthy\<close>), xxHash, the YAML parser and the clocks (any function). Each
  hypothesis is met by a concrete instance in the witnesses (\<open>alist_table\<close>,
  \<open>mem_env\<close>, \<open>brk_env\<close>, \<open>demo_env\<close>).

  \<^bold>\<open>Bounds.\<close> \<open>sane_config\<close>: paths, blocks below 4 GiB, at least one block, segments below
  2^63 bytes. \<open>blob_fits\<close>: a blob is not empty and fits a block; larger ones are the subject of
  \<open>Blob_Oversized\<close>. \<open>put_room\<close>, \<open>ids_used\<close>: segment ids are 32 bits wide and a put may use one id
  for itself and one per victim. \<open>kMaxEntries\<close>: a checkpoint holds at most 100 million entries. No fuel
  is used: loops are structural, have a measure (the eviction loop, the walk of the collector),
  or follow the number of interrupted calls that \<open>os_laws\<close> bounds.

  \<^bold>\<open>Not modelled.\<close> Interleavings inside an engine operation, other than after the lookup of a
  get or a delete: engine steps are whole operations, as if callers were serialised; the
  blob store and the checkpoint have finer steps. A crash in the middle of a write call: a
  block or a checkpoint is written in one step. Sleeping and time, except as inputs. The entries
  of the Python module's table that have no body (pybind11 expands them, with the default
  arguments) and its hash of a key, which is xxHash's. \<open>storage/gds_engine.h\<close> (declarations
  without bodies), the CUDA and macOS branches, the empty units, benchmarks and tests.
\<close>

end
